(* ===== verification/Prelude.thy ===== *)
theory Prelude
  imports Main
begin

text \<open>
  Shared ground of the development.

  The compiler passes of this repository mutate a syntax tree in place while they
  thread a little state along (diagnostics reported so far, a counter for temporaries,
  the imports of the file). The model returns the new tree and the new state instead.
  Two combinators carry that style through lists and optional children:
  \<open>mapS\<close> and \<open>optS\<close>. They come with the congruence rules that let recursive
  definitions call themselves under them, and with the lemmas by which an invariant
  of one step becomes an invariant of the whole traversal.

  The locale \<open>lowering_pass\<close> is the contract every lowering pass of the compiler front end
  fulfils; each pass interprets it on its own definitions.
\<close>

named_theorems fgo_mono \<open>each step of a pass moves its state up\<close>
named_theorems fgo_simple \<open>preservation of the statement slots of the syntax tree\<close>

type_synonym addr = nat

text \<open>The decimal digits of a number, as Go's \<^verbatim>\<open>%d\<close> prints them.\<close>

fun digits :: "nat \<Rightarrow> string" where
  "digits n = (if n < 10 then [char_of (48 + n)] else digits (n div 10) @ [char_of (48 + n mod 10)])"

declare digits.simps [simp del]

section \<open>Stateful traversals\<close>

fun mapS :: "('a \<Rightarrow> 's \<Rightarrow> 'b \<times> 's) \<Rightarrow> 'a list \<Rightarrow> 's \<Rightarrow> 'b list \<times> 's" where
  "mapS f [] s = ([], s)"
| "mapS f (x # xs) s =
     (case f x s of (y, s1) \<Rightarrow> case mapS f xs s1 of (ys, s2) \<Rightarrow> (y # ys, s2))"

fun optS :: "('a \<Rightarrow> 's \<Rightarrow> 'b \<times> 's) \<Rightarrow> 'a option \<Rightarrow> 's \<Rightarrow> 'b option \<times> 's" where
  "optS f None s = (None, s)"
| "optS f (Some x) s = (case f x s of (y, s1) \<Rightarrow> (Some y, s1))"

lemma mapS_cong [fundef_cong]:
  assumes "xs = ys" and "s = t" and "\<And>x u. x \<in> set ys \<Longrightarrow> f x u = g x u"
  shows "mapS f xs s = mapS g ys t"
  using assms by (induction xs arbitrary: ys s t) (auto split: prod.splits)

lemma optS_cong [fundef_cong]:
  assumes "x = y" and "s = t" and "\<And>z u. z \<in> set_option y \<Longrightarrow> f z u = g z u"
  shows "optS f x s = optS g y t"
  using assms by (cases y) auto

lemma mapS_length [simp]: "length (fst (mapS f xs s)) = length xs"
  by (induction xs arbitrary: s) (auto split: prod.splits, metis fst_conv)

lemma mapS_id:
  assumes "\<And>x u. x \<in> set xs \<Longrightarrow> f x u = (x, u)"
  shows "mapS f xs s = (xs, s)"
  using assms by (induction xs arbitrary: s) auto

lemma optS_id:
  assumes "\<And>x u. x \<in> set_option o' \<Longrightarrow> f x u = (x, u)"
  shows "optS f o' s = (o', s)"
  using assms by (cases o') auto

lemma mapS_pure: "mapS (\<lambda>x u. (f x, u)) xs s = (map f xs, s)"
  by (induction xs arbitrary: s) auto

lemma optS_pure: "optS (\<lambda>x u. (f x, u)) o' s = (map_option f o', s)"
  by (cases o') auto

text \<open>An element property established by every step holds of the whole result.\<close>

lemma mapS_all:
  assumes "\<And>x u. x \<in> set xs \<Longrightarrow> P (fst (f x u))"
  shows "list_all P (fst (mapS f xs s))"
  using assms
proof (induction xs arbitrary: s)
  case Nil
  then show ?case by simp
next
  case (Cons x xs)
  obtain y s1 where y: "f x s = (y, s1)" by (cases "f x s")
  obtain ys s2 where ys: "mapS f xs s1 = (ys, s2)" by (cases "mapS f xs s1")
  have "P y" using Cons.prems[of x s] y by simp
  moreover have "list_all P ys" using Cons.IH[of s1] Cons.prems ys by simp
  ultimately show ?case using y ys by simp
qed

lemma optS_all:
  assumes "\<And>x u. x \<in> set_option o' \<Longrightarrow> P (fst (f x u))"
  shows "pred_option P (fst (optS f o' s))"
  using assms by (cases o') (auto split: prod.splits, metis fst_conv)

section \<open>Optional children and lists\<close>

fun opt_list :: "'a option \<Rightarrow> 'a list" where
  "opt_list None = []"
| "opt_list (Some x) = [x]"

lemma opt_list_map: "opt_list (map_option f o') = map f (opt_list o')"
  by (cases o') auto

lemma in_list_size: "x \<in> set xs \<Longrightarrow> f x < size_list f xs"
  by (induction xs) auto

lemma opt_list_size: "x \<in> set (opt_list o') \<Longrightarrow> f x < size_option f o'"
  by (cases o') auto

lemma set_opt_list [simp]: "set (opt_list o') = set_option o'"
  by (cases o') auto

lemma set_concat_opt: "y \<in> set (concat (map opt_list tags)) \<longleftrightarrow> Some y \<in> set tags"
  by (induction tags) (auto simp: elem_set)

lemma list_all_concat_map:
  "list_all Q (concat (map f xs)) \<longleftrightarrow> (\<forall>x \<in> set xs. list_all Q (f x))"
  by (induction xs) auto

lemma list_all_concat_opt:
  "list_all Q (concat (map f (opt_list x))) \<longleftrightarrow> (\<forall>y. x = Some y \<longrightarrow> list_all Q (f y))"
  by (cases x) auto

lemma fold_or:
  "(\<And>x u. x \<in> set xs \<Longrightarrow> f x u = (u \<or> Q x)) \<Longrightarrow> fold f xs s = (s \<or> list_ex Q xs)"
  by (induction xs arbitrary: s) auto

lemma fold_append:
  "(\<And>x u. x \<in> set xs \<Longrightarrow> f (g x) u = u @ k x) \<Longrightarrow> fold f (map g xs) s = s @ concat (map k xs)"
  by (induction xs arbitrary: s) auto

lemma fold_append_opt:
  "(\<And>x u. o' = Some x \<Longrightarrow> f (g x) u = u @ k x) \<Longrightarrow>
   fold f (map g (opt_list o')) s = s @ concat (map k (opt_list o'))"
  by (cases o') auto

section \<open>Traversals of concatenated lists\<close>

lemma mapS_fun_cong: "(\<And>x. x \<in> set xs \<Longrightarrow> f x = g x) \<Longrightarrow> mapS f xs = mapS g xs"
  by (rule ext) (rule mapS_cong, auto)

lemma optS_fun_cong: "(\<And>x. o' = Some x \<Longrightarrow> f x = g x) \<Longrightarrow> optS f o' = optS g o'"
  by (rule ext) (rule optS_cong, auto)

lemma case_prod_fst_snd: "(case p of (a, b) \<Rightarrow> f a b) = f (fst p) (snd p)"
  by (cases p) simp

lemma mapS_append:
  "mapS f (xs @ ys) s =
     (fst (mapS f xs s) @ fst (mapS f ys (snd (mapS f xs s))), snd (mapS f ys (snd (mapS f xs s))))"
  by (induction xs arbitrary: s) (auto simp: case_prod_fst_snd)

lemma mapS_concat:
  assumes "\<And>x u. x \<in> set xs \<Longrightarrow> k (fst (f x u)) = fst (mapS h (k x) u) \<and> snd (f x u) = snd (mapS h (k x) u)"
  shows "concat (map k (fst (mapS f xs s))) = fst (mapS h (concat (map k xs)) s)"
    and "snd (mapS f xs s) = snd (mapS h (concat (map k xs)) s)"
  using assms by (induction xs arbitrary: s) (auto simp: case_prod_fst_snd mapS_append)

lemma optS_concat:
  assumes "\<And>x u. o' = Some x \<Longrightarrow> k (fst (f x u)) = fst (mapS h (k x) u) \<and> snd (f x u) = snd (mapS h (k x) u)"
  shows "concat (map k (opt_list (fst (optS f o' s)))) = fst (mapS h (concat (map k (opt_list o'))) s)"
    and "snd (optS f o' s) = snd (mapS h (concat (map k (opt_list o'))) s)"
  using assms by (cases o'; auto simp: case_prod_fst_snd mapS_append)+

lemma optS_Some_id: "(\<And>x u. o' = Some x \<Longrightarrow> f x u = (x, u)) \<Longrightarrow> optS f o' s = (o', s)"
  by (cases o') auto

lemma mapS_set: "y \<in> set (fst (mapS f xs s)) \<Longrightarrow> \<exists>x \<in> set xs. \<exists>u. y = fst (f x u)"
  by (induction xs arbitrary: s) (auto simp: case_prod_beta)

lemma optS_Some: "fst (optS f o' s) = Some y \<Longrightarrow> \<exists>x u. o' = Some x \<and> y = fst (f x u)"
  by (cases o') (auto simp: case_prod_beta)

text \<open>An invariant of the state that every step keeps is kept by the whole traversal.\<close>

lemma mapS_inv:
  assumes "\<And>x u. x \<in> set xs \<Longrightarrow> I u \<Longrightarrow> I (snd (f x u))" and "I s"
  shows "I (snd (mapS f xs s))"
  using assms by (induction xs arbitrary: s) (auto simp: case_prod_beta)

lemma optS_inv:
  assumes "\<And>x u. o' = Some x \<Longrightarrow> I u \<Longrightarrow> I (snd (f x u))" and "I s"
  shows "I (snd (optS f o' s))"
  using assms by (cases o') (auto simp: case_prod_beta)

text \<open>The same for proofs by induction on the size of a tree: every element is smaller than its list.\<close>

lemma mapS_inv_all:
  "\<forall>x \<in> set xs. size x \<le> size_list size xs \<longrightarrow> (\<forall>u. I u \<longrightarrow> I (snd (f x u))) \<Longrightarrow> I s \<Longrightarrow>
   I (snd (mapS f xs s))"
  by (rule mapS_inv) (auto intro: less_imp_le in_list_size)

lemma optS_inv_all:
  "\<forall>x \<in> set_option o'. size x \<le> size_option size o' \<longrightarrow> (\<forall>u. I u \<longrightarrow> I (snd (f x u))) \<Longrightarrow> I s \<Longrightarrow>
   I (snd (optS f o' s))"
  by (cases o') (auto simp: case_prod_beta)

lemma mapS_map_all:
  "\<forall>x \<in> set xs. size x \<le> size_list size xs \<longrightarrow> (\<forall>u. f x u = (g x, u)) \<Longrightarrow> mapS f xs s = (map g xs, s)"
  using mapS_cong [of xs xs s s f "\<lambda>x u. (g x, u)"] by (auto simp: mapS_pure intro: less_imp_le in_list_size)

lemma optS_id_all:
  "\<forall>x \<in> set_option o'. size x \<le> size_option size o' \<longrightarrow> (\<forall>u. f x u = (x, u)) \<Longrightarrow> optS f o' s = (o', s)"
  by (cases o') auto

lemma size_list_comp_eq: "(\<And>x. x \<in> set xs \<Longrightarrow> f (g x) = f x) \<Longrightarrow> size_list (f \<circ> g) xs = size_list f xs"
  unfolding comp_def by (induction xs) auto

lemma size_option_map_eq:
  "(\<And>x. o' = Some x \<Longrightarrow> f (g x) = f x) \<Longrightarrow> size_option f (map_option g o') = size_option f o'"
  by (cases o') auto

section \<open>The contract of a lowering pass\<close>

text \<open>
  A lowering pass rewrites trees and moves a state up in a preorder (it only ever adds
  diagnostics). It promises that a tree in which every construct stands where the pass
  looks (\<open>covered\<close>) comes out without the construct (\<open>\<not> dirty\<close>), and that a tree without it
  is left alone, state and all. The lemmas of the locale are what the driver relies on:
  running the pass again does nothing, and running it over all function bodies of a
  package keeps the contract.
\<close>

locale state_preorder =
  fixes below :: "'s \<Rightarrow> 's \<Rightarrow> bool"
  assumes below_refl: "below s s"
    and below_trans: "below s t \<Longrightarrow> below t u \<Longrightarrow> below s u"

locale lowering_pass = state_preorder below
  for below :: "'s \<Rightarrow> 's \<Rightarrow> bool" +
  fixes run :: "'a \<Rightarrow> 's \<Rightarrow> 'a \<times> 's"
    and dirty :: "'a \<Rightarrow> bool"
    and covered :: "'a \<Rightarrow> bool"
  assumes lowers: "covered x \<Longrightarrow> \<not> dirty (fst (run x s))"
    and same: "\<not> dirty x \<Longrightarrow> run x s = (x, s)"
    and moves_up: "below s (snd (run x s))"
begin

lemma run_twice: "covered x \<Longrightarrow> run (fst (run x s)) t = (fst (run x s), t)"
  using lowers same by simp

lemma runs_lower: "list_all covered xs \<Longrightarrow> list_all (\<lambda>x. \<not> dirty x) (fst (mapS run xs s))"
  by (rule mapS_all) (auto simp: list_all_iff lowers)

lemma runs_same: "list_all (\<lambda>x. \<not> dirty x) xs \<Longrightarrow> mapS run xs s = (xs, s)"
  by (rule mapS_id) (auto simp: list_all_iff same)

lemma runs_twice:
  "list_all covered xs \<Longrightarrow> mapS run (fst (mapS run xs s)) t = (fst (mapS run xs s), t)"
  using runs_lower runs_same by simp

lemma runs_up: "below s (snd (mapS run xs s))"
  by (rule mapS_inv [where I = "below s"]) (auto intro: below_refl below_trans moves_up)

end

end
