(* ===== verification/Syntax.thy ===== *)
theory Syntax
  imports Prelude
begin

text \<open>
  The syntax tree of \<^verbatim>\<open>src/src/cmd/compile/internal/syntax/nodes.go\<close>, the tree every
  forgo pass rewrites.

  One datatype per node interface, one constructor per node struct, the fields in the
  source's order. A nil child is \<open>None\<close>; a \<open>*Name\<close> that only labels something is its
  string. Positions, comment groups and type-checker results are left out: no pass
  branches on them. \<^verbatim>\<open>*BlockStmt\<close> and \<^verbatim>\<open>*FuncType\<close>, which the source uses both as an
  interface value and by concrete type, are datatypes of their own.

  Some passes compare nodes by pointer (a branch's resolved \<open>Target\<close>, the set of lowered
  blocks). Those nodes carry their address, an \<open>addr\<close>.
\<close>

section \<open>Tokens and operators\<close>

datatype litKind = IntLit | FloatLit | ImagLit | RuneLit | StringLit

datatype operator = Def | OpNot | Recv | Tilde | OrOr | AndAnd
  | Eql | Neq | Lss | Leq | Gtr | Geq
  | Add | Sub | OpOr | OpXor | Mul | Div | Rem | OpAnd | AndNot | Shl | Shr

datatype branchTok = Break | Continue | Fallthrough | Goto

datatype callTok = Go | Defer

datatype chanDir = NoDir | SendOnly | RecvOnly

datatype basicLit = BasicLit (LitValue: string) (LitKind: litKind) (LitBad: bool)

text \<open>The forgo part of a declaration's pragmas (\<^verbatim>\<open>noder.go\<close>, struct \<open>pragmas\<close>).\<close>

record pragmas =
  IsComptime :: bool
  IsMacro :: bool
  IsNogc :: bool
  IsStrict :: bool

definition no_pragmas :: pragmas where
  "no_pragmas = \<lparr>IsComptime = False, IsMacro = False, IsNogc = False, IsStrict = False\<rparr>"

section \<open>Nodes\<close>

datatype (plugins only: code size)
  expr = BadExpr
  | Name string
  | BasicLitE basicLit
  | CompositeLit "expr option" "expr list" nat
  | KeyValueExpr expr expr
  | FuncLit funcType blockStmt
  | ParenExpr expr
  | TryExpr expr
  | SelectorExpr expr string
  | IndexExpr expr expr
  | SliceExpr expr "expr option" "expr option" "expr option" bool
  | AssertExpr expr expr
  | TypeSwitchGuard "string option" expr
  | Operation operator expr "expr option"
  | CallExpr expr "expr list" bool
  | ListExpr "expr list"
  | ArrayType "expr option" expr
  | SliceType expr
  | DotsType expr
  | StructType "field list" "basicLit option list"
  | InterfaceType "field list"
  | FuncTypeE funcType
  | MapType expr expr
  | ChanType chanDir expr
and field = Field "string option" expr
and funcType = FuncType "field list" "field list"
and stmt = EmptyStmt
  | LabeledStmt addr string stmt
  | BlockS blockStmt
  | ExprStmt expr
  | SendStmt expr expr
  | DeclStmt "decl list"
  | AssignStmt "operator option" expr "expr option"
  | BranchStmt branchTok "string option" "addr option"
  | CallStmt callTok expr "expr option"
  | ReturnStmt "expr option"
  | ThrowStmt expr
  | WithStmt string expr blockStmt
  | IfStmt "stmt option" expr blockStmt "stmt option"
  | PostfixIfStmt stmt expr
  | ForStmt addr "stmt option" "expr option" "stmt option" blockStmt
  | SwitchStmt addr "stmt option" "expr option" "caseClause list"
  | SelectStmt addr "commClause list"
  | RangeClause "expr option" bool expr
and caseClause = CaseClause "expr option" "stmt list"
and commClause = CommClause "stmt option" "stmt list"
and blockStmt = BlockStmt addr "stmt list"
and decl = ImportDecl "string option" "basicLit option"
  | ConstDecl "string list" "expr option" "expr option"
  | TypeDecl pragmas string "field list" bool expr
  | VarDecl "string list" "expr option" "expr option"
  | FuncDecl pragmas "field option" string "field list" funcType "blockStmt option"

text \<open>Which node structs embed \<^verbatim>\<open>simpleStmt\<close>, and two helpers of \<^verbatim>\<open>parser.go\<close>.\<close>

fun isSimpleStmt :: "stmt \<Rightarrow> bool" where
  "isSimpleStmt EmptyStmt = True"
| "isSimpleStmt (ExprStmt _) = True"
| "isSimpleStmt (SendStmt _ _) = True"
| "isSimpleStmt (AssignStmt _ _ _) = True"
| "isSimpleStmt (RangeClause _ _ _) = True"
| "isSimpleStmt _ = False"

fun Unparen :: "expr \<Rightarrow> expr" where
  "Unparen (ParenExpr x) = Unparen x"
| "Unparen x = x"

fun UnpackListExpr :: "expr option \<Rightarrow> expr list" where
  "UnpackListExpr None = []"
| "UnpackListExpr (Some (ListExpr es)) = es"
| "UnpackListExpr (Some x) = [x]"

fun blockList :: "blockStmt \<Rightarrow> stmt list" where
  "blockList (BlockStmt a ss) = ss"

end
