(* ===== verification/Walk.thy ===== *)
theory Walk
  imports Syntax
begin

text \<open>
  The traversal of \<^verbatim>\<open>src/src/cmd/compile/internal/syntax/walk.go\<close>.

  \<open>children\<close> lists the children of a node in the order of \<^verbatim>\<open>walker.node\<close>, and \<open>walk\<close> is the
  pre-order traversal with a visitor that may prune, the visitor's state passed along.
  \<open>mapFuncLits\<close> is the traversal several passes make with \<^verbatim>\<open>syntax.Inspect\<close>: it rewrites
  the body of each outermost function literal of an expression and does not descend into
  it. \<open>walk_collectV\<close> and \<open>mapFuncLits_mapS\<close> tie the two together: the bodies rewritten
  are those the pruning traversal meets, in that order.

  \<open>anyNode P n\<close> is the search of a whole tree for a node with property \<open>P\<close>; \<open>walk_findV\<close>
  shows that \<^verbatim>\<open>Inspect\<close> with a visitor that stops at the first such node computes it.
\<close>

section \<open>Walking\<close>

datatype node = NExpr expr | NField field | NFuncType funcType | NStmt stmt
  | NCase caseClause | NComm commClause | NBlock blockStmt | NDecl decl

abbreviation nName :: "string \<Rightarrow> node" where
  "nName x \<equiv> NExpr (Name x)"

fun children_expr :: "expr \<Rightarrow> node list" where
  "children_expr BadExpr = []"
| "children_expr (Name _) = []"
| "children_expr (BasicLitE _) = []"
| "children_expr (CompositeLit t es _) = map NExpr (opt_list t) @ map NExpr es"
| "children_expr (KeyValueExpr k v) = [NExpr k, NExpr v]"
| "children_expr (FuncLit t b) = [NFuncType t, NBlock b]"
| "children_expr (ParenExpr x) = [NExpr x]"
| "children_expr (TryExpr x) = [NExpr x]"
| "children_expr (SelectorExpr x sel) = [NExpr x, nName sel]"
| "children_expr (IndexExpr x i) = [NExpr x, NExpr i]"
| "children_expr (SliceExpr x i j k _) =
     NExpr x # map NExpr (opt_list i @ opt_list j @ opt_list k)"
| "children_expr (AssertExpr x t) = [NExpr x, NExpr t]"
| "children_expr (TypeSwitchGuard l x) = map nName (opt_list l) @ [NExpr x]"
| "children_expr (Operation _ x y) = NExpr x # map NExpr (opt_list y)"
| "children_expr (CallExpr f args _) = NExpr f # map NExpr args"
| "children_expr (ListExpr es) = map NExpr es"
| "children_expr (ArrayType l e) = map NExpr (opt_list l) @ [NExpr e]"
| "children_expr (SliceType e) = [NExpr e]"
| "children_expr (DotsType e) = [NExpr e]"
| "children_expr (StructType fs tags) =
     map NField fs @ map (\<lambda>l. NExpr (BasicLitE l)) (concat (map opt_list tags))"
| "children_expr (InterfaceType ms) = map NField ms"
| "children_expr (FuncTypeE (FuncType ps rs)) = map NField ps @ map NField rs"
| "children_expr (MapType k v) = [NExpr k, NExpr v]"
| "children_expr (ChanType _ e) = [NExpr e]"

fun children_stmt :: "stmt \<Rightarrow> node list" where
  "children_stmt EmptyStmt = []"
| "children_stmt (LabeledStmt _ l s) = [nName l, NStmt s]"
| "children_stmt (BlockS (BlockStmt _ ss)) = map NStmt ss"
| "children_stmt (ExprStmt x) = [NExpr x]"
| "children_stmt (SendStmt c v) = [NExpr c, NExpr v]"
| "children_stmt (DeclStmt ds) = map NDecl ds"
| "children_stmt (AssignStmt _ l r) = NExpr l # map NExpr (opt_list r)"
| "children_stmt (BranchStmt _ l _) = map nName (opt_list l)"
| "children_stmt (CallStmt _ c _) = [NExpr c]"
| "children_stmt (ReturnStmt r) = map NExpr (opt_list r)"
| "children_stmt (ThrowStmt x) = [NExpr x]"
| "children_stmt (WithStmt x v b) = [nName x, NExpr v, NBlock b]"
| "children_stmt (PostfixIfStmt s c) = [NStmt s, NExpr c]"
| "children_stmt (IfStmt i c t e) =
     map NStmt (opt_list i) @ [NExpr c, NBlock t] @ map NStmt (opt_list e)"
| "children_stmt (ForStmt _ i c p b) =
     map NStmt (opt_list i) @ map NExpr (opt_list c) @ map NStmt (opt_list p) @ [NBlock b]"
| "children_stmt (SwitchStmt _ i t cs) =
     map NStmt (opt_list i) @ map NExpr (opt_list t) @ map NCase cs"
| "children_stmt (SelectStmt _ cs) = map NComm cs"
| "children_stmt (RangeClause l _ x) = map NExpr (opt_list l) @ [NExpr x]"

fun children_decl :: "decl \<Rightarrow> node list" where
  "children_decl (ImportDecl l p) =
     map nName (opt_list l) @ map (\<lambda>p. NExpr (BasicLitE p)) (opt_list p)"
| "children_decl (ConstDecl ns t v) = map nName ns @ map NExpr (opt_list t @ opt_list v)"
| "children_decl (TypeDecl _ n tps _ t) = nName n # map NField tps @ [NExpr t]"
| "children_decl (VarDecl ns t v) = map nName ns @ map NExpr (opt_list t @ opt_list v)"
| "children_decl (FuncDecl _ r n tps t b) =
     map NField (opt_list r) @ [nName n] @ map NField tps @ [NFuncType t] @
     map NBlock (opt_list b)"

fun children :: "node \<Rightarrow> node list" where
  "children (NExpr e) = children_expr e"
| "children (NField (Field n t)) = map nName (opt_list n) @ [NExpr t]"
| "children (NFuncType (FuncType ps rs)) = map NField ps @ map NField rs"
| "children (NStmt s) = children_stmt s"
| "children (NCase (CaseClause c ss)) = map NExpr (opt_list c) @ map NStmt ss"
| "children (NComm (CommClause c ss)) = map NStmt (opt_list c) @ map NStmt ss"
| "children (NBlock (BlockStmt _ ss)) = map NStmt ss"
| "children (NDecl d) = children_decl d"

fun node_size :: "node \<Rightarrow> nat" where
  "node_size (NExpr e) = (case e of Name _ \<Rightarrow> 0 | BasicLitE _ \<Rightarrow> 0 | _ \<Rightarrow> 1 + 2 * size e)"
| "node_size (NField f) = 1 + 2 * size f"
| "node_size (NFuncType t) = 1 + 2 * size t"
| "node_size (NStmt s) = 1 + 2 * size s"
| "node_size (NCase c) = 1 + 2 * size c"
| "node_size (NComm c) = 1 + 2 * size c"
| "node_size (NBlock b) = 1 + 2 * size b"
| "node_size (NDecl d) = 1 + 2 * size d"

lemma node_size_expr_le: "node_size (NExpr e) \<le> 1 + 2 * size e"
  by (simp split: expr.splits)

lemmas child_sizes = in_list_size [where f = size] opt_list_size [where f = size]

lemma children_expr_size: "c \<in> set (children_expr e) \<Longrightarrow> node_size c < 1 + 2 * size e"
  by (cases e rule: children_expr.cases)
    (auto dest!: child_sizes(1) split: expr.splits)

lemma children_stmt_size: "c \<in> set (children_stmt s) \<Longrightarrow> node_size c < 1 + 2 * size s"
  by (cases s rule: children_stmt.cases)
    (auto dest!: child_sizes(1) split: expr.splits)

lemma children_decl_size: "c \<in> set (children_decl d) \<Longrightarrow> node_size c < 1 + 2 * size d"
  by (cases d rule: children_decl.cases)
    (auto dest!: child_sizes(1) split: expr.splits)

lemma children_size: "c \<in> set (children n) \<Longrightarrow> node_size c < node_size n"
proof (cases n rule: children.cases)
  case (1 e)
  assume c: "c \<in> set (children n)"
  then have "children_expr e \<noteq> []" using 1 by auto
  then have "node_size n = 1 + 2 * size e" using 1 by (cases e) auto
  then show ?thesis using c 1 children_expr_size by simp
next
  case (4 s)
  assume "c \<in> set (children n)"
  then show ?thesis using 4 children_stmt_size by simp
next
  case (8 d)
  assume "c \<in> set (children n)"
  then show ?thesis using 8 children_decl_size by simp
qed (auto dest!: child_sizes(1) split: expr.splits)

function walk :: "(node option \<Rightarrow> 's \<Rightarrow> 's \<times> bool) \<Rightarrow> node \<Rightarrow> 's \<Rightarrow> 's" where
  "walk v n s =
     (case v (Some n) s of (s1, go) \<Rightarrow>
        if go then fst (v None (fold (walk v) (children n) s1)) else s1)"
  by pat_completeness auto
termination
  by (relation "measure (\<lambda>(v, n, s). node_size n)") (auto simp: children_size)

section \<open>Function literals of an expression\<close>

fun mapFuncLits :: "(funcType \<Rightarrow> blockStmt \<Rightarrow> 's \<Rightarrow> blockStmt \<times> 's) \<Rightarrow> expr \<Rightarrow> 's \<Rightarrow> expr \<times> 's"
and mapFuncLits_field :: "(funcType \<Rightarrow> blockStmt \<Rightarrow> 's \<Rightarrow> blockStmt \<times> 's) \<Rightarrow> field \<Rightarrow> 's \<Rightarrow> field \<times> 's"
where
  "mapFuncLits g BadExpr s = (BadExpr, s)"
| "mapFuncLits g (Name x) s = (Name x, s)"
| "mapFuncLits g (BasicLitE l) s = (BasicLitE l, s)"
| "mapFuncLits g (CompositeLit t es n) s =
     (case optS (mapFuncLits g) t s of (t', s1) \<Rightarrow>
      case mapS (mapFuncLits g) es s1 of (es', s2) \<Rightarrow> (CompositeLit t' es' n, s2))"
| "mapFuncLits g (KeyValueExpr k v) s =
     (case mapFuncLits g k s of (k', s1) \<Rightarrow>
      case mapFuncLits g v s1 of (v', s2) \<Rightarrow> (KeyValueExpr k' v', s2))"
| "mapFuncLits g (FuncLit t b) s = (case g t b s of (b', s1) \<Rightarrow> (FuncLit t b', s1))"
| "mapFuncLits g (ParenExpr x) s = (case mapFuncLits g x s of (x', s1) \<Rightarrow> (ParenExpr x', s1))"
| "mapFuncLits g (TryExpr x) s = (case mapFuncLits g x s of (x', s1) \<Rightarrow> (TryExpr x', s1))"
| "mapFuncLits g (SelectorExpr x sel) s =
     (case mapFuncLits g x s of (x', s1) \<Rightarrow> (SelectorExpr x' sel, s1))"
| "mapFuncLits g (IndexExpr x i) s =
     (case mapFuncLits g x s of (x', s1) \<Rightarrow>
      case mapFuncLits g i s1 of (i', s2) \<Rightarrow> (IndexExpr x' i', s2))"
| "mapFuncLits g (SliceExpr x i j k full) s =
     (case mapFuncLits g x s of (x', s1) \<Rightarrow>
      case optS (mapFuncLits g) i s1 of (i', s2) \<Rightarrow>
      case optS (mapFuncLits g) j s2 of (j', s3) \<Rightarrow>
      case optS (mapFuncLits g) k s3 of (k', s4) \<Rightarrow> (SliceExpr x' i' j' k' full, s4))"
| "mapFuncLits g (AssertExpr x t) s =
     (case mapFuncLits g x s of (x', s1) \<Rightarrow>
      case mapFuncLits g t s1 of (t', s2) \<Rightarrow> (AssertExpr x' t', s2))"
| "mapFuncLits g (TypeSwitchGuard l x) s =
     (case mapFuncLits g x s of (x', s1) \<Rightarrow> (TypeSwitchGuard l x', s1))"
| "mapFuncLits g (Operation op x y) s =
     (case mapFuncLits g x s of (x', s1) \<Rightarrow>
      case optS (mapFuncLits g) y s1 of (y', s2) \<Rightarrow> (Operation op x' y', s2))"
| "mapFuncLits g (CallExpr f args dots) s =
     (case mapFuncLits g f s of (f', s1) \<Rightarrow>
      case mapS (mapFuncLits g) args s1 of (args', s2) \<Rightarrow> (CallExpr f' args' dots, s2))"
| "mapFuncLits g (ListExpr es) s =
     (case mapS (mapFuncLits g) es s of (es', s1) \<Rightarrow> (ListExpr es', s1))"
| "mapFuncLits g (ArrayType l e) s =
     (case optS (mapFuncLits g) l s of (l', s1) \<Rightarrow>
      case mapFuncLits g e s1 of (e', s2) \<Rightarrow> (ArrayType l' e', s2))"
| "mapFuncLits g (SliceType e) s = (case mapFuncLits g e s of (e', s1) \<Rightarrow> (SliceType e', s1))"
| "mapFuncLits g (DotsType e) s = (case mapFuncLits g e s of (e', s1) \<Rightarrow> (DotsType e', s1))"
| "mapFuncLits g (StructType fs tags) s =
     (case mapS (mapFuncLits_field g) fs s of (fs', s1) \<Rightarrow> (StructType fs' tags, s1))"
| "mapFuncLits g (InterfaceType ms) s =
     (case mapS (mapFuncLits_field g) ms s of (ms', s1) \<Rightarrow> (InterfaceType ms', s1))"
| "mapFuncLits g (FuncTypeE (FuncType ps rs)) s =
     (case mapS (mapFuncLits_field g) ps s of (ps', s1) \<Rightarrow>
      case mapS (mapFuncLits_field g) rs s1 of (rs', s2) \<Rightarrow> (FuncTypeE (FuncType ps' rs'), s2))"
| "mapFuncLits g (MapType k v) s =
     (case mapFuncLits g k s of (k', s1) \<Rightarrow>
      case mapFuncLits g v s1 of (v', s2) \<Rightarrow> (MapType k' v', s2))"
| "mapFuncLits g (ChanType d e) s = (case mapFuncLits g e s of (e', s1) \<Rightarrow> (ChanType d e', s1))"
| "mapFuncLits_field g (Field n t) s = (case mapFuncLits g t s of (t', s1) \<Rightarrow> (Field n t', s1))"

fun funcLits :: "expr \<Rightarrow> (funcType \<times> blockStmt) list"
and funcLits_field :: "field \<Rightarrow> (funcType \<times> blockStmt) list"
where
  "funcLits (CompositeLit t es n) = concat (map funcLits (opt_list t)) @ concat (map funcLits es)"
| "funcLits (KeyValueExpr k v) = funcLits k @ funcLits v"
| "funcLits (FuncLit t b) = [(t, b)]"
| "funcLits (ParenExpr x) = funcLits x"
| "funcLits (TryExpr x) = funcLits x"
| "funcLits (SelectorExpr x sel) = funcLits x"
| "funcLits (IndexExpr x i) = funcLits x @ funcLits i"
| "funcLits (SliceExpr x i j k full) = funcLits x @ concat (map funcLits (opt_list i)) @
     concat (map funcLits (opt_list j)) @ concat (map funcLits (opt_list k))"
| "funcLits (AssertExpr x t) = funcLits x @ funcLits t"
| "funcLits (TypeSwitchGuard l x) = funcLits x"
| "funcLits (Operation op x y) = funcLits x @ concat (map funcLits (opt_list y))"
| "funcLits (CallExpr f args dots) = funcLits f @ concat (map funcLits args)"
| "funcLits (ListExpr es) = concat (map funcLits es)"
| "funcLits (ArrayType l e) = concat (map funcLits (opt_list l)) @ funcLits e"
| "funcLits (SliceType e) = funcLits e"
| "funcLits (DotsType e) = funcLits e"
| "funcLits (StructType fs tags) = concat (map funcLits_field fs)"
| "funcLits (InterfaceType ms) = concat (map funcLits_field ms)"
| "funcLits (FuncTypeE (FuncType ps rs)) = concat (map funcLits_field ps) @ concat (map funcLits_field rs)"
| "funcLits (MapType k v) = funcLits k @ funcLits v"
| "funcLits (ChanType d e) = funcLits e"
| "funcLits _ = []"
| "funcLits_field (Field n t) = funcLits t"

lemma funcLits_size:
  "(t, b) \<in> set (funcLits e) \<Longrightarrow> size b < size e"
  "(t, b) \<in> set (funcLits_field f) \<Longrightarrow> size b < size f"
  by (induction e and f rule: funcLits_funcLits_field.induct)
    (fastforce dest: child_sizes(1) split: option.splits)+

lemma mapFuncLits_cong_aux:
  assumes Q: "\<And>t b. Q (t, b) \<Longrightarrow> g t b = h t b"
  shows "list_all Q (funcLits e) \<Longrightarrow> mapFuncLits g e = mapFuncLits h e"
    and "list_all Q (funcLits_field f) \<Longrightarrow> mapFuncLits_field g f = mapFuncLits_field h f"
proof (induction e and f rule: funcLits_funcLits_field.induct)
qed (rule ext, simp add: Q list_all_concat_map list_all_concat_opt
      cong: mapS_fun_cong optS_fun_cong; fail)+

lemma mapFuncLits_cong [fundef_cong]:
  assumes "e = e'" and "s = s'"
    and "\<And>t b u. (t, b) \<in> set (funcLits e') \<Longrightarrow> g t b u = h t b u"
  shows "mapFuncLits g e s = mapFuncLits h e' s'"
proof -
  have "mapFuncLits g e' = mapFuncLits h e'"
    by (rule mapFuncLits_cong_aux(1) [where Q = "\<lambda>p. p \<in> set (funcLits e')"])
      (use assms(3) in \<open>auto simp: list_all_iff\<close>)
  then show ?thesis using assms(1,2) by simp
qed

definition liftLit :: "(funcType \<Rightarrow> blockStmt \<Rightarrow> 's \<Rightarrow> blockStmt \<times> 's) \<Rightarrow>
    funcType \<times> blockStmt \<Rightarrow> 's \<Rightarrow> (funcType \<times> blockStmt) \<times> 's" where
  "liftLit g p s = (case p of (t, b) \<Rightarrow> case g t b s of (b', s') \<Rightarrow> ((t, b'), s'))"

lemma mapFuncLits_mapS:
  "funcLits (fst (mapFuncLits g e s)) = fst (mapS (liftLit g) (funcLits e) s) \<and>
   snd (mapFuncLits g e s) = snd (mapS (liftLit g) (funcLits e) s)"
  "funcLits_field (fst (mapFuncLits_field g f s)) = fst (mapS (liftLit g) (funcLits_field f) s) \<and>
   snd (mapFuncLits_field g f s) = snd (mapS (liftLit g) (funcLits_field f) s)"
  by (induction e and f arbitrary: s and s rule: funcLits_funcLits_field.induct)
    (simp add: liftLit_def case_prod_fst_snd mapS_append
       mapS_concat [where k = funcLits and f = "mapFuncLits g" and h = "liftLit g"]
       mapS_concat [where k = funcLits_field and f = "mapFuncLits_field g" and h = "liftLit g"]
       optS_concat [where k = funcLits and f = "mapFuncLits g" and h = "liftLit g"]; fail)+

lemma mapFuncLits_Pair:
  "mapFuncLits (\<lambda>t b u. (b, u)) e s = (e, s)"
  "mapFuncLits_field (\<lambda>t b u. (b, u)) f s = (f, s)"
  by (induction e and f arbitrary: s and s rule: funcLits_funcLits_field.induct)
    (simp_all add: mapS_id optS_Some_id)

lemma mapFuncLits_id:
  assumes "\<And>t b u. (t, b) \<in> set (funcLits e) \<Longrightarrow> g t b u = (b, u)"
  shows "mapFuncLits g e s = (e, s)"
proof -
  have "mapFuncLits g e s = mapFuncLits (\<lambda>t b u. (b, u)) e s"
    by (rule mapFuncLits_cong) (use assms in auto)
  then show ?thesis by (simp add: mapFuncLits_Pair)
qed

section \<open>Searching a tree\<close>

function anyNode :: "(node \<Rightarrow> bool) \<Rightarrow> node \<Rightarrow> bool" where
  "anyNode P n \<longleftrightarrow> P n \<or> list_ex (anyNode P) (children n)"
  by pat_completeness auto
termination
  by (relation "measure (\<lambda>(P, n). node_size n)") (auto simp: children_size)

declare anyNode.simps [simp del] walk.simps [simp del]

lemma anyNode_leaf:
  "anyNode P (NExpr (Name x1)) \<longleftrightarrow> P (NExpr (Name x1))"
  "anyNode P (NExpr (BasicLitE l2)) \<longleftrightarrow> P (NExpr (BasicLitE l2))"
  by (simp_all add: anyNode.simps)

lemma anyNode_expr [simp]:
  "anyNode P (NExpr BadExpr) \<longleftrightarrow> P (NExpr BadExpr)"
  "anyNode P (NExpr (Name x4)) \<longleftrightarrow> P (NExpr (Name x4))"
  "anyNode P (NExpr (BasicLitE l5)) \<longleftrightarrow> P (NExpr (BasicLitE l5))"
  "anyNode P (NExpr (CompositeLit t6 es6 n6)) \<longleftrightarrow> P (NExpr (CompositeLit t6 es6 n6)) \<or> (\<exists>y. t6 = Some y \<and> anyNode P (NExpr y)) \<or> (\<exists>y \<in> set es6. anyNode P (NExpr y))"
  "anyNode P (NExpr (KeyValueExpr k7 v7)) \<longleftrightarrow> P (NExpr (KeyValueExpr k7 v7)) \<or> anyNode P (NExpr k7) \<or> anyNode P (NExpr v7)"
  "anyNode P (NExpr (FuncLit t8 b8)) \<longleftrightarrow> P (NExpr (FuncLit t8 b8)) \<or> anyNode P (NFuncType t8) \<or> anyNode P (NBlock b8)"
  "anyNode P (NExpr (ParenExpr x9)) \<longleftrightarrow> P (NExpr (ParenExpr x9)) \<or> anyNode P (NExpr x9)"
  "anyNode P (NExpr (TryExpr x10)) \<longleftrightarrow> P (NExpr (TryExpr x10)) \<or> anyNode P (NExpr x10)"
  "anyNode P (NExpr (SelectorExpr x11 sel11)) \<longleftrightarrow> P (NExpr (SelectorExpr x11 sel11)) \<or> anyNode P (NExpr x11) \<or> P (NExpr (Name sel11))"
  "anyNode P (NExpr (IndexExpr x12 i12)) \<longleftrightarrow> P (NExpr (IndexExpr x12 i12)) \<or> anyNode P (NExpr x12) \<or> anyNode P (NExpr i12)"
  "anyNode P (NExpr (SliceExpr x13 i13 j13 k13 full13)) \<longleftrightarrow> P (NExpr (SliceExpr x13 i13 j13 k13 full13)) \<or> anyNode P (NExpr x13) \<or> (\<exists>y. i13 = Some y \<and> anyNode P (NExpr y)) \<or> (\<exists>y. j13 = Some y \<and> anyNode P (NExpr y)) \<or> (\<exists>y. k13 = Some y \<and> anyNode P (NExpr y))"
  "anyNode P (NExpr (AssertExpr x14 t14)) \<longleftrightarrow> P (NExpr (AssertExpr x14 t14)) \<or> anyNode P (NExpr x14) \<or> anyNode P (NExpr t14)"
  "anyNode P (NExpr (TypeSwitchGuard l15 x15)) \<longleftrightarrow> P (NExpr (TypeSwitchGuard l15 x15)) \<or> (\<exists>y. l15 = Some y \<and> P (NExpr (Name y))) \<or> anyNode P (NExpr x15)"
  "anyNode P (NExpr (Operation op16 x16 y16)) \<longleftrightarrow> P (NExpr (Operation op16 x16 y16)) \<or> anyNode P (NExpr x16) \<or> (\<exists>z. y16 = Some z \<and> anyNode P (NExpr z))"
  "anyNode P (NExpr (CallExpr f17 args17 dots17)) \<longleftrightarrow> P (NExpr (CallExpr f17 args17 dots17)) \<or> anyNode P (NExpr f17) \<or> (\<exists>y \<in> set args17. anyNode P (NExpr y))"
  "anyNode P (NExpr (ListExpr es18)) \<longleftrightarrow> P (NExpr (ListExpr es18)) \<or> (\<exists>y \<in> set es18. anyNode P (NExpr y))"
  "anyNode P (NExpr (ArrayType l19 e19)) \<longleftrightarrow> P (NExpr (ArrayType l19 e19)) \<or> (\<exists>y. l19 = Some y \<and> anyNode P (NExpr y)) \<or> anyNode P (NExpr e19)"
  "anyNode P (NExpr (SliceType e20)) \<longleftrightarrow> P (NExpr (SliceType e20)) \<or> anyNode P (NExpr e20)"
  "anyNode P (NExpr (DotsType e21)) \<longleftrightarrow> P (NExpr (DotsType e21)) \<or> anyNode P (NExpr e21)"
  "anyNode P (NExpr (StructType fs22 tags22)) \<longleftrightarrow> P (NExpr (StructType fs22 tags22)) \<or> (\<exists>y \<in> set fs22. anyNode P (NField y)) \<or> (\<exists>y. Some y \<in> set tags22 \<and> P (NExpr (BasicLitE y)))"
  "anyNode P (NExpr (InterfaceType ms23)) \<longleftrightarrow> P (NExpr (InterfaceType ms23)) \<or> (\<exists>y \<in> set ms23. anyNode P (NField y))"
  "anyNode P (NExpr (FuncTypeE (FuncType ps24 rs24))) \<longleftrightarrow> P (NExpr (FuncTypeE (FuncType ps24 rs24))) \<or> (\<exists>y \<in> set ps24. anyNode P (NField y)) \<or> (\<exists>y \<in> set rs24. anyNode P (NField y))"
  "anyNode P (NExpr (MapType k25 v25)) \<longleftrightarrow> P (NExpr (MapType k25 v25)) \<or> anyNode P (NExpr k25) \<or> anyNode P (NExpr v25)"
  "anyNode P (NExpr (ChanType d26 e26)) \<longleftrightarrow> P (NExpr (ChanType d26 e26)) \<or> anyNode P (NExpr e26)"
  by (subst anyNode.simps, force simp: list_ex_iff anyNode_leaf set_concat_opt simp del: set_concat)+

lemma anyNode_stmt [simp]:
  "anyNode P (NStmt EmptyStmt) \<longleftrightarrow> P (NStmt EmptyStmt)"
  "anyNode P (NStmt (LabeledStmt a28 l28 s28)) \<longleftrightarrow> P (NStmt (LabeledStmt a28 l28 s28)) \<or> P (NExpr (Name l28)) \<or> anyNode P (NStmt s28)"
  "anyNode P (NStmt (BlockS (BlockStmt a29 ss29))) \<longleftrightarrow> P (NStmt (BlockS (BlockStmt a29 ss29))) \<or> (\<exists>y \<in> set ss29. anyNode P (NStmt y))"
  "anyNode P (NStmt (ExprStmt x30)) \<longleftrightarrow> P (NStmt (ExprStmt x30)) \<or> anyNode P (NExpr x30)"
  "anyNode P (NStmt (SendStmt c31 v31)) \<longleftrightarrow> P (NStmt (SendStmt c31 v31)) \<or> anyNode P (NExpr c31) \<or> anyNode P (NExpr v31)"
  "anyNode P (NStmt (DeclStmt ds32)) \<longleftrightarrow> P (NStmt (DeclStmt ds32)) \<or> (\<exists>y \<in> set ds32. anyNode P (NDecl y))"
  "anyNode P (NStmt (AssignStmt op33 l33 r33)) \<longleftrightarrow> P (NStmt (AssignStmt op33 l33 r33)) \<or> anyNode P (NExpr l33) \<or> (\<exists>y. r33 = Some y \<and> anyNode P (NExpr y))"
  "anyNode P (NStmt (BranchStmt tok34 l34 tgt34)) \<longleftrightarrow> P (NStmt (BranchStmt tok34 l34 tgt34)) \<or> (\<exists>y. l34 = Some y \<and> P (NExpr (Name y)))"
  "anyNode P (NStmt (CallStmt tok35 c35 d35)) \<longleftrightarrow> P (NStmt (CallStmt tok35 c35 d35)) \<or> anyNode P (NExpr c35)"
  "anyNode P (NStmt (ReturnStmt r36)) \<longleftrightarrow> P (NStmt (ReturnStmt r36)) \<or> (\<exists>y. r36 = Some y \<and> anyNode P (NExpr y))"
  "anyNode P (NStmt (ThrowStmt x37)) \<longleftrightarrow> P (NStmt (ThrowStmt x37)) \<or> anyNode P (NExpr x37)"
  "anyNode P (NStmt (WithStmt x38 v38 b38)) \<longleftrightarrow> P (NStmt (WithStmt x38 v38 b38)) \<or> P (NExpr (Name x38)) \<or> anyNode P (NExpr v38) \<or> anyNode P (NBlock b38)"
  "anyNode P (NStmt (PostfixIfStmt s39 c39)) \<longleftrightarrow> P (NStmt (PostfixIfStmt s39 c39)) \<or> anyNode P (NStmt s39) \<or> anyNode P (NExpr c39)"
  "anyNode P (NStmt (IfStmt i40 c40 t40 e40)) \<longleftrightarrow> P (NStmt (IfStmt i40 c40 t40 e40)) \<or> (\<exists>y. i40 = Some y \<and> anyNode P (NStmt y)) \<or> anyNode P (NExpr c40) \<or> anyNode P (NBlock t40) \<or> (\<exists>y. e40 = Some y \<and> anyNode P (NStmt y))"
  "anyNode P (NStmt (ForStmt a41 i41 c41 p41 b41)) \<longleftrightarrow> P (NStmt (ForStmt a41 i41 c41 p41 b41)) \<or> (\<exists>y. i41 = Some y \<and> anyNode P (NStmt y)) \<or> (\<exists>y. c41 = Some y \<and> anyNode P (NExpr y)) \<or> (\<exists>y. p41 = Some y \<and> anyNode P (NStmt y)) \<or> anyNode P (NBlock b41)"
  "anyNode P (NStmt (SwitchStmt a42 i42 t42 cs42)) \<longleftrightarrow> P (NStmt (SwitchStmt a42 i42 t42 cs42)) \<or> (\<exists>y. i42 = Some y \<and> anyNode P (NStmt y)) \<or> (\<exists>y. t42 = Some y \<and> anyNode P (NExpr y)) \<or> (\<exists>y \<in> set cs42. anyNode P (NCase y))"
  "anyNode P (NStmt (SelectStmt a43 cs43)) \<longleftrightarrow> P (NStmt (SelectStmt a43 cs43)) \<or> (\<exists>y \<in> set cs43. anyNode P (NComm y))"
  "anyNode P (NStmt (RangeClause l44 d44 x44)) \<longleftrightarrow> P (NStmt (RangeClause l44 d44 x44)) \<or> (\<exists>y. l44 = Some y \<and> anyNode P (NExpr y)) \<or> anyNode P (NExpr x44)"
  by (subst anyNode.simps, force simp: list_ex_iff anyNode_leaf)+

lemma anyNode_decl [simp]:
  "anyNode P (NDecl (ImportDecl l45 p45)) \<longleftrightarrow> P (NDecl (ImportDecl l45 p45)) \<or> (\<exists>y. l45 = Some y \<and> P (NExpr (Name y))) \<or> (\<exists>y. p45 = Some y \<and> P (NExpr (BasicLitE y)))"
  "anyNode P (NDecl (ConstDecl ns46 t46 v46)) \<longleftrightarrow> P (NDecl (ConstDecl ns46 t46 v46)) \<or> (\<exists>y \<in> set ns46. P (NExpr (Name y))) \<or> (\<exists>y. t46 = Some y \<and> anyNode P (NExpr y)) \<or> (\<exists>y. v46 = Some y \<and> anyNode P (NExpr y))"
  "anyNode P (NDecl (TypeDecl pr47 n47 tps47 al47 t47)) \<longleftrightarrow> P (NDecl (TypeDecl pr47 n47 tps47 al47 t47)) \<or> P (NExpr (Name n47)) \<or> (\<exists>y \<in> set tps47. anyNode P (NField y)) \<or> anyNode P (NExpr t47)"
  "anyNode P (NDecl (VarDecl ns48 t48 v48)) \<longleftrightarrow> P (NDecl (VarDecl ns48 t48 v48)) \<or> (\<exists>y \<in> set ns48. P (NExpr (Name y))) \<or> (\<exists>y. t48 = Some y \<and> anyNode P (NExpr y)) \<or> (\<exists>y. v48 = Some y \<and> anyNode P (NExpr y))"
  "anyNode P (NDecl (FuncDecl pr49 r49 n49 tps49 t49 b49)) \<longleftrightarrow> P (NDecl (FuncDecl pr49 r49 n49 tps49 t49 b49)) \<or> (\<exists>y. r49 = Some y \<and> anyNode P (NField y)) \<or> P (NExpr (Name n49)) \<or> (\<exists>y \<in> set tps49. anyNode P (NField y)) \<or> anyNode P (NFuncType t49) \<or> (\<exists>y. b49 = Some y \<and> anyNode P (NBlock y))"
  by (subst anyNode.simps, force simp: list_ex_iff anyNode_leaf)+

lemma anyNode_helper [simp]:
  "anyNode P (NField (Field n50 t50)) \<longleftrightarrow> P (NField (Field n50 t50)) \<or> (\<exists>y. n50 = Some y \<and> P (NExpr (Name y))) \<or> anyNode P (NExpr t50)"
  "anyNode P (NFuncType (FuncType ps51 rs51)) \<longleftrightarrow> P (NFuncType (FuncType ps51 rs51)) \<or> (\<exists>y \<in> set ps51. anyNode P (NField y)) \<or> (\<exists>y \<in> set rs51. anyNode P (NField y))"
  "anyNode P (NCase (CaseClause c52 ss52)) \<longleftrightarrow> P (NCase (CaseClause c52 ss52)) \<or> (\<exists>y. c52 = Some y \<and> anyNode P (NExpr y)) \<or> (\<exists>y \<in> set ss52. anyNode P (NStmt y))"
  "anyNode P (NComm (CommClause c53 ss53)) \<longleftrightarrow> P (NComm (CommClause c53 ss53)) \<or> (\<exists>y. c53 = Some y \<and> anyNode P (NStmt y)) \<or> (\<exists>y \<in> set ss53. anyNode P (NStmt y))"
  "anyNode P (NBlock (BlockStmt a54 ss54)) \<longleftrightarrow> P (NBlock (BlockStmt a54 ss54)) \<or> (\<exists>y \<in> set ss54. anyNode P (NStmt y))"
  by (subst anyNode.simps, force simp: list_ex_iff anyNode_leaf)+

text \<open>
  \<^verbatim>\<open>syntax.Inspect\<close> with the visitor that stops at the first node satisfying \<open>P\<close>, the way
  \<^verbatim>\<open>containsTry\<close> uses it.
\<close>

fun findV :: "(node \<Rightarrow> bool) \<Rightarrow> node option \<Rightarrow> bool \<Rightarrow> bool \<times> bool" where
  "findV P None found = (found, True)"
| "findV P (Some n) found = (if P n then (True, False) else (found, True))"

lemma walk_findV: "walk (findV P) n s = (s \<or> anyNode P n)"
proof (induction n arbitrary: s taking: node_size rule: measure_induct_rule)
  case (less n)
  have "fold (walk (findV P)) (children n) u = (u \<or> list_ex (anyNode P) (children n))" for u
    by (rule fold_or) (simp add: less children_size)
  then show ?case
    by (simp add: walk.simps [of "findV P" n] anyNode.simps [of P n])
qed

text \<open>A property of statements only is found in an expression through its function literals.\<close>

definition stmtOnly :: "(node \<Rightarrow> bool) \<Rightarrow> bool" where
  "stmtOnly P \<longleftrightarrow> (\<forall>e. \<not> P (NExpr e)) \<and> (\<forall>f. \<not> P (NField f)) \<and> (\<forall>t. \<not> P (NFuncType t))"

lemma anyNode_funcLits:
  assumes "stmtOnly P"
  shows "anyNode P (NExpr e) \<longleftrightarrow>
           (\<exists>(t, b) \<in> set (funcLits e). anyNode P (NFuncType t) \<or> anyNode P (NBlock b))"
    and "anyNode P (NField f) \<longleftrightarrow>
           (\<exists>(t, b) \<in> set (funcLits_field f). anyNode P (NFuncType t) \<or> anyNode P (NBlock b))"
proof (induction e and f rule: funcLits_funcLits_field.induct)
qed (use assms in \<open>fastforce simp: stmtOnly_def\<close>)+

text \<open>The function literals are those the pruning traversal meets, in the order it meets them.\<close>

fun collectV :: "node option \<Rightarrow> (funcType \<times> blockStmt) list \<Rightarrow> (funcType \<times> blockStmt) list \<times> bool" where
  "collectV (Some (NExpr (FuncLit t b))) acc = (acc @ [(t, b)], False)"
| "collectV n acc = (acc, True)"

lemma walk_Name: "walk collectV (nName x) acc = acc"
  by (simp add: walk.simps)

lemma walk_Lit: "walk collectV (NExpr (BasicLitE x)) acc = acc"
  by (simp add: walk.simps)

lemma walk_Names: "fold (walk collectV) (map (\<lambda>x. nName x) xs) acc = acc"
  by (induction xs) (auto simp: walk_Name)

lemma walk_Lits: "fold (walk collectV) (map (\<lambda>x. NExpr (BasicLitE x)) xs) acc = acc"
  by (induction xs) (auto simp: walk_Lit)

lemma walk_collectV:
  "walk collectV (NExpr e) acc = acc @ funcLits e"
  "walk collectV (NField f) acc = acc @ funcLits_field f"
proof (induction e and f arbitrary: acc and acc rule: funcLits_funcLits_field.induct)
qed (subst walk.simps,
    simp add: fold_append [where k = funcLits] fold_append [where k = funcLits_field]
      fold_append_opt [where k = funcLits] walk_Name walk_Lit walk_Names walk_Lits; fail)+

lemma anyNode_BlockS [simp]:
  "\<not> P (NBlock b) \<Longrightarrow> \<not> P (NStmt (BlockS b)) \<Longrightarrow>
   anyNode P (NStmt (BlockS b)) \<longleftrightarrow> anyNode P (NBlock b)"
  by (cases b) simp

lemma funcLits_anyNode:
  "(t, b) \<in> set (funcLits e) \<Longrightarrow> anyNode P (NExpr (FuncLit t b)) \<Longrightarrow> anyNode P (NExpr e)"
  "(t, b) \<in> set (funcLits_field f) \<Longrightarrow> anyNode P (NExpr (FuncLit t b)) \<Longrightarrow> anyNode P (NField f)"
proof (induction e and f rule: funcLits_funcLits_field.induct)
qed (auto; fail)+

lemma liftLit_pure: "liftLit (\<lambda>t b s. (h t b, s)) = (\<lambda>p s. ((fst p, h (fst p) (snd p)), s))"
  by (auto simp: liftLit_def fun_eq_iff split: prod.splits)

lemma funcLits_pure:
  "funcLits (fst (mapFuncLits (\<lambda>t b s. (h t b, s)) e s)) = map (\<lambda>(t, b). (t, h t b)) (funcLits e)"
  by (simp add: mapFuncLits_mapS liftLit_pure mapS_pure split_def)

lemma funcLits_mapFuncLits:
  assumes "(t, b') \<in> set (funcLits (fst (mapFuncLits g e s)))"
  shows "\<exists>b u. (t, b) \<in> set (funcLits e) \<and> b' = fst (g t b u)"
proof -
  obtain p u where p: "p \<in> set (funcLits e)" "(t, b') = fst (liftLit g p u)"
    using assms mapS_set by (fastforce simp: mapFuncLits_mapS)
  obtain t0 b0 where "p = (t0, b0)" by (cases p)
  then have "t = t0 \<and> b' = fst (g t0 b0 u)" using p by (simp add: liftLit_def case_prod_beta)
  then show ?thesis using p \<open>p = (t0, b0)\<close> by blast
qed

lemma mapFuncLits_inv:
  assumes "\<And>t b u. (t, b) \<in> set (funcLits e) \<Longrightarrow> I u \<Longrightarrow> I (snd (g t b u))" and "I s"
  shows "I (snd (mapFuncLits g e s))"
proof -
  have "I (snd (mapS (liftLit g) (funcLits e) s))"
    using assms by (intro mapS_inv [where I = I]) (auto simp: liftLit_def case_prod_beta)
  then show ?thesis by (simp add: mapFuncLits_mapS)
qed

section \<open>Induction over the statements a pass visits\<close>

text \<open>
  The passes recurse through blocks, statements, clauses and declarations, and enter an
  expression only for its function literals. \<open>pass_induct\<close> is induction over exactly that:
  a statement may use the claim for its children \<open>kids\<close>, an expression for the bodies of its
  function literals.
\<close>

fun kids :: "stmt \<Rightarrow> node list" where
  "kids (BlockS b) = [NBlock b]"
| "kids s = children_stmt s"

lemma kids_size: "c \<in> set (kids s) \<Longrightarrow> node_size c < 1 + 2 * size s"
proof (cases "\<exists>b. s = BlockS b")
  case False
  then have "kids s = children_stmt s" by (cases s) auto
  then show "c \<in> set (kids s) \<Longrightarrow> node_size c < 1 + 2 * size s"
    using children_stmt_size by simp
qed auto

lemma pass_induct [case_names Expr Stmt Case Comm Block Decl]:
  fixes U :: "expr \<Rightarrow> bool" and Q :: "stmt \<Rightarrow> bool" and R :: "caseClause \<Rightarrow> bool"
    and S :: "commClause \<Rightarrow> bool" and P :: "blockStmt \<Rightarrow> bool" and D :: "decl \<Rightarrow> bool"
  defines "N \<equiv> case_node U (\<lambda>_. True) (\<lambda>_. True) Q R S P D"
  assumes expr: "\<And>e. (\<And>t b. (t, b) \<in> set (funcLits e) \<Longrightarrow> P b) \<Longrightarrow> U e"
    and stmt: "\<And>s. (\<forall>c \<in> set (kids s). case_node U (\<lambda>_. True) (\<lambda>_. True) Q R S P D c) \<Longrightarrow> Q s"
    and case_clause: "\<And>c ss. (\<forall>e. c = Some e \<longrightarrow> U e) \<Longrightarrow> (\<forall>s \<in> set ss. Q s) \<Longrightarrow> R (CaseClause c ss)"
    and comm_clause: "\<And>c ss. (\<forall>s. c = Some s \<longrightarrow> Q s) \<Longrightarrow> (\<forall>s \<in> set ss. Q s) \<Longrightarrow> S (CommClause c ss)"
    and block: "\<And>a ss. (\<forall>s \<in> set ss. Q s) \<Longrightarrow> P (BlockStmt a ss)"
    and decl: "\<And>d. (\<forall>c \<in> set (children_decl d). case_node U (\<lambda>_. True) (\<lambda>_. True) Q R S P D c) \<Longrightarrow> D d"
  shows "U e" and "Q s" and "R cc" and "S mc" and "P b" and "D d"
proof -
  have "N n" for n
  proof (induction n taking: node_size rule: measure_induct_rule)
    case (less n)
    show ?case
    proof (cases n)
      case (NExpr e)
      have "P b" if lit: "(t, b) \<in> set (funcLits e)" for t b
      proof -
        have "node_size (NBlock b) < node_size n"
          using funcLits_size(1)[OF lit] lit NExpr by (cases e) auto
        then show ?thesis using less[of "NBlock b"] by (simp add: N_def)
      qed
      then show ?thesis using expr NExpr by (simp add: N_def)
    next
      case (NStmt s)
      have "\<forall>c \<in> set (kids s). N c" using less kids_size NStmt by simp
      then show ?thesis using stmt NStmt by (simp add: N_def)
    next
      case (NCase cc)
      have "\<forall>c \<in> set (children n). N c" using less children_size by blast
      then show ?thesis using NCase case_clause by (cases cc) (auto simp: N_def ball_Un)
    next
      case (NComm cc)
      have "\<forall>c \<in> set (children n). N c" using less children_size by blast
      then show ?thesis using NComm comm_clause by (cases cc) (auto simp: N_def ball_Un)
    next
      case (NBlock b)
      have "\<forall>c \<in> set (children n). N c" using less children_size by blast
      then show ?thesis using NBlock block by (cases b) (auto simp: N_def ball_Un)
    next
      case (NDecl d)
      have "\<forall>c \<in> set (children n). N c" using less children_size by blast
      then show ?thesis using NDecl decl by (auto simp: N_def ball_Un)
    qed (simp_all add: N_def)
  qed
  then have "N (NExpr e)" "N (NStmt s)" "N (NCase cc)" "N (NComm mc)" "N (NBlock b)" "N (NDecl d)"
    by blast+
  then show "U e" and "Q s" and "R cc" and "S mc" and "P b" and "D d" by (simp_all add: N_def)
qed

lemma tree_size_induct [case_names Expr Stmt Block Decl]:
  fixes e :: expr and s :: stmt and b :: blockStmt and d :: decl
  assumes expr: "\<And>e. (\<And>x. size x < size e \<Longrightarrow> U x) \<Longrightarrow> (\<And>b. size b < size e \<Longrightarrow> P b) \<Longrightarrow> U e"
    and stmt: "\<And>s. (\<And>x. size x < size s \<Longrightarrow> U x) \<Longrightarrow> (\<And>t. size t < size s \<Longrightarrow> Q t) \<Longrightarrow>
        (\<And>b. size b < size s \<Longrightarrow> P b) \<Longrightarrow> (\<And>d. size d < size s \<Longrightarrow> D d) \<Longrightarrow> Q s"
    and block: "\<And>b. (\<And>t. size t < size b \<Longrightarrow> Q t) \<Longrightarrow> P b"
    and decl: "\<And>d. (\<And>x. size x < size d \<Longrightarrow> U x) \<Longrightarrow> D d"
  shows "U e" and "Q s" and "P b" and "D d"
proof -
  have "(\<forall>e::expr. size e < n \<longrightarrow> U e) \<and> (\<forall>s::stmt. size s < n \<longrightarrow> Q s) \<and>
    (\<forall>b::blockStmt. size b < n \<longrightarrow> P b) \<and> (\<forall>d::decl. size d < n \<longrightarrow> D d)" for n
  proof (induction n)
    case (Suc n)
    then have IH: "\<And>e::expr. size e < n \<Longrightarrow> U e" "\<And>s::stmt. size s < n \<Longrightarrow> Q s"
      "\<And>b::blockStmt. size b < n \<Longrightarrow> P b" "\<And>d::decl. size d < n \<Longrightarrow> D d"
      by auto
    have step: "m < n" if "m < k" "k < Suc n" for m k
      using that by simp
    show ?case
      by (intro conjI allI impI) (auto intro: expr [OF IH(1,3)] stmt [OF IH] block [OF IH(2)] decl [OF IH(1)] step)
  qed simp
  then show "U e" and "Q s" and "P b" and "D d" by blast+
qed


section \<open>Parts of a tree a pass does not look at\<close>

text \<open>
  A pass is described by \<open>u\<close>, the children it skips at each node. \<open>hides u P n\<close>: below \<open>n\<close>,
  some skipped part contains a node satisfying \<open>P\<close>.
\<close>

definition hides :: "(node \<Rightarrow> node list) \<Rightarrow> (node \<Rightarrow> bool) \<Rightarrow> node \<Rightarrow> bool" where
  "hides u P = anyNode (\<lambda>n. list_ex (anyNode P) (u n))"

lemma hides_rec: "hides u P n \<longleftrightarrow> list_ex (anyNode P) (u n) \<or> list_ex (hides u P) (children n)"
  unfolding hides_def by (subst anyNode.simps) simp

lemma hides_funcLit:
  assumes "\<not> hides u P (NExpr e)" and "(t, b) \<in> set (funcLits e)"
  shows "\<not> hides u P (NBlock b)" and "\<not> list_ex (anyNode P) (u (NExpr (FuncLit t b)))"
  using funcLits_anyNode(1) [OF assms(2), of "\<lambda>n. list_ex (anyNode P) (u n)"] assms(1)
  by (auto simp: hides_def)

lemma anyNode_mono: "(\<And>n. P n \<Longrightarrow> Q n) \<Longrightarrow> anyNode P n \<Longrightarrow> anyNode Q n"
proof (induction n taking: node_size rule: measure_induct_rule)
  case (less n)
  from less.prems(2) have "P n \<or> (\<exists>c \<in> set (children n). anyNode P c)"
    by (simp add: anyNode.simps [of P n] list_ex_iff)
  then show ?case
  proof
    assume "P n"
    then show ?thesis using less.prems(1) by (simp add: anyNode.simps [of Q n])
  next
    assume "\<exists>c \<in> set (children n). anyNode P c"
    then obtain c where "c \<in> set (children n)" "anyNode P c" by blast
    then have "anyNode Q c" using less children_size by blast
    then show ?thesis using \<open>c \<in> set (children n)\<close>
      by (auto simp: anyNode.simps [of Q n] list_ex_iff)
  qed
qed

section \<open>The function bodies of a package\<close>

text \<open>A pass gets the list of files (\<^verbatim>\<open>noders\<close>; a file that failed to parse is nil).\<close>

fun declBody :: "decl \<Rightarrow> blockStmt list" where
  "declBody (FuncDecl pr r n tps t b) = opt_list b"
| "declBody d = []"

definition funcBodies :: "decl list option list \<Rightarrow> blockStmt list" where
  "funcBodies noders = concat (map (\<lambda>ds. concat (map declBody ds)) (concat (map opt_list noders)))"

lemma in_funcBodies:
  "b \<in> set (funcBodies noders) \<longleftrightarrow> (\<exists>ds d. Some ds \<in> set noders \<and> d \<in> set ds \<and> b \<in> set (declBody d))"
  by (auto simp: funcBodies_def elem_set)

end
