(* ===== verification/PostfixIf.thy ===== *)
theory PostfixIf
  imports Walk
begin

text \<open>
  The postfix-if pass, \<^verbatim>\<open>src/src/cmd/compile/internal/noder/forgo_postfixif.go\<close>: it turns
  \<open>STMT if COND\<close> into \<open>if COND { STMT }\<close> in every function body.

  The source rewrites in place and recurses into the function literals of an expression
  with \<^verbatim>\<open>syntax.Inspect\<close>; the model returns the new tree and uses \<open>mapFuncLits\<close>.
  The blocks it builds get address 0: no pass compares them. A statement in an init, post
  or comm slot goes through \<open>postfixIfStmt\<close> and a type assertion to \<^verbatim>\<open>SimpleStmt\<close>, which
  \<open>postfixIf_keeps_simple\<close> shows never to fail.

  \<open>skippedPF\<close> lists the children the pass does not enter: the operand of \<open>go\<close> and \<open>defer\<close>,
  of \<open>throw\<close>, the left side of a range clause, and types. Below those a postfix-if survives
  (\<open>postfixIf_misses_defer\<close>); everywhere else none does (\<open>postfixIf_complete\<close>).
\<close>

section \<open>The pass\<close>

function (sequential) postfixIfBlock :: "blockStmt \<Rightarrow> blockStmt"
and postfixIfStmt :: "stmt \<Rightarrow> stmt"
and postfixIfCase :: "caseClause \<Rightarrow> caseClause"
and postfixIfComm :: "commClause \<Rightarrow> commClause"
and postfixIfDecl :: "decl \<Rightarrow> decl"
and postfixIfExprFuncLits :: "expr \<Rightarrow> expr"
where
  "postfixIfBlock (BlockStmt a ss) = BlockStmt a (map postfixIfStmt ss)"
| "postfixIfStmt (PostfixIfStmt s c) =
     IfStmt None (postfixIfExprFuncLits c) (BlockStmt 0 [postfixIfStmt s]) None"
| "postfixIfStmt (BlockS b) = BlockS (postfixIfBlock b)"
| "postfixIfStmt (WithStmt x v b) = WithStmt x (postfixIfExprFuncLits v) (postfixIfBlock b)"
| "postfixIfStmt (IfStmt i c t e) =
     IfStmt (map_option postfixIfStmt i) (postfixIfExprFuncLits c) (postfixIfBlock t)
       (map_option (\<lambda>s. case s of
            BlockS b \<Rightarrow> BlockS (postfixIfBlock b)
          | IfStmt i' c' t' e' \<Rightarrow> postfixIfStmt s
          | _ \<Rightarrow> s) e)"
| "postfixIfStmt (ForStmt a i c p b) =
     ForStmt a (map_option postfixIfStmt i) (map_option postfixIfExprFuncLits c)
       (map_option postfixIfStmt p) (postfixIfBlock b)"
| "postfixIfStmt (SwitchStmt a i t cs) =
     SwitchStmt a (map_option postfixIfStmt i) (map_option postfixIfExprFuncLits t)
       (map postfixIfCase cs)"
| "postfixIfStmt (SelectStmt a cs) = SelectStmt a (map postfixIfComm cs)"
| "postfixIfStmt (LabeledStmt a l s) = LabeledStmt a l (postfixIfStmt s)"
| "postfixIfStmt (RangeClause l d x) = RangeClause l d (postfixIfExprFuncLits x)"
| "postfixIfStmt (ExprStmt x) = ExprStmt (postfixIfExprFuncLits x)"
| "postfixIfStmt (AssignStmt op l r) =
     AssignStmt op (postfixIfExprFuncLits l) (map_option postfixIfExprFuncLits r)"
| "postfixIfStmt (SendStmt c v) = SendStmt (postfixIfExprFuncLits c) (postfixIfExprFuncLits v)"
| "postfixIfStmt (ReturnStmt r) = ReturnStmt (map_option postfixIfExprFuncLits r)"
| "postfixIfStmt (DeclStmt ds) = DeclStmt (map postfixIfDecl ds)"
| "postfixIfStmt s = s"
| "postfixIfCase (CaseClause c ss) =
     CaseClause (map_option postfixIfExprFuncLits c) (map postfixIfStmt ss)"
| "postfixIfComm (CommClause c ss) = CommClause (map_option postfixIfStmt c) (map postfixIfStmt ss)"
| "postfixIfDecl (VarDecl ns t v) = VarDecl ns t (map_option postfixIfExprFuncLits v)"
| "postfixIfDecl (ConstDecl ns t v) = ConstDecl ns t (map_option postfixIfExprFuncLits v)"
| "postfixIfDecl d = d"
| "postfixIfExprFuncLits e = fst (mapFuncLits (\<lambda>t b s. (postfixIfBlock b, s)) e ())"
  by pat_completeness auto
termination
  by (relation "measure (case_sum (case_sum size (case_sum size size))
        (case_sum size (case_sum size size)))")
    (auto dest: funcLits_size child_sizes(1))


fun postfixIfFuncDecl :: "decl \<Rightarrow> decl" where
  "postfixIfFuncDecl (FuncDecl pr r n tps t (Some b)) =
     FuncDecl pr r n tps t (Some (postfixIfBlock b))"
| "postfixIfFuncDecl d = d"

definition forgoLowerPostfixIf :: "decl list option list \<Rightarrow> decl list option list" where
  "forgoLowerPostfixIf noders = map (map_option (map postfixIfFuncDecl)) noders"

section \<open>What it leaves\<close>

fun isPostfixIf :: "node \<Rightarrow> bool" where
  "isPostfixIf (NStmt (PostfixIfStmt _ _)) = True"
| "isPostfixIf _ = False"

fun skippedPF :: "node \<Rightarrow> node list" where
  "skippedPF (NExpr (FuncLit t _)) = [NFuncType t]"
| "skippedPF (NStmt (CallStmt _ c _)) = [NExpr c]"
| "skippedPF (NStmt (ThrowStmt x)) = [NExpr x]"
| "skippedPF (NStmt (RangeClause l _ _)) = map NExpr (opt_list l)"
| "skippedPF (NStmt (IfStmt _ _ _ (Some e))) =
     (case e of BlockS _ \<Rightarrow> [] | IfStmt _ _ _ _ \<Rightarrow> [] | _ \<Rightarrow> [NStmt e])"
| "skippedPF (NDecl (VarDecl _ t _)) = map NExpr (opt_list t)"
| "skippedPF (NDecl (ConstDecl _ t _)) = map NExpr (opt_list t)"
| "skippedPF (NDecl (TypeDecl _ _ ps _ t)) = map NField ps @ [NExpr t]"
| "skippedPF (NDecl (FuncDecl pr r n ps t b)) = [NDecl (FuncDecl pr r n ps t b)]"
| "skippedPF _ = []"

abbreviation hidesPF :: "node \<Rightarrow> bool" where
  "hidesPF \<equiv> hides skippedPF isPostfixIf"

lemma stmtOnly_isPostfixIf: "stmtOnly isPostfixIf"
  by (simp add: stmtOnly_def)

lemma postfixIf_lowered:
  "\<not> hidesPF (NBlock b) \<Longrightarrow> \<not> anyNode isPostfixIf (NBlock (postfixIfBlock b))"
  "\<not> hidesPF (NStmt s) \<Longrightarrow> \<not> anyNode isPostfixIf (NStmt (postfixIfStmt s))"
  "\<not> hidesPF (NCase cc) \<Longrightarrow> \<not> anyNode isPostfixIf (NCase (postfixIfCase cc))"
  "\<not> hidesPF (NComm mc) \<Longrightarrow> \<not> anyNode isPostfixIf (NComm (postfixIfComm mc))"
  "\<not> hidesPF (NDecl d) \<Longrightarrow> \<not> anyNode isPostfixIf (NDecl (postfixIfDecl d))"
  "\<not> hidesPF (NExpr e) \<Longrightarrow> \<not> anyNode isPostfixIf (NExpr (postfixIfExprFuncLits e))"
proof (induction b and s and cc and mc and d and e rule:
    postfixIfBlock_postfixIfStmt_postfixIfCase_postfixIfComm_postfixIfDecl_postfixIfExprFuncLits.induct)
  case (5 i c t e)
  have e: "\<not> anyNode isPostfixIf (NStmt (case s of BlockS b \<Rightarrow> BlockS (postfixIfBlock b)
      | IfStmt i' c' t' e' \<Rightarrow> postfixIfStmt s | _ \<Rightarrow> s))" if "e = Some s" for s
    using 5 that by (cases s) (auto simp: hides_def)
  show ?case using 5 e by (auto simp: hides_def)
next
  case (22 e)
  then show ?case
    using hides_funcLit [OF 22(2)]
    by (force simp: anyNode_funcLits [OF stmtOnly_isPostfixIf] funcLits_pure)
qed (auto simp: hides_def list_ex_iff split: option.splits)

lemma postfixIf_same:
  "\<not> anyNode isPostfixIf (NBlock b) \<Longrightarrow> postfixIfBlock b = b"
  "\<not> anyNode isPostfixIf (NStmt s) \<Longrightarrow> postfixIfStmt s = s"
  "\<not> anyNode isPostfixIf (NCase cc) \<Longrightarrow> postfixIfCase cc = cc"
  "\<not> anyNode isPostfixIf (NComm mc) \<Longrightarrow> postfixIfComm mc = mc"
  "\<not> anyNode isPostfixIf (NDecl d) \<Longrightarrow> postfixIfDecl d = d"
  "\<not> anyNode isPostfixIf (NExpr e) \<Longrightarrow> postfixIfExprFuncLits e = e"
proof (induction b and s and cc and mc and d and e rule:
    postfixIfBlock_postfixIfStmt_postfixIfCase_postfixIfComm_postfixIfDecl_postfixIfExprFuncLits.induct)
  case (22 e)
  then have "mapFuncLits (\<lambda>t b s. (postfixIfBlock b, s)) e () = (e, ())"
    by (intro mapFuncLits_id) (force simp: anyNode_funcLits [OF stmtOnly_isPostfixIf])
  then show ?case by simp
qed (auto simp: map_idI intro!: option.map_ident_strong split: stmt.splits)

lemma postfixIf_keeps_simple [fgo_simple]: "isSimpleStmt s \<Longrightarrow> isSimpleStmt (postfixIfStmt s)"
  by (cases s) auto

interpretation pif: lowering_pass "(=)" "\<lambda>b s. (postfixIfBlock b, s)"
  "\<lambda>b. anyNode isPostfixIf (NBlock b)" "\<lambda>b. \<not> hidesPF (NBlock b)"
  by unfold_locales (auto simp: postfixIf_lowered postfixIf_same)

lemma postfixIfFuncDecl_body: "declBody (postfixIfFuncDecl d) = map postfixIfBlock (declBody d)"
  by (cases d rule: postfixIfFuncDecl.cases) auto

lemma postfixIf_bodies: "funcBodies (forgoLowerPostfixIf noders) = map postfixIfBlock (funcBodies noders)"
  by (induction noders)
    (auto simp: funcBodies_def forgoLowerPostfixIf_def map_concat comp_def postfixIfFuncDecl_body
      opt_list_map)

section \<open>Properties\<close>

text \<open>
  C27: after the postfix-if pass no function body of the package has a postfix-if statement,
  provided none stands in a part the pass skips.
\<close>

theorem postfixIf_complete:
  assumes "list_all (\<lambda>b. \<not> hidesPF (NBlock b)) (funcBodies noders)"
  shows "list_all (\<lambda>b. \<not> anyNode isPostfixIf (NBlock b)) (funcBodies (forgoLowerPostfixIf noders))"
  using pif.lowers assms by (auto simp: postfixIf_bodies list_all_iff)

theorem postfixIf_complete_witness:
  "list_all (\<lambda>b. \<not> anyNode isPostfixIf (NBlock b)) (funcBodies (forgoLowerPostfixIf
     [None, Some [FuncDecl no_pragmas None ''f'' [] (FuncType [] []) (Some (BlockStmt 1
      [ForStmt 2 None None None (BlockStmt 3
         [PostfixIfStmt (BranchStmt Continue None (Some 2)) (Name ''skip'')]),
       ExprStmt (CallExpr (FuncLit (FuncType [] []) (BlockStmt 4
         [PostfixIfStmt (ReturnStmt None) (Name ''done'')])) [] False)]))]]))"
  by (rule postfixIf_complete) (simp add: hides_def funcBodies_def)

text \<open>
  The pass changes nothing in a function body that has no postfix-if statement: plain
  Go code is compiled as it was written.
\<close>

theorem postfixIf_identity:
  assumes "\<not> anyNode isPostfixIf (NBlock b)"
  shows "postfixIfBlock b = b"
  using pif.same [OF assms] by simp

theorem postfixIf_identity_witness:
  "postfixIfBlock (BlockStmt 1 [IfStmt None (Name ''c'') (BlockStmt 2 [ReturnStmt None]) None])
     = BlockStmt 1 [IfStmt None (Name ''c'') (BlockStmt 2 [ReturnStmt None]) None]"
  by (rule postfixIf_identity) simp

text \<open>
  The pass does not enter the operand of a \<open>go\<close> or \<open>defer\<close> statement, so a postfix-if in
  the deferred function literal is still there when the package reaches the type checker.
\<close>

theorem postfixIf_misses_defer:
  "let lit = FuncLit (FuncType [] []) (BlockStmt 1
         [PostfixIfStmt (ExprStmt (CallExpr (Name ''log'') [] False)) (Name ''failed'')]);
       out = postfixIfBlock (BlockStmt 2 [CallStmt tok (CallExpr lit [] False) d])
   in anyNode isPostfixIf (NBlock out)"
  by simp

end
