(* ===== verification/Throw.thy ===== *)
theory Throw
  imports Walk "HOL-Library.Sublist"
begin

text \<open>
  The throw pass, \<^verbatim>\<open>src/src/cmd/compile/internal/noder/forgo_throw.go\<close>: it turns
  \<open>throw EXPR\<close> into a \<open>return\<close> that fills every result but the last with its zero value.

  \<open>throwLowerer\<close> is the source's \<^verbatim>\<open>forgoThrowLowerer\<close>: the file, whose blank import of
  \<open>errors\<close> is promoted on the way, and the diagnostics reported so far. \<open>throwSlot\<close> is what
  the source does to a simple statement in an init, post or comm slot
  (\<^verbatim>\<open>simpleStmtExpr\<close> of \<^verbatim>\<open>forgo_try.go\<close>, then \<^verbatim>\<open>scanExprsForFuncLits\<close>); \<open>throwElse\<close> is the
  type switch on the else branch. \<^verbatim>\<open>syntax.String\<close> of an unnamed result in a diagnostic is
  kept as the type itself (\<open>ResultType\<close>).

  \<open>skippedTh\<close> lists the children the pass does not enter. The pass fulfils the contract
  \<open>lowering_pass\<close> (interpretation \<open>thr\<close>); the state order \<open>throwBelow\<close> says that diagnostics
  are only appended and that the file changes by promotions only.
\<close>

section \<open>Contexts, diagnostics and state\<close>

record forgoThrowCtx =
  results :: "field list"
  ok :: bool

datatype resultDesc = ResultName string | ResultType expr

datatype throwError = ThrowNeedsErrorResult | NoDefaultValue resultDesc | ThrowNeedsErrorsImport

record throwLowerer =
  tFile :: "decl list"
  tErrs :: "throwError list"

definition throwErrorf :: "throwError \<Rightarrow> throwLowerer \<Rightarrow> throwLowerer" where
  "throwErrorf e st = st\<lparr>tErrs := tErrs st @ [e]\<rparr>"

fun fieldType :: "field \<Rightarrow> expr" where
  "fieldType (Field n t) = t"

definition forgoThrowCtxOf :: "funcType \<Rightarrow> forgoThrowCtx" where
  "forgoThrowCtxOf t = (case t of FuncType ps rs \<Rightarrow>
     if rs = [] then \<lparr>results = [], ok = False\<rparr>
     else \<lparr>results = rs, ok = (fieldType (last rs) = Name ''error'')\<rparr>)"

definition resultDescOf :: "field \<Rightarrow> resultDesc" where
  "resultDescOf f = (case f of Field (Some n) _ \<Rightarrow> ResultName n | Field None t \<Rightarrow> ResultType t)"

definition newBasicLit :: "litKind \<Rightarrow> string \<Rightarrow> expr" where
  "newBasicLit k v = BasicLitE (BasicLit v k False)"

definition quoted :: "string \<Rightarrow> string" where
  "quoted s = CHR 0x22 # s @ [CHR 0x22]"

fun zeroExpr :: "expr \<Rightarrow> expr option" where
  "zeroExpr (ParenExpr x) = zeroExpr x"
| "zeroExpr (Operation op x y) = (if op = Mul \<and> y = None then Some (Name ''nil'') else None)"
| "zeroExpr (SliceType _) = Some (Name ''nil'')"
| "zeroExpr (MapType _ _) = Some (Name ''nil'')"
| "zeroExpr (ChanType _ _) = Some (Name ''nil'')"
| "zeroExpr (FuncTypeE _) = Some (Name ''nil'')"
| "zeroExpr (InterfaceType _) = Some (Name ''nil'')"
| "zeroExpr (DotsType _) = Some (Name ''nil'')"
| "zeroExpr (Name t) =
     (if t \<in> {''error'', ''any''} then Some (Name ''nil'')
      else if t = ''string'' then Some (newBasicLit StringLit (quoted []))
      else if t = ''bool'' then Some (Name ''false'')
      else if t \<in> {''int'', ''int8'', ''int16'', ''int32'', ''int64'',
          ''uint'', ''uint8'', ''uint16'', ''uint32'', ''uint64'', ''uintptr'',
          ''byte'', ''rune'', ''float32'', ''float64'', ''complex64'', ''complex128''}
      then Some (newBasicLit IntLit ''0'')
      else None)"
| "zeroExpr _ = None"

fun errorsIdent :: "decl list \<Rightarrow> (string \<times> decl list) option" where
  "errorsIdent [] = None"
| "errorsIdent (ImportDecl l p # ds) =
     (if map_option LitValue p = Some (quoted ''errors'') then
        (case l of
           None \<Rightarrow> Some (''errors'', ImportDecl l p # ds)
         | Some n \<Rightarrow>
             if n = ''_'' then Some (''errors'', ImportDecl None p # ds)
             else if n = ''.'' then Some ([], ImportDecl l p # ds)
             else Some (n, ImportDecl l p # ds))
      else map_option (\<lambda>(n, ds'). (n, ImportDecl l p # ds')) (errorsIdent ds))"
| "errorsIdent (d # ds) = map_option (\<lambda>(n, ds'). (n, d # ds')) (errorsIdent ds)"

definition throwErrExpr :: "expr \<Rightarrow> throwLowerer \<Rightarrow> expr \<times> throwLowerer" where
  "throwErrExpr x st = (case x of
     BasicLitE lit \<Rightarrow>
       if LitKind lit \<noteq> StringLit then (x, st)
       else (case errorsIdent (tFile st) of
           None \<Rightarrow> (x, throwErrorf ThrowNeedsErrorsImport st)
         | Some (pkg, file) \<Rightarrow>
             (CallExpr (if pkg = [] then Name ''New'' else SelectorExpr (Name pkg) ''New'') [x] False,
              st\<lparr>tFile := file\<rparr>))
   | _ \<Rightarrow> (x, st))"

definition zeroResult :: "field \<Rightarrow> throwLowerer \<Rightarrow> expr \<times> throwLowerer" where
  "zeroResult f st = (case zeroExpr (fieldType f) of
     Some z \<Rightarrow> (z, st)
   | None \<Rightarrow> (Name ''nil'', throwErrorf (NoDefaultValue (resultDescOf f)) st))"

definition lowerThrow :: "forgoThrowCtx \<Rightarrow> expr \<Rightarrow> throwLowerer \<Rightarrow> stmt \<times> throwLowerer" where
  "lowerThrow fn x st =
     (if \<not> ok fn then (ReturnStmt None, throwErrorf ThrowNeedsErrorResult st)
      else (case mapS zeroResult (butlast (results fn)) st of (zs, st1) \<Rightarrow>
            case throwErrExpr x st1 of (e, st2) \<Rightarrow>
              (ReturnStmt (Some (if zs = [] then e else ListExpr (zs @ [e]))), st2)))"

section \<open>The pass\<close>

function (sequential) throwBlock :: "forgoThrowCtx \<Rightarrow> blockStmt \<Rightarrow> throwLowerer \<Rightarrow> blockStmt \<times> throwLowerer"
and throwStmt :: "forgoThrowCtx \<Rightarrow> stmt \<Rightarrow> throwLowerer \<Rightarrow> stmt \<times> throwLowerer"
and throwCase :: "forgoThrowCtx \<Rightarrow> caseClause \<Rightarrow> throwLowerer \<Rightarrow> caseClause \<times> throwLowerer"
and throwComm :: "forgoThrowCtx \<Rightarrow> commClause \<Rightarrow> throwLowerer \<Rightarrow> commClause \<times> throwLowerer"
and throwDecl :: "forgoThrowCtx \<Rightarrow> decl \<Rightarrow> throwLowerer \<Rightarrow> decl \<times> throwLowerer"
and throwElse :: "forgoThrowCtx \<Rightarrow> stmt \<Rightarrow> throwLowerer \<Rightarrow> stmt \<times> throwLowerer"
and throwSlot :: "forgoThrowCtx \<Rightarrow> stmt \<Rightarrow> throwLowerer \<Rightarrow> stmt \<times> throwLowerer"
and scanExprsForFuncLits :: "forgoThrowCtx \<Rightarrow> expr \<Rightarrow> throwLowerer \<Rightarrow> expr \<times> throwLowerer"
where
  "throwBlock fn (BlockStmt a ss) st =
     (case mapS (throwStmt fn) ss st of (ss', st1) \<Rightarrow> (BlockStmt a ss', st1))"
| "throwStmt fn (ThrowStmt x) st = lowerThrow fn x st"
| "throwStmt fn (BlockS b) st = (case throwBlock fn b st of (b', st1) \<Rightarrow> (BlockS b', st1))"
| "throwStmt fn (WithStmt x v b) st =
     (case scanExprsForFuncLits fn v st of (v', st1) \<Rightarrow>
      case throwBlock fn b st1 of (b', st2) \<Rightarrow> (WithStmt x v' b', st2))"
| "throwStmt fn (IfStmt i c t e) st =
     (case optS (throwSlot fn) i st of (i', st1) \<Rightarrow>
      case scanExprsForFuncLits fn c st1 of (c', st2) \<Rightarrow>
      case throwBlock fn t st2 of (t', st3) \<Rightarrow>
      case optS (throwElse fn) e st3 of (e', st4) \<Rightarrow>
      (IfStmt i' c' t' e', st4))"
| "throwStmt fn (ForStmt a i c p b) st =
     (case optS (throwSlot fn) i st of (i', st1) \<Rightarrow>
      case optS (scanExprsForFuncLits fn) c st1 of (c', st2) \<Rightarrow>
      case optS (throwSlot fn) p st2 of (p', st3) \<Rightarrow>
      case throwBlock fn b st3 of (b', st4) \<Rightarrow> (ForStmt a i' c' p' b', st4))"
| "throwStmt fn (SwitchStmt a i t cs) st =
     (case optS (throwSlot fn) i st of (i', st1) \<Rightarrow>
      case optS (scanExprsForFuncLits fn) t st1 of (t', st2) \<Rightarrow>
      case mapS (throwCase fn) cs st2 of (cs', st3) \<Rightarrow> (SwitchStmt a i' t' cs', st3))"
| "throwStmt fn (SelectStmt a cs) st =
     (case mapS (throwComm fn) cs st of (cs', st1) \<Rightarrow> (SelectStmt a cs', st1))"
| "throwStmt fn (LabeledStmt a l s) st =
     (case throwStmt fn s st of (s', st1) \<Rightarrow> (LabeledStmt a l s', st1))"
| "throwStmt fn (ExprStmt x) st =
     (case scanExprsForFuncLits fn x st of (x', st1) \<Rightarrow> (ExprStmt x', st1))"
| "throwStmt fn (AssignStmt op l r) st =
     (case scanExprsForFuncLits fn l st of (l', st1) \<Rightarrow>
      case optS (scanExprsForFuncLits fn) r st1 of (r', st2) \<Rightarrow> (AssignStmt op l' r', st2))"
| "throwStmt fn (SendStmt c v) st =
     (case scanExprsForFuncLits fn c st of (c', st1) \<Rightarrow>
      case scanExprsForFuncLits fn v st1 of (v', st2) \<Rightarrow> (SendStmt c' v', st2))"
| "throwStmt fn (ReturnStmt r) st =
     (case optS (scanExprsForFuncLits fn) r st of (r', st1) \<Rightarrow> (ReturnStmt r', st1))"
| "throwStmt fn (DeclStmt ds) st =
     (case mapS (throwDecl fn) ds st of (ds', st1) \<Rightarrow> (DeclStmt ds', st1))"
| "throwStmt fn s st = (s, st)"
| "throwCase fn (CaseClause c ss) st =
     (case optS (scanExprsForFuncLits fn) c st of (c', st1) \<Rightarrow>
      case mapS (throwStmt fn) ss st1 of (ss', st2) \<Rightarrow> (CaseClause c' ss', st2))"
| "throwComm fn (CommClause c ss) st =
     (case optS (throwSlot fn) c st of (c', st1) \<Rightarrow>
      case mapS (throwStmt fn) ss st1 of (ss', st2) \<Rightarrow> (CommClause c' ss', st2))"
| "throwDecl fn (VarDecl ns t v) st =
     (case optS (scanExprsForFuncLits fn) v st of (v', st1) \<Rightarrow> (VarDecl ns t v', st1))"
| "throwDecl fn (ConstDecl ns t v) st =
     (case optS (scanExprsForFuncLits fn) v st of (v', st1) \<Rightarrow> (ConstDecl ns t v', st1))"
| "throwDecl fn d st = (d, st)"
| "throwElse fn (BlockS b) st = (case throwBlock fn b st of (b', st1) \<Rightarrow> (BlockS b', st1))"
| "throwElse fn (IfStmt i c t e) st = throwStmt fn (IfStmt i c t e) st"
| "throwElse fn s st = (s, st)"
| "throwSlot fn (ExprStmt x) st =
     (case scanExprsForFuncLits fn x st of (x', st1) \<Rightarrow> (ExprStmt x', st1))"
| "throwSlot fn (AssignStmt op l r) st =
     (case optS (scanExprsForFuncLits fn) r st of (r', st1) \<Rightarrow> (AssignStmt op l r', st1))"
| "throwSlot fn (SendStmt c v) st =
     (case scanExprsForFuncLits fn v st of (v', st1) \<Rightarrow> (SendStmt c v', st1))"
| "throwSlot fn s st = (s, st)"
| "scanExprsForFuncLits fn e st = mapFuncLits (\<lambda>t b. throwBlock (forgoThrowCtxOf t) b) e st"
  by pat_completeness auto
termination
  by (relation "measure (case_sum
        (case_sum (case_sum (\<lambda>(_, b, _). 2 * size b) (\<lambda>(_, s, _). 2 * size s))
           (case_sum (\<lambda>(_, c, _). 2 * size c) (\<lambda>(_, c, _). 2 * size c)))
        (case_sum (case_sum (\<lambda>(_, d, _). 2 * size d) (\<lambda>(_, s, _). 2 * size s + 1))
           (case_sum (\<lambda>(_, s, _). 2 * size s) (\<lambda>(_, e, _). 2 * size e))))")
    (auto dest: funcLits_size child_sizes(1))


declare scanExprsForFuncLits.simps [simp del]

section \<open>What it leaves\<close>

fun isThrow :: "node \<Rightarrow> bool" where
  "isThrow (NStmt (ThrowStmt _)) = True"
| "isThrow _ = False"

fun skippedSlot :: "stmt \<Rightarrow> node list" where
  "skippedSlot (ExprStmt _) = []"
| "skippedSlot (AssignStmt _ l _) = [NExpr l]"
| "skippedSlot (SendStmt c _) = [NExpr c]"
| "skippedSlot s = [NStmt s]"

fun skippedElse :: "stmt \<Rightarrow> node list" where
  "skippedElse (BlockS _) = []"
| "skippedElse (IfStmt _ _ _ _) = []"
| "skippedElse s = [NStmt s]"

abbreviation skippedOpt :: "(stmt \<Rightarrow> node list) \<Rightarrow> stmt option \<Rightarrow> node list" where
  "skippedOpt f x \<equiv> concat (map f (opt_list x))"

fun skippedTh :: "node \<Rightarrow> node list" where
  "skippedTh (NExpr (FuncLit t _)) = [NFuncType t]"
| "skippedTh (NStmt (ThrowStmt x)) = [NExpr x]"
| "skippedTh (NStmt (PostfixIfStmt s c)) = [NStmt s, NExpr c]"
| "skippedTh (NStmt (CallStmt _ c _)) = [NExpr c]"
| "skippedTh (NStmt (RangeClause l _ x)) = map NExpr (opt_list l) @ [NExpr x]"
| "skippedTh (NStmt (IfStmt i _ _ e)) = skippedOpt skippedSlot i @ skippedOpt skippedElse e"
| "skippedTh (NStmt (ForStmt _ i _ p _)) = skippedOpt skippedSlot i @ skippedOpt skippedSlot p"
| "skippedTh (NStmt (SwitchStmt _ i _ _)) = skippedOpt skippedSlot i"
| "skippedTh (NComm (CommClause c _)) = skippedOpt skippedSlot c"
| "skippedTh (NDecl (VarDecl _ t _)) = map NExpr (opt_list t)"
| "skippedTh (NDecl (ConstDecl _ t _)) = map NExpr (opt_list t)"
| "skippedTh (NDecl (TypeDecl _ _ ps _ t)) = map NField ps @ [NExpr t]"
| "skippedTh (NDecl (FuncDecl pr r n ps t b)) = [NDecl (FuncDecl pr r n ps t b)]"
| "skippedTh _ = []"

abbreviation hidesTh :: "node \<Rightarrow> bool" where
  "hidesTh \<equiv> hides skippedTh isThrow"

lemma stmtOnly_isThrow: "stmtOnly isThrow"
  by (simp add: stmtOnly_def)

lemma zeroExpr_leaf: "zeroExpr t = Some z \<Longrightarrow> (\<exists>x. z = Name x) \<or> (\<exists>l. z = BasicLitE l)"
  by (induction t rule: zeroExpr.induct) (simp_all add: newBasicLit_def eq_commute [of _ z] split: if_splits)

lemma zeroResult_no_throw: "\<not> anyNode isThrow (NExpr (fst (zeroResult f st)))"
  by (auto simp: zeroResult_def dest!: zeroExpr_leaf split: option.splits)

lemma throwErrExpr_throw:
  "\<not> anyNode isThrow (NExpr x) \<Longrightarrow> \<not> anyNode isThrow (NExpr (fst (throwErrExpr x st)))"
  by (auto simp: throwErrExpr_def split: expr.splits option.splits)

lemma lowerThrow_throw:
  "\<not> anyNode isThrow (NExpr x) \<Longrightarrow> \<not> anyNode isThrow (NStmt (fst (lowerThrow fn x st)))"
  by (auto simp: lowerThrow_def case_prod_beta zeroResult_no_throw throwErrExpr_throw dest!: mapS_set)

lemma throwElse_cases:
  "throwElse fn s st = throwStmt fn s st \<or> throwElse fn s st = (s, st) \<and> skippedElse s = [NStmt s]"
  by (cases s) auto

lemma throw_lowered:
  "\<forall>fn st. \<not> hidesTh (NExpr e) \<longrightarrow> \<not> anyNode isThrow (NExpr (fst (scanExprsForFuncLits fn e st)))"
  "\<forall>fn st. \<not> hidesTh (NStmt s) \<longrightarrow> \<not> anyNode isThrow (NStmt (fst (throwStmt fn s st))) \<and>
     (\<not> list_ex (anyNode isThrow) (skippedSlot s) \<longrightarrow> \<not> anyNode isThrow (NStmt (fst (throwSlot fn s st))))"
  "\<forall>fn st. \<not> hidesTh (NCase cc) \<longrightarrow> \<not> anyNode isThrow (NCase (fst (throwCase fn cc st)))"
  "\<forall>fn st. \<not> hidesTh (NComm mc) \<longrightarrow> \<not> anyNode isThrow (NComm (fst (throwComm fn mc st)))"
  "\<forall>fn st. \<not> hidesTh (NBlock b) \<longrightarrow> \<not> anyNode isThrow (NBlock (fst (throwBlock fn b st)))"
  "\<forall>fn st. \<not> hidesTh (NDecl d) \<longrightarrow> \<not> anyNode isThrow (NDecl (fst (throwDecl fn d st)))"
proof (induction e and s and cc and mc and b and d rule: pass_induct)
  case (Expr e)
  show ?case
    using Expr hides_funcLit [of skippedTh isThrow e]
    by (force simp: anyNode_funcLits [OF stmtOnly_isThrow] scanExprsForFuncLits.simps
       dest!: funcLits_mapFuncLits)
next
  case (Stmt s)
  show ?case
  proof (cases s)
    case (IfStmt i c t e)
    have else_ok: "\<not> anyNode isThrow (NStmt (fst (throwElse fn s' st)))"
      if "e = Some s'" "\<not> hidesTh (NStmt s)" for s' fn st
      using Stmt IfStmt that throwElse_cases [of fn s' st] by (auto simp: hides_def)
    show ?thesis
      using Stmt IfStmt else_ok
      by (auto simp: hides_def list_ex_iff case_prod_beta ball_Un dest!: optS_Some)
  qed (use Stmt in \<open>auto simp: hides_def list_ex_iff lowerThrow_throw case_prod_beta ball_Un
        dest!: mapS_set optS_Some\<close>)
next
  case (Decl d)
  then show ?case
  by (cases d) (auto simp: hides_def list_ex_iff case_prod_beta dest!: mapS_set optS_Some)
qed (auto simp: hides_def list_ex_iff case_prod_beta dest!: mapS_set optS_Some)

lemma throw_same:
  "\<forall>fn st. \<not> anyNode isThrow (NExpr e) \<longrightarrow> scanExprsForFuncLits fn e st = (e, st)"
  "\<forall>fn st. \<not> anyNode isThrow (NStmt s) \<longrightarrow>
     throwStmt fn s st = (s, st) \<and> throwSlot fn s st = (s, st) \<and> throwElse fn s st = (s, st)"
  "\<forall>fn st. \<not> anyNode isThrow (NCase cc) \<longrightarrow> throwCase fn cc st = (cc, st)"
  "\<forall>fn st. \<not> anyNode isThrow (NComm mc) \<longrightarrow> throwComm fn mc st = (mc, st)"
  "\<forall>fn st. \<not> anyNode isThrow (NBlock b) \<longrightarrow> throwBlock fn b st = (b, st)"
  "\<forall>fn st. \<not> anyNode isThrow (NDecl d) \<longrightarrow> throwDecl fn d st = (d, st)"
proof (induction e and s and cc and mc and b and d rule: pass_induct)
  case (Expr e)
  then show ?case
    by (force simp: anyNode_funcLits [OF stmtOnly_isThrow] scanExprsForFuncLits.simps
       intro!: mapFuncLits_id)
next
  case (Stmt s)
  show ?case
  proof (cases s)
    case (IfStmt i c t e)
    have "throwStmt fn s st = (s, st)" if "\<not> anyNode isThrow (NStmt s)" for fn st
      using Stmt IfStmt that by (auto simp: mapS_id optS_Some_id ball_Un)
    then show ?thesis using IfStmt by (simp del: throwStmt.simps)
  qed (use Stmt in \<open>auto simp: mapS_id optS_Some_id ball_Un\<close>)
next
  case (Decl d)
  then show ?case by (cases d) (auto simp: mapS_id optS_Some_id ball_Un)
qed (auto simp: mapS_id optS_Some_id)

section \<open>Diagnostics only accumulate\<close>

definition promoted :: "decl \<Rightarrow> decl \<Rightarrow> bool" where
  "promoted d d' \<longleftrightarrow> d' = d \<or> (\<exists>p. d = ImportDecl (Some ''_'') p \<and> d' = ImportDecl None p)"

definition throwBelow :: "throwLowerer \<Rightarrow> throwLowerer \<Rightarrow> bool" where
  "throwBelow st st' \<longleftrightarrow> prefix (tErrs st) (tErrs st') \<and> list_all2 promoted (tFile st) (tFile st')"

lemma promoted_refl: "promoted d d"
  by (simp add: promoted_def)

lemma promoted_trans: "promoted d d' \<Longrightarrow> promoted d' d'' \<Longrightarrow> promoted d d''"
  by (auto simp: promoted_def)

lemma throwBelow_refl: "throwBelow st st"
  by (simp add: throwBelow_def list_all2_refl promoted_refl)

lemma throwBelow_trans: "throwBelow s t \<Longrightarrow> throwBelow t u \<Longrightarrow> throwBelow s u"
  unfolding throwBelow_def
  by (auto intro: list_all2_trans [of promoted promoted promoted] promoted_trans)

lemma errorsIdent_promoted:
  "errorsIdent ds = Some (n, ds') \<Longrightarrow> list_all2 promoted ds ds'"
  by (induction ds arbitrary: n ds' rule: errorsIdent.induct)
    (auto simp: promoted_refl list_all2_refl promoted_def split: if_splits option.splits)

lemma throwErrorf_below: "throwBelow s0 st \<Longrightarrow> throwBelow s0 (throwErrorf e st)"
  by (auto simp: throwBelow_def throwErrorf_def)

lemma throwErrExpr_below: "throwBelow s0 st \<Longrightarrow> throwBelow s0 (snd (throwErrExpr x st))"
proof -
  assume s0: "throwBelow s0 st"
  have "throwBelow s0 (st\<lparr>tFile := ds\<rparr>)" if "errorsIdent (tFile st) = Some (n, ds)" for n ds
    using that errorsIdent_promoted
    by (intro throwBelow_trans [OF s0]) (fastforce simp: throwBelow_def)
  then show ?thesis
    using s0 by (auto simp: throwErrExpr_def throwErrorf_below split: expr.splits option.splits)
qed

lemma zeroResult_below: "throwBelow s0 st \<Longrightarrow> throwBelow s0 (snd (zeroResult f st))"
  by (simp add: zeroResult_def throwErrorf_below split: option.splits)

lemma lowerThrow_below: "throwBelow s0 st \<Longrightarrow> throwBelow s0 (snd (lowerThrow fn x st))"
  by (auto simp: lowerThrow_def case_prod_beta throwErrorf_below
      intro!: throwErrExpr_below zeroResult_below mapS_inv [where I = "throwBelow s0"])

lemma throw_chain:
  "\<lbrakk>\<forall>x\<in>set xs. \<forall>u. throwBelow s0 u \<longrightarrow> throwBelow s0 (snd (f x u)); throwBelow s0 st\<rbrakk> \<Longrightarrow>
     throwBelow s0 (snd (mapS f xs st))"
  "\<lbrakk>\<forall>x\<in>set_option o'. \<forall>u. throwBelow s0 u \<longrightarrow> throwBelow s0 (snd (g x u)); throwBelow s0 st\<rbrakk> \<Longrightarrow>
     throwBelow s0 (snd (optS g o' st))"
  by (simp add: mapS_inv [where I = "throwBelow s0"])
    (simp add: optS_inv [where I = "throwBelow s0"])

lemma throw_below:
  "\<forall>fn st s0. throwBelow s0 st \<longrightarrow> throwBelow s0 (snd (scanExprsForFuncLits fn e st))"
  "\<forall>fn st s0. throwBelow s0 st \<longrightarrow> throwBelow s0 (snd (throwStmt fn s st))
     \<and> throwBelow s0 (snd (throwSlot fn s st)) \<and> throwBelow s0 (snd (throwElse fn s st))"
  "\<forall>fn st s0. throwBelow s0 st \<longrightarrow> throwBelow s0 (snd (throwCase fn cc st))"
  "\<forall>fn st s0. throwBelow s0 st \<longrightarrow> throwBelow s0 (snd (throwComm fn mc st))"
  "\<forall>fn st s0. throwBelow s0 st \<longrightarrow> throwBelow s0 (snd (throwBlock fn b st))"
  "\<forall>fn st s0. throwBelow s0 st \<longrightarrow> throwBelow s0 (snd (throwDecl fn d st))"
proof (induction e and s and cc and mc and b and d rule: pass_induct)
  case (Expr e)
  then show ?case
    by (auto simp: scanExprsForFuncLits.simps intro!: mapFuncLits_inv [where I = "throwBelow s0" for s0])
next
  case (Stmt s)
  show ?case
  proof (cases s)
    case (IfStmt i c t e)
    have "throwBelow s0 st \<longrightarrow> throwBelow s0 (snd (throwStmt fn s st))" for fn st s0
      using Stmt IfStmt by (simp add: case_prod_beta ball_Un throw_chain)
    then show ?thesis using IfStmt by (simp del: throwStmt.simps)
  qed (use Stmt in \<open>simp_all add: case_prod_beta ball_Un lowerThrow_below throw_chain\<close>)
next
  case (Decl d)
  then show ?case by (cases d) (simp_all add: case_prod_beta ball_Un throw_chain)
qed (simp_all add: case_prod_beta throw_chain)


text \<open>The whole file: the loop over \<open>DeclList\<close> sees the promotions made on the way.\<close>

definition throwDeclAt :: "nat \<Rightarrow> throwLowerer \<Rightarrow> throwLowerer" where
  "throwDeclAt i st = (case tFile st ! i of
     FuncDecl pr r n tps t (Some b) \<Rightarrow>
       (case throwBlock (forgoThrowCtxOf t) b st of (b', st1) \<Rightarrow>
          st1\<lparr>tFile := (tFile st1)[i := FuncDecl pr r n tps t (Some b')]\<rparr>)
   | _ \<Rightarrow> st)"

definition throwFile :: "decl list \<Rightarrow> throwError list \<Rightarrow> decl list \<times> throwError list" where
  "throwFile ds errs =
     (let st = fold throwDeclAt [0..<length ds] \<lparr>tFile = ds, tErrs = errs\<rparr> in (tFile st, tErrs st))"

definition forgoLowerThrow ::
  "decl list option list \<Rightarrow> throwError list \<Rightarrow> throwError list + decl list option list" where
  "forgoLowerThrow noders errs = (case mapS (optS throwFile) noders errs of
     (out, errs') \<Rightarrow> if errs' \<noteq> [] then Inl errs' else Inr out)"

section \<open>The file level\<close>

fun loweredDecl :: "decl \<Rightarrow> decl \<Rightarrow> bool" where
  "loweredDecl (FuncDecl pr r n tps t (Some b)) d' \<longleftrightarrow>
     (\<exists>st. d' = FuncDecl pr r n tps t (Some (fst (throwBlock (forgoThrowCtxOf t) b st))))"
| "loweredDecl d d' \<longleftrightarrow> promoted d d'"

lemma loweredDecl_promoted: "loweredDecl d d' \<Longrightarrow> promoted d' d'' \<Longrightarrow> loweredDecl d d''"
  by (induction d d' rule: loweredDecl.induct) (auto simp: promoted_def)

lemma loweredDecl_other:
  "\<forall>pr r n tps t b. d \<noteq> FuncDecl pr r n tps t (Some b) \<Longrightarrow> loweredDecl d d' \<longleftrightarrow> promoted d d'"
  by (cases "(d, d')" rule: loweredDecl.cases) auto

lemma loweredDecl_promotes: "promoted d d' \<Longrightarrow> loweredDecl d' d'' \<Longrightarrow> loweredDecl d d''"
  by (auto simp: promoted_def)

lemma throwDeclAt_other:
  assumes "\<forall>pr r n tps t b. tFile st ! i \<noteq> FuncDecl pr r n tps t (Some b)"
  shows "throwDeclAt i st = st"
  using assms by (auto simp: throwDeclAt_def split: decl.splits option.splits)

lemma throwDeclAt_file:
  assumes "i < length (tFile st)"
  shows "length (tFile (throwDeclAt i st)) = length (tFile st) \<and>
     loweredDecl (tFile st ! i) (tFile (throwDeclAt i st) ! i) \<and>
     (\<forall>j < length (tFile st). j \<noteq> i \<longrightarrow> promoted (tFile st ! j) (tFile (throwDeclAt i st) ! j)) \<and>
     prefix (tErrs st) (tErrs (throwDeclAt i st))"
proof (cases "\<exists>pr r n tps t b. tFile st ! i = FuncDecl pr r n tps t (Some b)")
  case True
  then obtain pr r n tps t b where d: "tFile st ! i = FuncDecl pr r n tps t (Some b)" by blast
  have "throwBelow st (snd (throwBlock (forgoThrowCtxOf t) b st))"
    by (simp add: throw_below throwBelow_refl)
  then show ?thesis
    using assms d
    by (auto simp: throwDeclAt_def throwBelow_def case_prod_beta list_all2_conv_all_nth)
next
  case False
  then show ?thesis by (auto simp: throwDeclAt_other loweredDecl_other promoted_refl)
qed

lemma throwFile_steps:
  assumes "k \<le> length ds"
  shows "let st = fold throwDeclAt [0..<k] \<lparr>tFile = ds, tErrs = errs\<rparr> in
     length (tFile st) = length ds \<and>
     (\<forall>i < length ds. if i < k then loweredDecl (ds ! i) (tFile st ! i) else promoted (ds ! i) (tFile st ! i)) \<and>
     prefix errs (tErrs st)"
  using assms
proof (induction k)
  case 0
  then show ?case by (simp add: promoted_refl)
next
  case (Suc k)
  define st where "st = fold throwDeclAt [0..<k] \<lparr>tFile = ds, tErrs = errs\<rparr>"
  have IH: "length (tFile st) = length ds" "prefix errs (tErrs st)"
    "\<And>i. i < length ds \<Longrightarrow> if i < k then loweredDecl (ds ! i) (tFile st ! i) else promoted (ds ! i) (tFile st ! i)"
    using Suc by (simp_all add: st_def Let_def)
  note step = throwDeclAt_file [of k st]
  have "loweredDecl (ds ! k) (tFile (throwDeclAt k st) ! k)"
    using step IH(1) IH(3) [of k] Suc.prems loweredDecl_promotes [of "ds ! k"] by simp
  moreover have "if i < k then loweredDecl (ds ! i) (tFile (throwDeclAt k st) ! i)
      else promoted (ds ! i) (tFile (throwDeclAt k st) ! i)" if "i < length ds" "i \<noteq> k" for i
    using step IH(1) IH(3) [of i] Suc.prems that
    by (auto intro: loweredDecl_promoted promoted_trans split: if_splits)
  ultimately show ?case
    using step IH(1,2) Suc.prems
    by (auto simp: Let_def less_Suc_eq simp flip: st_def)
qed

lemma throwFile_lowered: "list_all2 loweredDecl ds (fst (throwFile ds errs))"
  using throwFile_steps [of "length ds" ds errs]
  by (simp add: throwFile_def Let_def list_all2_conv_all_nth)

lemma throwFile_errs: "prefix errs (snd (throwFile ds errs))"
  using throwFile_steps [of "length ds" ds errs] by (simp add: throwFile_def Let_def)

interpretation thr: lowering_pass throwBelow "throwBlock fn"
  "\<lambda>b. anyNode isThrow (NBlock b)" "\<lambda>b. \<not> hidesTh (NBlock b)"
  for fn
  by unfold_locales
    (auto simp: throwBelow_refl throw_lowered throw_same throw_below intro: throwBelow_trans)

lemma errorsIdent_Cons:
  "map_option fst (errorsIdent ys) = map_option fst (errorsIdent xs) \<Longrightarrow>
   map_option fst (errorsIdent (d # ys)) = map_option fst (errorsIdent (d # xs))"
  by (cases d) (auto simp: option.map_comp comp_def case_prod_beta split: option.splits)

lemma errorsIdent_stable:
  "list_all2 promoted ds ds' \<Longrightarrow> map_option fst (errorsIdent ds') = map_option fst (errorsIdent ds)"
proof (induction ds ds' rule: list_all2_induct)
  case (Cons d ds d' ds')
  have "map_option fst (errorsIdent (d' # ds')) = map_option fst (errorsIdent (d # ds'))"
    using Cons(1) by (auto simp: promoted_def option.map_comp comp_def case_prod_beta)
  then show ?case using errorsIdent_Cons [OF Cons.IH] by simp
qed simp

lemma throwBlock_errorsIdent:
  "map_option fst (errorsIdent (tFile (snd (throwBlock fn b st)))) = map_option fst (errorsIdent (tFile st))"
  using throw_below(5) [of b, rule_format, OF throwBelow_refl]
  by (simp add: throwBelow_def errorsIdent_stable)

lemma loweredDecl_body:
  assumes "loweredDecl d d'" and "b' \<in> set (declBody d')"
  obtains t b st where "b \<in> set (declBody d)" and "b' = fst (throwBlock (forgoThrowCtxOf t) b st)"
  using assms by (cases "(d, d')" rule: loweredDecl.cases) (auto simp: promoted_def)

lemma throwPackage_body:
  assumes "b' \<in> set (funcBodies (fst (mapS (optS throwFile) noders errs)))"
  obtains t b st where "b \<in> set (funcBodies noders)" and "b' = fst (throwBlock (forgoThrowCtxOf t) b st)"
proof -
  obtain ds errs' d' where ds: "Some ds \<in> set noders" "d' \<in> set (fst (throwFile ds errs'))" "b' \<in> set (declBody d')"
    using assms by (fastforce simp: in_funcBodies dest!: mapS_set optS_Some [OF sym])
  then obtain d where "d \<in> set ds" "loweredDecl d d'"
    using throwFile_lowered [of ds errs'] by (metis in_set_conv_nth list_all2_conv_all_nth)
  then show thesis using ds that loweredDecl_body by (metis in_funcBodies)
qed

section \<open>Diagnostics of one throw\<close>

definition isStringLit :: "expr \<Rightarrow> bool" where
  "isStringLit x = (case x of BasicLitE l \<Rightarrow> LitKind l = StringLit | _ \<Rightarrow> False)"

lemma zeroResults_errs:
  "tErrs (snd (mapS zeroResult fs st)) = tErrs st @
     map (NoDefaultValue \<circ> resultDescOf) (filter (\<lambda>f. zeroExpr (fieldType f) = None) fs) \<and>
   tFile (snd (mapS zeroResult fs st)) = tFile st \<and>
   fst (mapS zeroResult fs st) =
     map (\<lambda>f. case zeroExpr (fieldType f) of Some z \<Rightarrow> z | None \<Rightarrow> Name ''nil'') fs"
  by (induction fs arbitrary: st) (auto simp: zeroResult_def throwErrorf_def case_prod_beta split: option.splits)

lemma throwErrExpr_errs:
  "tErrs (snd (throwErrExpr x st)) = tErrs st @
     (if isStringLit x \<and> errorsIdent (tFile st) = None then [ThrowNeedsErrorsImport] else [])"
  by (auto simp: throwErrExpr_def isStringLit_def throwErrorf_def split: expr.splits option.splits)

lemma lowerThrow_errs:
  "tErrs (snd (lowerThrow fn x st)) = tErrs st @
     (if \<not> ok fn then [ThrowNeedsErrorResult]
      else map (NoDefaultValue \<circ> resultDescOf)
             (filter (\<lambda>f. zeroExpr (fieldType f) = None) (butlast (results fn)))
           @ (if isStringLit x \<and> errorsIdent (tFile st) = None then [ThrowNeedsErrorsImport] else []))"
  by (simp add: lowerThrow_def throwErrorf_def case_prod_beta throwErrExpr_errs zeroResults_errs)

section \<open>Properties\<close>

text \<open>
  C29: if the throw pass does not stop the compiler, no function body of the package has a
  \<open>throw\<close> left, provided none stands in a part the pass skips.
\<close>

theorem throw_complete:
  assumes "forgoLowerThrow noders errs = Inr out"
    and "list_all (\<lambda>b. \<not> hidesTh (NBlock b)) (funcBodies noders)"
  shows "list_all (\<lambda>b. \<not> anyNode isThrow (NBlock b)) (funcBodies out)"
proof -
  have out: "out = fst (mapS (optS throwFile) noders errs)"
    using assms(1) by (auto simp: forgoLowerThrow_def case_prod_beta split: if_splits)
  show ?thesis
    unfolding list_all_iff
  proof
    fix b' assume "b' \<in> set (funcBodies out)"
    then obtain t b st where "b \<in> set (funcBodies noders)" "b' = fst (throwBlock (forgoThrowCtxOf t) b st)"
      unfolding out by (rule throwPackage_body)
    then show "\<not> anyNode isThrow (NBlock b')"
      using assms(2) thr.lowers by (auto simp: list_all_iff)
  qed
qed

theorem throw_complete_witness:
  "list_all (\<lambda>b. \<not> anyNode isThrow (NBlock b)) (funcBodies
     [None, Some [ImportDecl None (Some (BasicLit (quoted ''errors'') StringLit False)),
       FuncDecl no_pragmas None ''f'' []
         (FuncType [] [Field None (Name ''int''), Field None (Name ''error'')])
         (Some (BlockStmt 1 [IfStmt None (Name ''c'') (BlockStmt 2
            [ReturnStmt (Some (ListExpr [newBasicLit IntLit ''0'',
               CallExpr (SelectorExpr (Name ''errors'') ''New'') [newBasicLit StringLit (quoted ''x'')] False]))])
            None]))]])"
  by (rule throw_complete [of "[None, Some [ImportDecl None (Some (BasicLit (quoted ''errors'') StringLit False)),
       FuncDecl no_pragmas None ''f'' []
         (FuncType [] [Field None (Name ''int''), Field None (Name ''error'')])
         (Some (BlockStmt 1 [IfStmt None (Name ''c'') (BlockStmt 2
            [ThrowStmt (newBasicLit StringLit (quoted ''x''))]) None]))]]" "[]"])
    (simp_all add: forgoLowerThrow_def throwFile_def throwDeclAt_def forgoThrowCtxOf_def lowerThrow_def
      zeroResult_def throwErrExpr_def newBasicLit_def scanExprsForFuncLits.simps in_funcBodies funcBodies_def hides_def
      quoted_def upt_rec)

text \<open>
  On a function body without \<open>throw\<close> the pass is the identity, on the tree and on the
  state: no diagnostic, and a blank import of \<open>errors\<close> is not promoted.
\<close>

theorem throw_identity:
  assumes "\<not> anyNode isThrow (NBlock b)"
  shows "throwBlock fn b st = (b, st)"
  using assms by (rule thr.same)

theorem throw_identity_witness:
  "throwBlock (forgoThrowCtxOf (FuncType [] [])) (BlockStmt 1 [ReturnStmt (Some (Name ''x''))])
     \<lparr>tFile = [ImportDecl (Some ''_'') None], tErrs = []\<rparr>
   = (BlockStmt 1 [ReturnStmt (Some (Name ''x''))], \<lparr>tFile = [ImportDecl (Some ''_'') None], tErrs = []\<rparr>)"
  by (rule throw_identity) simp

text \<open>
  The diagnostics of one \<open>throw\<close>, exactly: a function whose last result is not \<open>error\<close>
  gets one diagnostic; otherwise one per leading result whose zero value cannot be read off
  its type, in order, and one more when a string is thrown in a file that does not import
  \<open>errors\<close>.
\<close>

theorem lowerThrow_diagnostics:
  "tErrs (snd (lowerThrow fn x st)) = tErrs st @
     (if \<not> ok fn then [ThrowNeedsErrorResult]
      else map (NoDefaultValue \<circ> resultDescOf)
             (filter (\<lambda>f. zeroExpr (fieldType f) = None) (butlast (results fn)))
           @ (if isStringLit x \<and> errorsIdent (tFile st) = None then [ThrowNeedsErrorsImport] else []))"
  by (rule lowerThrow_errs)



text \<open>
  Every throw of a file names the \<open>errors\<close> package the same way: however many throws of
  the file have been lowered, and promotions of a blank import made, the lookup answers as
  on the file as it was parsed.
\<close>

theorem throw_errors_name_stable:
  "map_option fst (errorsIdent (tFile (snd (mapS (throwStmt fn) ss st))))
     = map_option fst (errorsIdent (tFile st))"
proof -
  have "throwBelow st (snd (mapS (throwStmt fn) ss st))"
    by (rule throw_chain) (simp_all add: throw_below throwBelow_refl)
  then show ?thesis by (simp add: throwBelow_def errorsIdent_stable)
qed

text \<open>
  Like the postfix-if pass, the throw pass does not enter the operand of \<open>go\<close> and \<open>defer\<close>:
  the \<open>throw\<close> of a deferred literal reaches the type checker.
\<close>

theorem throw_misses_defer:
  "anyNode isThrow (NBlock (fst (throwBlock fn (BlockStmt 2
     [CallStmt tok (CallExpr (FuncLit (FuncType [] [Field None (Name ''error'')])
        (BlockStmt 1 [ThrowStmt x])) [] False) d]) st)))"
  by simp

end
