(* ===== verification/TryOp.thy ===== *)
theory TryOp
  imports Walk "HOL-Library.Sublist"
begin

text \<open>
  The \<open>?\<close> pass, \<^verbatim>\<open>src/src/cmd/compile/internal/noder/forgo_try.go\<close>: it turns \<open>f()?\<close> into an
  assignment to two temporaries, placed before the statement, and a check that sets the named
  error result and returns.

  \<open>tryLowerer\<close> is the source's \<^verbatim>\<open>forgoTryLowerer\<close>: the counter of temporaries, and the
  diagnostics reported so far. The source's \<open>pre *[]Stmt\<close> is the first component of the state
  \<open>tryExpr\<close> threads. A statement becomes a list of statements, as in the source; what the source
  mutates in place (the \<open>else if\<close> whose statement list it drops, a labelled statement it rejects)
  is the last statement of that list. \<open>forgoRepositionStmt\<close> only moves positions and has no
  counterpart. A block or label the pass builds gets address 0.

  \<open>skippedTry\<close> lists the children the pass does not enter, \<open>badSlot\<close> says that an init or post
  slot does not hold a simple statement (which the types of the source exclude). The pass
  fulfils the contract \<open>lowering_pass\<close> (interpretation \<open>tryp\<close>).
\<close>

section \<open>Contexts, diagnostics and state\<close>

record forgoFuncCtx =
  errName :: string

datatype tryError = TryNeedsNamedError | TryHoistsBeforeLabel string

record tryLowerer =
  tryN :: nat
  tryErrs :: "tryError list"

definition tryErrorf :: "tryError \<Rightarrow> tryLowerer \<Rightarrow> tryLowerer" where
  "tryErrorf e st = st\<lparr>tryErrs := tryErrs st @ [e]\<rparr>"

definition forgoFuncCtxOf :: "funcType \<Rightarrow> forgoFuncCtx" where
  "forgoFuncCtxOf t = (case t of FuncType ps rs \<Rightarrow>
     if rs = [] then \<lparr>errName = []\<rparr>
     else (case last rs of
        Field None _ \<Rightarrow> \<lparr>errName = []\<rparr>
      | Field (Some n) ty \<Rightarrow> if ty = Name ''error'' then \<lparr>errName = n\<rparr> else \<lparr>errName = []\<rparr>))"

definition tempNameOf :: "nat \<Rightarrow> string" where
  "tempNameOf n = ''_fore_t'' @ digits n"

definition tempName :: "tryLowerer \<Rightarrow> string \<times> tryLowerer" where
  "tempName st = (let st1 = st\<lparr>tryN := tryN st + 1\<rparr> in (tempNameOf (tryN st1), st1))"

section \<open>Hoisting\<close>

definition forgoErrCheck :: "forgoFuncCtx \<Rightarrow> string \<Rightarrow> stmt" where
  "forgoErrCheck fn tmpErr =
     IfStmt None (Operation Neq (Name tmpErr) (Some (Name ''nil'')))
       (BlockStmt 0 [AssignStmt None (Name (errName fn)) (Some (Name tmpErr)), ReturnStmt None]) None"

definition needErrName :: "forgoFuncCtx \<Rightarrow> tryLowerer \<Rightarrow> forgoFuncCtx \<times> tryLowerer" where
  "needErrName fn st =
     (if errName fn = [] then (\<lparr>errName = ''_''\<rparr>, tryErrorf TryNeedsNamedError st) else (fn, st))"

definition hoistValue ::
  "forgoFuncCtx \<Rightarrow> expr \<Rightarrow> stmt list \<times> tryLowerer \<Rightarrow> expr \<times> stmt list \<times> tryLowerer" where
  "hoistValue fn inner ps =
     (case needErrName fn (snd ps) of (fn, st) \<Rightarrow>
      case tempName st of (valName, st1) \<Rightarrow>
      case tempName st1 of (tmpErr, st2) \<Rightarrow>
      (Name valName,
       fst ps @ [AssignStmt (Some Def) (ListExpr [Name valName, Name tmpErr]) (Some inner),
                 forgoErrCheck fn tmpErr],
       st2))"

definition hoistErrOnly :: "forgoFuncCtx \<Rightarrow> expr \<Rightarrow> tryLowerer \<Rightarrow> stmt list \<times> tryLowerer" where
  "hoistErrOnly fn inner st =
     (case needErrName fn st of (fn, st) \<Rightarrow>
      case tempName st of (tmpErr, st1) \<Rightarrow>
      ([AssignStmt (Some Def) (Name tmpErr) (Some inner), forgoErrCheck fn tmpErr], st1))"

section \<open>Probing for the operator, and redirecting continue\<close>

fun isTry :: "node \<Rightarrow> bool" where
  "isTry (NExpr (TryExpr _)) = True"
| "isTry _ = False"

definition containsTry :: "expr option \<Rightarrow> bool" where
  "containsTry e = (case e of None \<Rightarrow> False | Some x \<Rightarrow> walk (findV isTry) (NExpr x) False)"

fun simpleStmtExpr :: "stmt option \<Rightarrow> expr option" where
  "simpleStmtExpr (Some (ExprStmt x)) = Some x"
| "simpleStmtExpr (Some (AssignStmt _ _ r)) = r"
| "simpleStmtExpr (Some (SendStmt _ v)) = Some v"
| "simpleStmtExpr _ = None"

fun isTryStmt :: "stmt \<Rightarrow> bool" where
  "isTryStmt (ExprStmt (TryExpr _)) = True"
| "isTryStmt _ = False"

fun isRangeClause :: "stmt \<Rightarrow> bool" where
  "isRangeClause (RangeClause _ _ _) = True"
| "isRangeClause _ = False"

fun rewriteContinues :: "addr \<Rightarrow> string \<Rightarrow> stmt \<Rightarrow> stmt"
and rewriteContinuesBlock :: "addr \<Rightarrow> string \<Rightarrow> blockStmt \<Rightarrow> blockStmt"
and rewriteContinuesCase :: "addr \<Rightarrow> string \<Rightarrow> caseClause \<Rightarrow> caseClause"
and rewriteContinuesComm :: "addr \<Rightarrow> string \<Rightarrow> commClause \<Rightarrow> commClause"
where
  "rewriteContinues target l (BlockS b) = BlockS (rewriteContinuesBlock target l b)"
| "rewriteContinues target l (BranchStmt tok lab tgt) =
     (if tok = Continue \<and> tgt = Some target then BranchStmt Goto (Some l) None
      else BranchStmt tok lab tgt)"
| "rewriteContinues target l (IfStmt i c t e) =
     IfStmt (map_option (rewriteContinues target l) i) c (rewriteContinuesBlock target l t)
       (map_option (rewriteContinues target l) e)"
| "rewriteContinues target l (ForStmt a i c p b) = ForStmt a i c p (rewriteContinuesBlock target l b)"
| "rewriteContinues target l (SwitchStmt a i t cs) =
     SwitchStmt a i t (map (rewriteContinuesCase target l) cs)"
| "rewriteContinues target l (SelectStmt a cs) = SelectStmt a (map (rewriteContinuesComm target l) cs)"
| "rewriteContinues target l (LabeledStmt a n s) = LabeledStmt a n (rewriteContinues target l s)"
| "rewriteContinues target l s = s"
| "rewriteContinuesBlock target l (BlockStmt a ss) = BlockStmt a (map (rewriteContinues target l) ss)"
| "rewriteContinuesCase target l (CaseClause c ss) = CaseClause c (map (rewriteContinues target l) ss)"
| "rewriteContinuesComm target l (CommClause c ss) = CommClause c (map (rewriteContinues target l) ss)"

lemma rewriteContinues_size [simp]:
  "size (rewriteContinues a l s) = size s"
  "size (rewriteContinuesBlock a l b) = size b"
  "size (rewriteContinuesCase a l cc) = size cc"
  "size (rewriteContinuesComm a l mc) = size mc"
  by (induction a l s and a l b and a l cc and a l mc
      rule: rewriteContinues_rewriteContinuesBlock_rewriteContinuesCase_rewriteContinuesComm.induct)
    (auto simp: size_list_comp_eq size_option_map_eq)

section \<open>The pass\<close>

function (sequential) tryBlock :: "forgoFuncCtx \<Rightarrow> blockStmt \<Rightarrow> tryLowerer \<Rightarrow> blockStmt \<times> tryLowerer"
and tryStmt :: "forgoFuncCtx \<Rightarrow> stmt \<Rightarrow> tryLowerer \<Rightarrow> stmt list \<times> tryLowerer"
and tryElse :: "forgoFuncCtx \<Rightarrow> stmt \<Rightarrow> tryLowerer \<Rightarrow> stmt \<times> tryLowerer"
and trySimpleStmt :: "forgoFuncCtx \<Rightarrow> stmt \<Rightarrow> stmt list \<times> tryLowerer \<Rightarrow> stmt option \<times> stmt list \<times> tryLowerer"
and tryForStmt :: "forgoFuncCtx \<Rightarrow> addr \<Rightarrow> stmt option \<Rightarrow> expr option \<Rightarrow> stmt option \<Rightarrow> blockStmt \<Rightarrow>
     tryLowerer \<Rightarrow> stmt list \<times> tryLowerer"
and tryDecl :: "forgoFuncCtx \<Rightarrow> decl \<Rightarrow> stmt list \<times> tryLowerer \<Rightarrow> decl \<times> stmt list \<times> tryLowerer"
and tryExpr :: "forgoFuncCtx \<Rightarrow> expr \<Rightarrow> stmt list \<times> tryLowerer \<Rightarrow> expr \<times> stmt list \<times> tryLowerer"
where
  "tryBlock fn (BlockStmt a ss) st =
     (case mapS (tryStmt fn) ss st of (out, st1) \<Rightarrow> (BlockStmt a (concat out), st1))"
| "tryStmt fn (BlockS b) st = (case tryBlock fn b st of (b', st1) \<Rightarrow> ([BlockS b'], st1))"
| "tryStmt fn (WithStmt x v b) st =
     (case tryExpr fn v ([], st) of (v', pre, st1) \<Rightarrow>
      case tryBlock fn b st1 of (b', st2) \<Rightarrow>
      if pre = [] then ([WithStmt x v' b'], st2)
      else ([BlockS (BlockStmt 0 (pre @ [WithStmt x v' b']))], st2))"
| "tryStmt fn (ExprStmt (TryExpr x)) st =
     (case tryExpr fn x ([], st) of (inner, pre, st1) \<Rightarrow>
      case hoistErrOnly fn inner st1 of (check, st2) \<Rightarrow> (pre @ check, st2))"
| "tryStmt fn (ExprStmt x) st =
     (case tryExpr fn x ([], st) of (x', pre, st1) \<Rightarrow> (pre @ [ExprStmt x'], st1))"
| "tryStmt fn (ReturnStmt r) st =
     (case optS (tryExpr fn) r ([], st) of (r', pre, st1) \<Rightarrow> (pre @ [ReturnStmt r'], st1))"
| "tryStmt fn (AssignStmt op l r) st =
     (case optS (tryExpr fn) r ([], st) of (r', pre, st1) \<Rightarrow> (pre @ [AssignStmt op l r'], st1))"
| "tryStmt fn (SendStmt c v) st =
     (case tryExpr fn c ([], st) of (c', ps1) \<Rightarrow>
      case tryExpr fn v ps1 of (v', pre, st2) \<Rightarrow> (pre @ [SendStmt c' v'], st2))"
| "tryStmt fn (IfStmt i c t e) st =
     (case (case i of None \<Rightarrow> (None, [], st) | Some s \<Rightarrow> trySimpleStmt fn s ([], st)) of (i', ps1) \<Rightarrow>
      case tryExpr fn c ps1 of (c', pre, st2) \<Rightarrow>
      case tryBlock fn t st2 of (t', st3) \<Rightarrow>
      case optS (tryElse fn) e st3 of (e', st4) \<Rightarrow>
      (pre @ [IfStmt i' c' t' e'], st4))"
| "tryStmt fn (ForStmt a i c p b) st = tryForStmt fn a i c p b st"
| "tryStmt fn (LabeledStmt a l s) st =
     (case tryStmt fn s st of (out, st1) \<Rightarrow>
      if length out \<noteq> 1
      then ([LabeledStmt a l (if isTryStmt s then s else last out)], tryErrorf (TryHoistsBeforeLabel l) st1)
      else ([LabeledStmt a l (hd out)], st1))"
| "tryStmt fn (DeclStmt ds) st =
     (case mapS (tryDecl fn) ds ([], st) of (ds', pre, st1) \<Rightarrow> (pre @ [DeclStmt ds'], st1))"
| "tryStmt fn s st = ([s], st)"
| "tryElse fn (BlockS b) st = (case tryBlock fn b st of (b', st1) \<Rightarrow> (BlockS b', st1))"
| "tryElse fn (IfStmt i c t e) st =
     (case tryStmt fn (IfStmt i c t e) st of (out, st1) \<Rightarrow> (last out, st1))"
| "tryElse fn s st = (s, st)"
| "trySimpleStmt fn s ps =
     (case tryStmt fn s (snd ps) of (out, st1) \<Rightarrow>
      if isSimpleStmt (last out) then (Some (last out), fst ps @ butlast out, st1)
      else (None, fst ps @ out, st1))"
| "tryForStmt fn a i c p b st =
     (case (case i of
          None \<Rightarrow> (None, [], st)
        | Some s \<Rightarrow> if isRangeClause s then (Some s, [], st) else trySimpleStmt fn s ([], st)) of (i', pre, st1) \<Rightarrow>
      if \<not> containsTry c \<and> \<not> containsTry (simpleStmtExpr p) then
        (case tryBlock fn b st1 of (b', st2) \<Rightarrow> (pre @ [ForStmt a i' c p b'], st2))
      else
        (case tempName st1 of (tmp, st2) \<Rightarrow>
         let postLabel = tmp @ ''_post'' in
         case tryBlock fn (rewriteContinuesBlock a postLabel b) st2 of (b', st3) \<Rightarrow>
         case (case c of None \<Rightarrow> ([], st3) | Some c0 \<Rightarrow>
             (case tryExpr fn c0 ([], st3) of (condVal, condPre, st4) \<Rightarrow>
               (condPre @ [IfStmt None (Operation OpNot condVal None)
                  (BlockStmt 0 [BranchStmt Break None None]) None], st4))) of (cond, st4) \<Rightarrow>
         case (case p of None \<Rightarrow> ([EmptyStmt], st4) | Some p0 \<Rightarrow> tryStmt fn p0 st4) of (post, st5) \<Rightarrow>
         (pre @ [ForStmt a i' None None (BlockStmt 0
            (cond @ blockList b' @ LabeledStmt 0 postLabel (hd post) # tl post))], st5)))"
| "tryDecl fn (VarDecl ns t v) ps = (case optS (tryExpr fn) v ps of (v', ps1) \<Rightarrow> (VarDecl ns t v', ps1))"
| "tryDecl fn (ConstDecl ns t v) ps = (case optS (tryExpr fn) v ps of (v', ps1) \<Rightarrow> (ConstDecl ns t v', ps1))"
| "tryDecl fn d ps = (d, ps)"
| "tryExpr fn (TryExpr x) ps = (case tryExpr fn x ps of (inner, ps1) \<Rightarrow> hoistValue fn inner ps1)"
| "tryExpr fn (ParenExpr x) ps = (case tryExpr fn x ps of (x', ps1) \<Rightarrow> (ParenExpr x', ps1))"
| "tryExpr fn (ListExpr es) ps = (case mapS (tryExpr fn) es ps of (es', ps1) \<Rightarrow> (ListExpr es', ps1))"
| "tryExpr fn (Operation op x y) ps =
     (case tryExpr fn x ps of (x', ps1) \<Rightarrow>
      case optS (tryExpr fn) y ps1 of (y', ps2) \<Rightarrow> (Operation op x' y', ps2))"
| "tryExpr fn (SelectorExpr x sel) ps = (case tryExpr fn x ps of (x', ps1) \<Rightarrow> (SelectorExpr x' sel, ps1))"
| "tryExpr fn (IndexExpr x i) ps =
     (case tryExpr fn x ps of (x', ps1) \<Rightarrow>
      case tryExpr fn i ps1 of (i', ps2) \<Rightarrow> (IndexExpr x' i', ps2))"
| "tryExpr fn (CallExpr f args d) ps =
     (case tryExpr fn f ps of (f', ps1) \<Rightarrow>
      case mapS (tryExpr fn) args ps1 of (args', ps2) \<Rightarrow> (CallExpr f' args' d, ps2))"
| "tryExpr fn (FuncLit t b) ps =
     (case tryBlock (forgoFuncCtxOf t) b (snd ps) of (b', st1) \<Rightarrow> (FuncLit t b', fst ps, st1))"
| "tryExpr fn e ps = (e, ps)"
  by pat_completeness auto

termination
  by (relation "measure (case_sum
        (case_sum (\<lambda>(_, b, _). 3 * size b) (case_sum (\<lambda>(_, s, _). 3 * size s) (\<lambda>(_, s, _). 3 * size s + 1)))
        (case_sum (case_sum (\<lambda>(_, s, _). 3 * size s + 1) (\<lambda>(_, a, i, c, p, b, _). 3 * size (ForStmt a i c p b) - 1))
           (case_sum (\<lambda>(_, d, _). 3 * size d) (\<lambda>(_, e, _). 3 * size e))))")
    (auto dest: child_sizes(1))


section \<open>Diagnostics accumulate and the counter grows\<close>

definition tryBelow :: "tryLowerer \<Rightarrow> tryLowerer \<Rightarrow> bool" where
  "tryBelow st st' \<longleftrightarrow> tryN st \<le> tryN st' \<and> prefix (tryErrs st) (tryErrs st')"

lemma tryBelow_refl: "tryBelow st st"
  by (simp add: tryBelow_def)

lemma tryBelow_trans: "tryBelow s t \<Longrightarrow> tryBelow t u \<Longrightarrow> tryBelow s u"
  by (auto simp: tryBelow_def)

lemma tryErrorf_below: "tryBelow s0 st \<Longrightarrow> tryBelow s0 (tryErrorf e st)"
  by (auto simp: tryBelow_def tryErrorf_def)

lemma tempName_below: "tryBelow s0 st \<Longrightarrow> tryBelow s0 (snd (tempName st))"
  by (auto simp: tryBelow_def tempName_def Let_def)

lemma needErrName_below: "tryBelow s0 st \<Longrightarrow> tryBelow s0 (snd (needErrName fn st))"
  by (auto simp: needErrName_def tryErrorf_below)

lemma hoistValue_below: "tryBelow s0 (snd ps) \<Longrightarrow> tryBelow s0 (snd (snd (hoistValue fn x ps)))"
  by (simp add: hoistValue_def case_prod_beta tempName_below needErrName_below)

lemma hoistErrOnly_below: "tryBelow s0 st \<Longrightarrow> tryBelow s0 (snd (hoistErrOnly fn x st))"
  by (simp add: hoistErrOnly_def case_prod_beta tempName_below needErrName_below)

lemmas try_chain =
  mapS_inv_all [where I = "tryBelow s0" for s0] optS_inv_all [where I = "tryBelow s0" for s0]
  mapS_inv_all [where I = "\<lambda>u. tryBelow s0 (snd u)" for s0]
  optS_inv_all [where I = "\<lambda>u. tryBelow s0 (snd u)" for s0]

section \<open>Slots\<close>

fun badSlot :: "node \<Rightarrow> bool" where
  "badSlot (NStmt (IfStmt (Some i) _ _ _)) = (\<not> isSimpleStmt i)"
| "badSlot (NStmt (ForStmt _ i _ p _)) = (\<not> pred_option isSimpleStmt i \<or> \<not> pred_option isSimpleStmt p)"
| "badSlot _ = False"

fun skippedTry :: "node \<Rightarrow> node list" where
  "skippedTry (NExpr e) = (case e of
       FuncLit t b \<Rightarrow> [NFuncType t]
     | TryExpr _ \<Rightarrow> [] | ParenExpr _ \<Rightarrow> [] | ListExpr _ \<Rightarrow> [] | Operation _ _ _ \<Rightarrow> []
     | SelectorExpr _ _ \<Rightarrow> [] | IndexExpr _ _ \<Rightarrow> [] | CallExpr _ _ _ \<Rightarrow> []
     | _ \<Rightarrow> children (NExpr e))"
| "skippedTry (NStmt s) = (case s of
       AssignStmt _ l _ \<Rightarrow> [NExpr l]
     | LabeledStmt _ _ t \<Rightarrow> if isTryStmt t then [NStmt t] else []
     | IfStmt _ _ _ (Some e) \<Rightarrow>
         (case e of BlockS _ \<Rightarrow> [] | IfStmt _ _ _ _ \<Rightarrow> [] | _ \<Rightarrow> [NStmt e])
     | ForStmt _ _ c p _ \<Rightarrow>
         if containsTry c \<or> containsTry (simpleStmtExpr p) then [] else map NStmt (opt_list p)
     | CallStmt _ _ _ \<Rightarrow> children (NStmt s) | ThrowStmt _ \<Rightarrow> children (NStmt s)
     | PostfixIfStmt _ _ \<Rightarrow> children (NStmt s) | SwitchStmt _ _ _ _ \<Rightarrow> children (NStmt s)
     | SelectStmt _ _ \<Rightarrow> children (NStmt s) | RangeClause _ _ _ \<Rightarrow> children (NStmt s)
     | _ \<Rightarrow> [])"
| "skippedTry (NDecl d) = (case d of
       VarDecl _ t _ \<Rightarrow> map NExpr (opt_list t)
     | ConstDecl _ t _ \<Rightarrow> map NExpr (opt_list t)
     | _ \<Rightarrow> children (NDecl d))"
| "skippedTry _ = []"

abbreviation hidesTry :: "node \<Rightarrow> bool" where
  "hidesTry \<equiv> hides skippedTry isTry"

lemma tryElse_cases:
  "tryElse fn s st = (last (fst (tryStmt fn s st)), snd (tryStmt fn s st)) \<or>
   tryElse fn s st = (s, st) \<and> skippedTry (NStmt (IfStmt i c t (Some s))) = [NStmt s]"
proof (cases s)
  case IfStmt
  then show ?thesis by (simp add: case_prod_beta del: tryStmt.simps)
qed (auto simp: case_prod_beta)

lemma tryElse_below:
  "\<forall>fn st s0. tryBelow s0 st \<longrightarrow> tryBelow s0 (snd (tryStmt fn s st)) \<Longrightarrow> tryBelow s0 st \<Longrightarrow>
   tryBelow s0 (snd (tryElse fn s st))"
  using tryElse_cases [of fn s st] by auto

lemma try_below:
  "\<forall>fn ps s0. tryBelow s0 (snd ps) \<longrightarrow> tryBelow s0 (snd (snd (tryExpr fn e ps)))"
  "\<forall>fn st s0. tryBelow s0 st \<longrightarrow> tryBelow s0 (snd (tryStmt fn s st))"
  "\<forall>fn st s0. tryBelow s0 st \<longrightarrow> tryBelow s0 (snd (tryBlock fn b st))"
  "\<forall>fn ps s0. tryBelow s0 (snd ps) \<longrightarrow> tryBelow s0 (snd (snd (tryDecl fn d ps)))"
  supply split_paired_All [simp del]
proof (induction e and s and b and d rule: tree_size_induct)
  case (Expr e)
  then show ?case
   by (cases e) (simp_all add: case_prod_beta hoistValue_below try_chain)
next
  case (Stmt s)
  show ?case 
  proof (cases s)
    case (ExprStmt x)
    then show ?thesis
      using Stmt by (cases x) (simp_all add: case_prod_beta try_chain hoistErrOnly_below hoistValue_below)
  next
    case (IfStmt i c t e)
    have e: "tryBelow s0 u \<Longrightarrow> tryBelow s0 (snd (optS (tryElse fn) e u))" for fn u s0
      using Stmt IfStmt by (cases e) (simp_all add: case_prod_beta tryElse_below)
    show ?thesis
      using Stmt IfStmt e by (cases i) (simp_all add: case_prod_beta)
  next
    case (ForStmt a i c p b)
    then show ?thesis
      using Stmt by (cases i; cases c; cases p) (simp_all add: case_prod_beta Let_def tempName_below)
  qed (use Stmt in \<open>simp_all add: case_prod_beta try_chain tryErrorf_below\<close>)
next
  case (Block b)
  then show ?case by (cases b) (simp add: case_prod_beta try_chain)
next
  case (Decl d)
  then show ?case by (cases d) (simp_all add: case_prod_beta try_chain)
qed

lemma containsTry_anyNode: "containsTry e \<longleftrightarrow> (\<exists>x. e = Some x \<and> anyNode isTry (NExpr x))"
  by (auto simp: containsTry_def walk_findV split: option.splits)

lemma containsTry_post:
  "(\<And>s. p = Some s \<Longrightarrow> \<not> anyNode isTry (NStmt s)) \<Longrightarrow> \<not> containsTry (simpleStmtExpr p)"
  by (cases p rule: simpleStmtExpr.cases) (auto simp: containsTry_anyNode)

lemma tryStmt_ExprStmt:
  "\<not> isTryStmt (ExprStmt x) \<Longrightarrow> tryStmt fn (ExprStmt x) st =
     (case tryExpr fn x ([], st) of (x', pre, st1) \<Rightarrow> (pre @ [ExprStmt x'], st1))"
  by (cases x) (simp_all del: tryExpr.simps)

lemma isTryStmt_E: "isTryStmt s \<Longrightarrow> (\<And>x. s = ExprStmt (TryExpr x) \<Longrightarrow> P) \<Longrightarrow> P"
  by (cases s rule: isTryStmt.cases) auto

lemma try_same:
  "\<forall>fn ps. \<not> anyNode isTry (NExpr e) \<longrightarrow> \<not> anyNode badSlot (NExpr e) \<longrightarrow> tryExpr fn e ps = (e, ps)"
  "\<forall>fn st. \<not> anyNode isTry (NStmt s) \<longrightarrow> \<not> anyNode badSlot (NStmt s) \<longrightarrow> tryStmt fn s st = ([s], st)"
  "\<forall>fn st. \<not> anyNode isTry (NBlock b) \<longrightarrow> \<not> anyNode badSlot (NBlock b) \<longrightarrow> tryBlock fn b st = (b, st)"
  "\<forall>fn ps. \<not> anyNode isTry (NDecl d) \<longrightarrow> \<not> anyNode badSlot (NDecl d) \<longrightarrow> tryDecl fn d ps = (d, ps)"
  supply split_paired_All [simp del]
proof (induction e and s and b and d rule: tree_size_induct)
  case (Expr e)
  then show ?case
    by (cases e) (simp_all add: optS_id_all mapS_map_all [where g = "\<lambda>x. x"])
next
  case (Stmt s)
  show ?case
  proof (cases s)
    case (ExprStmt x)
    have "\<not> anyNode isTry (NExpr x) \<longrightarrow> \<not> isTryStmt s" using ExprStmt by (auto elim!: isTryStmt_E)
    then show ?thesis using Stmt ExprStmt by (auto simp: tryStmt_ExprStmt simp del: tryStmt.simps)
  next
    case (IfStmt i c t e)
    have "tryElse fn x u = (x, u)" if "e = Some x" "\<not> anyNode isTry (NStmt s)" "\<not> anyNode badSlot (NStmt s)" for x fn u
      using tryElse_cases [of fn x u] Stmt(2) [of x] that IfStmt by auto
    then show ?thesis
      using Stmt IfStmt by (cases i) (simp_all add: optS_id_all)
  next
    case (ForStmt a i c p b)
    then show ?thesis
      using Stmt containsTry_post [of p] containsTry_anyNode [of c] by (cases i) auto
  qed (use Stmt in \<open>simp_all add: optS_id_all mapS_map_all [where g = "\<lambda>x. x"]\<close>)
next
  case (Block b)
  then show ?case by (cases b) (simp add: mapS_map_all [where g = "\<lambda>x. [x]"])
next
  case (Decl d)
  then show ?case by (cases d) (simp_all add: optS_id_all)
qed

lemma rewriteContinues_isTry:
  "anyNode isTry (NStmt (rewriteContinues a l s)) = anyNode isTry (NStmt s)"
  "anyNode isTry (NBlock (rewriteContinuesBlock a l b)) = anyNode isTry (NBlock b)"
  "anyNode isTry (NCase (rewriteContinuesCase a l cc)) = anyNode isTry (NCase cc)"
  "anyNode isTry (NComm (rewriteContinuesComm a l mc)) = anyNode isTry (NComm mc)"
  by (induction a l s and a l b and a l cc and a l mc
      rule: rewriteContinues_rewriteContinuesBlock_rewriteContinuesCase_rewriteContinuesComm.induct)
    auto

lemma rewriteContinues_simple: "isSimpleStmt (rewriteContinues a l s) = isSimpleStmt s"
  by (cases s) auto

lemma rewriteContinues_slots:
  "anyNode badSlot (NStmt (rewriteContinues a l s)) = anyNode badSlot (NStmt s)"
  "anyNode badSlot (NBlock (rewriteContinuesBlock a l b)) = anyNode badSlot (NBlock b)"
  "anyNode badSlot (NCase (rewriteContinuesCase a l cc)) = anyNode badSlot (NCase cc)"
  "anyNode badSlot (NComm (rewriteContinuesComm a l mc)) = anyNode badSlot (NComm mc)"
proof (induction a l s and a l b and a l cc and a l mc
      rule: rewriteContinues_rewriteContinuesBlock_rewriteContinuesCase_rewriteContinuesComm.induct)
  case (3 target l i c t e)
  then show ?case by (cases i) (auto simp: rewriteContinues_simple)
qed auto

lemma rewriteContinues_isTryStmt: "isTryStmt (rewriteContinues a l s) = isTryStmt s"
  by (cases s) auto

lemma rewriteContinues_hides:
  "hidesTry (NStmt (rewriteContinues a l s)) = hidesTry (NStmt s)"
  "hidesTry (NBlock (rewriteContinuesBlock a l b)) = hidesTry (NBlock b)"
  "hidesTry (NCase (rewriteContinuesCase a l cc)) = hidesTry (NCase cc)"
  "hidesTry (NComm (rewriteContinuesComm a l mc)) = hidesTry (NComm mc)"
proof (induction a l s and a l b and a l cc and a l mc
      rule: rewriteContinues_rewriteContinuesBlock_rewriteContinuesCase_rewriteContinuesComm.induct)
  case (3 target l i c t e)
  have "list_ex (anyNode isTry) (skippedTry (NStmt (rewriteContinues target l (IfStmt i c t e))))
     = list_ex (anyNode isTry) (skippedTry (NStmt (IfStmt i c t e)))"
  proof (cases e)
    case (Some x)
    then show ?thesis by (cases x) (simp_all add: rewriteContinues_isTry)
  qed simp
  with 3 show ?case by (auto simp: hides_def)
qed (auto simp: hides_def list_ex_iff ball_Un rewriteContinues_isTry rewriteContinues_isTryStmt)

lemma tryStmt_nonempty: "fst (tryStmt fn s st) \<noteq> []"
proof (cases s)
  case (ExprStmt x)
  then show ?thesis
    by (cases x) (simp_all add: case_prod_beta hoistErrOnly_def del: tryExpr.simps)
qed (simp_all add: case_prod_beta Let_def)

abbreviation tryFree :: "node \<Rightarrow> bool" where
  "tryFree n \<equiv> \<not> anyNode isTry n \<and> \<not> anyNode badSlot n"

definition tryClean :: "stmt list \<Rightarrow> bool" where
  "tryClean ss \<longleftrightarrow> (\<forall>s \<in> set ss. tryFree (NStmt s))"

lemma tryClean_simps [simp]:
  "tryClean []" "tryClean (s # ss) \<longleftrightarrow> tryFree (NStmt s) \<and> tryClean ss"
  "tryClean (ss @ ts) \<longleftrightarrow> tryClean ss \<and> tryClean ts"
  by (auto simp: tryClean_def)

lemma errCheck_clean: "tryFree (NStmt (forgoErrCheck fn e))"
  by (simp add: forgoErrCheck_def)

lemma hoistValue_clean:
  "tryFree (NExpr x) \<Longrightarrow> tryClean (fst ps) \<Longrightarrow>
   tryFree (NExpr (fst (hoistValue fn x ps))) \<and> tryClean (fst (snd (hoistValue fn x ps)))"
  by (simp add: hoistValue_def case_prod_beta errCheck_clean)

lemma hoistErrOnly_clean: "tryFree (NExpr x) \<Longrightarrow> tryClean (fst (hoistErrOnly fn x st))"
  by (simp add: hoistErrOnly_def case_prod_beta errCheck_clean)

lemma mapS_clean:
  "\<forall>x \<in> set xs. size x \<le> size_list size xs \<longrightarrow>
      (\<forall>u. tryClean (fst u) \<longrightarrow> C (fst (f x u)) \<and> tryClean (fst (snd (f x u)))) \<Longrightarrow>
   tryClean (fst ps) \<Longrightarrow>
   (\<forall>y \<in> set (fst (mapS f xs ps)). C y) \<and> tryClean (fst (snd (mapS f xs ps)))"
proof (induction xs arbitrary: ps)
  case (Cons x xs)
  have s: "size y \<le> size_list size (x # xs)" if "y \<in> set (x # xs)" for y
    using in_list_size [OF that, of size] by simp
  have x: "tryClean (fst u) \<longrightarrow> C (fst (f y u)) \<and> tryClean (fst (snd (f y u)))" if "y \<in> set (x # xs)" for u y
    using Cons.prems(1) that s by blast
  show ?case
    using Cons.IH [of "snd (f x ps)"] x [of x] x Cons.prems(2) by (simp add: case_prod_beta)
qed simp

lemma optS_clean:
  "\<forall>x \<in> set_option o'. size x \<le> size_option size o' \<longrightarrow>
      (\<forall>u. tryClean (fst u) \<longrightarrow> C (fst (f x u)) \<and> tryClean (fst (snd (f x u)))) \<Longrightarrow>
   tryClean (fst ps) \<Longrightarrow>
   (\<forall>y. fst (optS f o' ps) = Some y \<longrightarrow> C y) \<and> tryClean (fst (snd (optS f o' ps)))"
  by (cases o') (auto simp: case_prod_beta simp del: split_paired_All)

lemma clean_chain:
  assumes "\<forall>x \<in> set xs. size x \<le> size_list size xs \<longrightarrow>
      (\<forall>u. tryClean (fst u) \<longrightarrow> tryFree (N (fst (f x u))) \<and> tryClean (fst (snd (f x u))))"
    and "tryClean (fst ps)"
  shows "(\<forall>y \<in> set (fst (mapS f xs ps)). \<not> anyNode isTry (N y)) = True"
    and "(\<forall>y \<in> set (fst (mapS f xs ps)). \<not> anyNode badSlot (N y)) = True"
    and "tryClean (fst (snd (mapS f xs ps)))"
  using mapS_clean [of xs "\<lambda>x. tryFree (N x)" f ps] assms by auto

lemma clean_chain_opt:
  assumes "\<forall>x \<in> set_option o'. size x \<le> size_option size o' \<longrightarrow>
      (\<forall>u. tryClean (fst u) \<longrightarrow> tryFree (N (fst (f x u))) \<and> tryClean (fst (snd (f x u))))"
    and "tryClean (fst ps)"
  shows "(\<forall>y. fst (optS f o' ps) = Some y \<longrightarrow> \<not> anyNode isTry (N y)) = True"
    and "(\<forall>y. fst (optS f o' ps) = Some y \<longrightarrow> \<not> anyNode badSlot (N y)) = True"
    and "tryClean (fst (snd (optS f o' ps)))"
  using optS_clean [of o' "\<lambda>x. tryFree (N x)" f ps] assms by auto

lemmas clean_chains = clean_chain [where N = NExpr] clean_chain_opt [where N = NExpr] clean_chain [where N = NDecl]

lemma hidesTry_BlockS: "hidesTry (NStmt (BlockS b)) = hidesTry (NBlock b)"
  by (simp add: hides_def)

lemma tryClean_block:
  "tryClean ss \<Longrightarrow> (\<forall>s \<in> set ss. \<not> anyNode isTry (NStmt s)) = True"
  "tryClean ss \<Longrightarrow> (\<forall>s \<in> set ss. \<not> anyNode badSlot (NStmt s)) = True"
  by (auto simp: tryClean_def)

lemma tryClean_last: "tryClean ss \<Longrightarrow> ss \<noteq> [] \<Longrightarrow> tryFree (NStmt (last ss)) \<and> tryFree (NStmt (hd ss))
    \<and> tryClean (butlast ss) \<and> tryClean (tl ss)"
  by (auto simp: tryClean_def dest: in_set_butlastD list.set_sel(2))

lemma tryClean_concat: "tryClean (concat sss) \<longleftrightarrow> (\<forall>ss \<in> set sss. tryClean ss)"
  by (auto simp: tryClean_def)

lemma tryElse_clean:
  assumes "tryClean (fst (tryStmt fn s st))" and "\<not> list_ex (anyNode isTry) (skippedTry (NStmt (IfStmt i c t (Some s))))"
    and "\<not> anyNode badSlot (NStmt s)"
  shows "tryFree (NStmt (fst (tryElse fn s st)))"
  using assms tryClean_last [OF assms(1) tryStmt_nonempty] tryElse_cases [of fn s st i c t] by auto

lemma trySimple_clean:
  assumes "tryClean (fst (tryStmt fn s (snd ps)))" and "tryClean (fst ps)"
  shows "tryClean (fst (snd (trySimpleStmt fn s ps)))"
    and "fst (trySimpleStmt fn s ps) = Some y \<Longrightarrow> tryFree (NStmt y) \<and> isSimpleStmt y"
  using assms tryClean_last [OF assms(1) tryStmt_nonempty]
  by (auto simp: case_prod_beta split: if_splits)

lemma range_clean:
  "isRangeClause s \<Longrightarrow> \<not> hidesTry (NStmt s) \<Longrightarrow> \<not> anyNode badSlot (NStmt s) \<Longrightarrow> tryFree (NStmt s)"
  by (cases s rule: isRangeClause.cases) (auto simp: hides_def)

lemma blockList_clean: "tryFree (NBlock b) \<Longrightarrow> tryClean (blockList b)"
  by (cases b) (auto simp: tryClean_def)

lemma try_lowered:
  "\<forall>fn ps. \<not> hidesTry (NExpr e) \<longrightarrow> \<not> anyNode badSlot (NExpr e) \<longrightarrow> tryClean (fst ps) \<longrightarrow>
     tryFree (NExpr (fst (tryExpr fn e ps))) \<and> tryClean (fst (snd (tryExpr fn e ps)))"
  "\<forall>fn st. \<not> hidesTry (NStmt s) \<longrightarrow> \<not> anyNode badSlot (NStmt s) \<longrightarrow> tryClean (fst (tryStmt fn s st))"
  "\<forall>fn st. \<not> hidesTry (NBlock b) \<longrightarrow> \<not> anyNode badSlot (NBlock b) \<longrightarrow>
     tryFree (NBlock (fst (tryBlock fn b st)))"
  "\<forall>fn ps. \<not> hidesTry (NDecl d) \<longrightarrow> \<not> anyNode badSlot (NDecl d) \<longrightarrow> tryClean (fst ps) \<longrightarrow>
     tryFree (NDecl (fst (tryDecl fn d ps))) \<and> tryClean (fst (snd (tryDecl fn d ps)))"
  supply split_paired_All [simp del]
proof (induction e and s and b and d rule: tree_size_induct)
  case (Expr e)
  show ?case
  proof (cases e)
    case (FuncTypeE t)
    then show ?thesis
      using Expr hides_rec [of skippedTry isTry "NExpr e"] by (cases t) (simp add: list_ex_iff ball_Un)
  qed (use Expr hides_rec [of skippedTry isTry "NExpr e"] in
      \<open>simp_all add: case_prod_beta hoistValue_clean clean_chains list_ex_iff ball_Un\<close>)
next
  case (Stmt s)
  note rec = hides_rec [of skippedTry isTry "NStmt s"]
  show ?case
  proof (cases s)
    case (ExprStmt x)
    show ?thesis
    proof (cases "isTryStmt s")
      case True
      then obtain y where x: "x = TryExpr y" using ExprStmt by (auto elim: isTryStmt_E)
      then show ?thesis
        using Stmt ExprStmt rec hides_rec [of skippedTry isTry "NExpr x"]
        by (simp add: case_prod_beta hoistErrOnly_clean)
    next
      case False
      then show ?thesis
        using Stmt ExprStmt rec by (simp add: tryStmt_ExprStmt case_prod_beta del: tryStmt.simps)
    qed
  next
    case (IfStmt i c t e)
    have "tryClean (fst (tryStmt fn s st))" if nh: "\<not> hidesTry (NStmt s)" and nb: "\<not> anyNode badSlot (NStmt s)" for fn st
    proof -
      let ?i = "case i of None \<Rightarrow> (None, [], st) | Some x \<Rightarrow> trySimpleStmt fn x ([], st)"
      have i: "tryClean (fst (snd ?i)) \<and> (\<forall>y. fst ?i = Some y \<longrightarrow> tryFree (NStmt y) \<and> isSimpleStmt y)"
      proof (cases i)
        case (Some x)
        have "tryClean (fst (tryStmt fn x st))" using Stmt(2) [of x] IfStmt Some rec nh nb by simp
        then show ?thesis using Some trySimple_clean [of fn x "([], st)"] by (simp del: trySimpleStmt.simps)
      qed simp
      have c: "\<not> hidesTry (NExpr c)" "\<not> anyNode badSlot (NExpr c)" "\<not> hidesTry (NBlock t)" "\<not> anyNode badSlot (NBlock t)"
        using IfStmt rec nh nb by (auto simp: list_ex_iff ball_Un)
      have e: "tryFree (NStmt (fst (tryElse fn x u)))" if "e = Some x" for x u
        using tryElse_clean [of fn x u i c t] Stmt(2) [of x] IfStmt rec nh nb that by simp
      have e': "(\<forall>y. fst (optS (tryElse fn) e u) = Some y \<longrightarrow> tryFree (NStmt y))" for u
        using e by (auto dest!: optS_Some)
      show ?thesis
        using IfStmt i c e' Stmt(1) [of c] Stmt(3) [of t] by (cases "fst ?i") (simp_all add: case_prod_beta)
    qed
    then show ?thesis by blast
  next
    case (ForStmt a i c p b)
    have "tryClean (fst (tryStmt fn s st))" if nh: "\<not> hidesTry (NStmt s)" and nb: "\<not> anyNode badSlot (NStmt s)" for fn st
    proof -
      let ?i = "case i of None \<Rightarrow> (None, [], st)
        | Some x \<Rightarrow> if isRangeClause x then (Some x, [], st) else trySimpleStmt fn x ([], st)"
      have i: "tryClean (fst (snd ?i)) \<and> (\<forall>y. fst ?i = Some y \<longrightarrow> tryFree (NStmt y) \<and> isSimpleStmt y)"
      proof (cases i)
        case (Some x)
        have x: "tryClean (fst (tryStmt fn x st))" "\<not> hidesTry (NStmt x)" "\<not> anyNode badSlot (NStmt x)" "isSimpleStmt x"
          using Stmt(2) [of x] ForStmt Some rec nh nb by simp_all
        then show ?thesis
          using Some trySimple_clean [of fn x "([], st)"] range_clean [of x] by (simp del: trySimpleStmt.simps)
      qed simp
      have b: "\<not> hidesTry (NBlock b)" "\<not> anyNode badSlot (NBlock b)"
        using ForStmt rec nh nb by (auto simp: list_ex_iff ball_Un)
      have b': "tryFree (NBlock (fst (tryBlock fn b u)))"
        "tryFree (NBlock (fst (tryBlock fn (rewriteContinuesBlock a l b) u)))" for l u
        using Stmt(3) [of b] Stmt(3) [of "rewriteContinuesBlock a l b"] ForStmt b
        by (simp_all add: rewriteContinues_hides rewriteContinues_slots)
      have c: "tryFree (NExpr (fst (tryExpr fn x ([], u))))" "tryClean (fst (snd (tryExpr fn x ([], u))))"
        if "c = Some x" for x u
        using Stmt(1) [of x] that ForStmt rec nh nb by simp_all
      have p: "tryClean (fst (tryStmt fn x u))" if "p = Some x" for x u
        using Stmt(2) [of x] that ForStmt rec nh nb by simp
      have p': "tryFree (NStmt (hd (fst (tryStmt fn x u))))" "tryClean (tl (fst (tryStmt fn x u)))"
        if "p = Some x" for x u
        using p [OF that] tryClean_last [OF _ tryStmt_nonempty] by blast+
      have c': "tryFree (NExpr x)" if "\<not> containsTry c" "c = Some x" for x
        using that nb ForStmt by (auto simp: containsTry_anyNode)
      have p'': "tryFree (NStmt x)" if "\<not> containsTry c \<and> \<not> containsTry (simpleStmtExpr p)" "p = Some x" for x
        using that nh nb rec ForStmt by simp
      have simple: "pred_option isSimpleStmt p" using nb ForStmt by simp
      show ?thesis
      proof (cases "\<not> containsTry c \<and> \<not> containsTry (simpleStmtExpr p)")
        case True
        then have "tryFree (NStmt (ForStmt a (fst ?i) c p (fst (tryBlock fn b u))))" for u
          using i b'(1) [of u] simple c' p'' by (auto simp: option.pred_set)
        then show ?thesis using True ForStmt i by (simp add: case_prod_beta del: anyNode_stmt)
      next
        case False
        then have "(\<not> containsTry c \<and> \<not> containsTry (simpleStmtExpr p)) = False" by simp
        then show ?thesis
          using ForStmt i b'(2) blockList_clean [OF b'(2)] c p'
          by (cases c; cases p; simp add: case_prod_beta Let_def tryClean_block option.pred_set ball_Un
                del: tryExpr.simps trySimpleStmt.simps; blast)
      qed
    qed
    then show ?thesis by blast
  next
    case (LabeledStmt a l t)
    have "tryClean (fst (tryStmt fn t st))" if "\<not> hidesTry (NStmt s)" "\<not> anyNode badSlot (NStmt s)" for fn st
      using Stmt(2) [of t] that rec LabeledStmt by simp
    then show ?thesis
      using LabeledStmt rec tryClean_last tryStmt_nonempty
      by (auto simp: case_prod_beta elim!: isTryStmt_E)
  next
    case (BlockS b)
    then show ?thesis using Stmt by (simp add: hidesTry_BlockS case_prod_beta)
  next
    case (WithStmt x v b)
    then show ?thesis using Stmt rec by (simp add: case_prod_beta tryClean_block)
  qed (use Stmt rec in \<open>simp_all add: case_prod_beta clean_chains list_ex_iff ball_Un\<close>)
next
  case (Block b)
  show ?case
  proof (cases b)
    case (BlockStmt a ss)
    have "tryClean (fst (tryStmt fn t st))" if "t \<in> set ss" "\<not> hidesTry (NBlock b)" "\<not> anyNode badSlot (NBlock b)" for t fn st
      using Block [of t] that hides_rec [of skippedTry isTry "NBlock b"] BlockStmt in_list_size [of t ss size]
      by (simp add: list_ex_iff)
    then have "tryClean (concat (fst (mapS (tryStmt fn) ss st)))"
      if "\<not> hidesTry (NBlock b)" "\<not> anyNode badSlot (NBlock b)" for fn st
      using that by (auto simp: tryClean_concat dest!: mapS_set)
    then show ?thesis
      using BlockStmt by (simp add: case_prod_beta tryClean_block flip: set_concat)
  qed
next
  case (Decl d)
  then show ?case
    using hides_rec [of skippedTry isTry "NDecl d"]
    by (cases d) (simp_all add: case_prod_beta clean_chains list_ex_iff ball_Un)
qed

section \<open>The whole package\<close>

fun tryFuncDecl :: "decl \<Rightarrow> tryLowerer \<Rightarrow> decl \<times> tryLowerer" where
  "tryFuncDecl (FuncDecl pr r n tps t (Some b)) st =
     (case tryBlock (forgoFuncCtxOf t) b st of (b', st1) \<Rightarrow> (FuncDecl pr r n tps t (Some b'), st1))"
| "tryFuncDecl d st = (d, st)"

definition forgoLowerTry ::
  "decl list option list \<Rightarrow> tryError list \<Rightarrow> tryError list + decl list option list" where
  "forgoLowerTry noders errs =
     (case mapS (optS (mapS tryFuncDecl)) noders \<lparr>tryN = 0, tryErrs = errs\<rparr> of
        (out, st) \<Rightarrow> if tryErrs st \<noteq> [] then Inl (tryErrs st) else Inr out)"

section \<open>The contract\<close>

interpretation tryp: lowering_pass tryBelow "tryBlock fn"
  "\<lambda>b. \<not> tryFree (NBlock b)" "\<lambda>b. \<not> hidesTry (NBlock b) \<and> \<not> anyNode badSlot (NBlock b)"
  for fn
  by unfold_locales
    (auto simp: tryBelow_refl try_lowered try_same try_below intro: tryBelow_trans)

lemma tryFuncDecl_body:
  assumes "b' \<in> set (declBody (fst (tryFuncDecl d st)))"
  obtains t b u where "b \<in> set (declBody d)" and "b' = fst (tryBlock (forgoFuncCtxOf t) b u)"
  using assms by (cases "(d, st)" rule: tryFuncDecl.cases) (auto simp: case_prod_beta)

lemma tryPackage_body:
  assumes "b' \<in> set (funcBodies (fst (mapS (optS (mapS tryFuncDecl)) noders st)))"
  obtains t b u where "b \<in> set (funcBodies noders)" and "b' = fst (tryBlock (forgoFuncCtxOf t) b u)"
proof -
  obtain ds d u where "Some ds \<in> set noders" "d \<in> set ds" "b' \<in> set (declBody (fst (tryFuncDecl d u)))"
    using assms by (fastforce simp: in_funcBodies dest!: mapS_set optS_Some [OF sym])
  then show thesis using that tryFuncDecl_body by (metis in_funcBodies)
qed

section \<open>Redirected continues\<close>

fun continuesTo :: "addr \<Rightarrow> node \<Rightarrow> bool" where
  "continuesTo a (NStmt (BranchStmt Continue l t)) = (t = Some a)"
| "continuesTo a _ = False"

text \<open>The parts of a statement \<open>rewriteContinues\<close> does not enter.\<close>

fun skippedRC :: "node \<Rightarrow> node list" where
  "skippedRC (NStmt s) = (case s of
       IfStmt _ c _ _ \<Rightarrow> [NExpr c]
     | ForStmt _ i c p _ \<Rightarrow> map NStmt (opt_list i) @ map NExpr (opt_list c) @ map NStmt (opt_list p)
     | SwitchStmt _ i t _ \<Rightarrow> map NStmt (opt_list i) @ map NExpr (opt_list t)
     | BlockS _ \<Rightarrow> [] | SelectStmt _ _ \<Rightarrow> [] | LabeledStmt _ _ _ \<Rightarrow> [] | BranchStmt _ _ _ \<Rightarrow> []
     | _ \<Rightarrow> children (NStmt s))"
| "skippedRC (NCase (CaseClause c _)) = map NExpr (opt_list c)"
| "skippedRC (NComm (CommClause c _)) = map NStmt (opt_list c)"
| "skippedRC _ = []"

lemma rewriteContinues_redirects:
  "\<not> hides skippedRC (continuesTo a) (NStmt s) \<Longrightarrow> \<not> anyNode (continuesTo a) (NStmt (rewriteContinues a l s))"
  "\<not> hides skippedRC (continuesTo a) (NBlock b) \<Longrightarrow> \<not> anyNode (continuesTo a) (NBlock (rewriteContinuesBlock a l b))"
  "\<not> hides skippedRC (continuesTo a) (NCase cc) \<Longrightarrow> \<not> anyNode (continuesTo a) (NCase (rewriteContinuesCase a l cc))"
  "\<not> hides skippedRC (continuesTo a) (NComm mc) \<Longrightarrow> \<not> anyNode (continuesTo a) (NComm (rewriteContinuesComm a l mc))"
proof (induction a l s and a l b and a l cc and a l mc
      rule: rewriteContinues_rewriteContinuesBlock_rewriteContinuesCase_rewriteContinuesComm.induct)
  case (2 target l tok lab tgt)
  then show ?case by (cases tok) auto
qed (auto simp: hides_def list_ex_iff ball_Un)

section \<open>The shape of the hoisted statements\<close>

text \<open>
  \<open>tries e\<close> counts the \<open>?\<close> of \<open>e\<close> outside function literals and outside the parts the pass
  skips. \<open>hoists fn n ps ps'\<close>: going from \<open>ps\<close> to \<open>ps'\<close>, \<open>n\<close> pairs of an assignment and its error
  check were appended, each with two new temporaries, numbered in order.
\<close>

fun tries :: "expr \<Rightarrow> nat" where
  "tries (TryExpr x) = Suc (tries x)"
| "tries (ParenExpr x) = tries x"
| "tries (ListExpr es) = sum_list (map tries es)"
| "tries (Operation op x y) = tries x + sum_list (map tries (opt_list y))"
| "tries (SelectorExpr x s) = tries x"
| "tries (IndexExpr x i) = tries x + tries i"
| "tries (CallExpr f args d) = tries f + sum_list (map tries args)"
| "tries _ = 0"

fun hoistPair :: "forgoFuncCtx \<Rightarrow> nat \<times> expr \<Rightarrow> stmt list" where
  "hoistPair fn (k, x) =
     [AssignStmt (Some Def) (ListExpr [Name (tempNameOf k), Name (tempNameOf (Suc k))]) (Some x),
      forgoErrCheck (if errName fn = [] then \<lparr>errName = ''_''\<rparr> else fn) (tempNameOf (Suc k))]"

definition hoists :: "forgoFuncCtx \<Rightarrow> nat \<Rightarrow> stmt list \<times> tryLowerer \<Rightarrow> stmt list \<times> tryLowerer \<Rightarrow> bool" where
  "hoists fn n ps ps' \<longleftrightarrow> (\<exists>hs. fst ps' = fst ps @ concat (map (hoistPair fn) hs) \<and> length hs = n
     \<and> tryN (snd ps) \<le> tryN (snd ps')
     \<and> (\<forall>h \<in> set hs. tryN (snd ps) < fst h \<and> Suc (fst h) \<le> tryN (snd ps'))
     \<and> sorted_wrt (\<lambda>h h'. Suc (fst h) < fst h') hs
     \<and> length (tryErrs (snd ps)) + (if errName fn = [] then n else 0) \<le> length (tryErrs (snd ps')))"

lemma hoists_refl: "hoists fn 0 ps ps"
  by (simp add: hoists_def)

lemma hoists_trans:
  assumes "hoists fn m a b" and "hoists fn n b c"
  shows "hoists fn (m + n) a c"
proof -
  obtain hs where hs: "fst b = fst a @ concat (map (hoistPair fn) hs)" "length hs = m" "tryN (snd a) \<le> tryN (snd b)"
    "\<forall>h \<in> set hs. tryN (snd a) < fst h \<and> Suc (fst h) \<le> tryN (snd b)" "sorted_wrt (\<lambda>h h'. Suc (fst h) < fst h') hs"
    "length (tryErrs (snd a)) + (if errName fn = [] then m else 0) \<le> length (tryErrs (snd b))"
    using assms(1) by (auto simp: hoists_def)
  obtain ks where ks: "fst c = fst b @ concat (map (hoistPair fn) ks)" "length ks = n" "tryN (snd b) \<le> tryN (snd c)"
    "\<forall>h \<in> set ks. tryN (snd b) < fst h \<and> Suc (fst h) \<le> tryN (snd c)" "sorted_wrt (\<lambda>h h'. Suc (fst h) < fst h') ks"
    "length (tryErrs (snd b)) + (if errName fn = [] then n else 0) \<le> length (tryErrs (snd c))"
    using assms(2) by (auto simp: hoists_def)
  show ?thesis
    unfolding hoists_def
    using hs ks by (intro exI [of _ "hs @ ks"]) (force simp: sorted_wrt_append)
qed

lemma hoists_hoistValue: "hoists fn 1 ps (snd (hoistValue fn x ps))"
  unfolding hoists_def
  by (intro exI [of _ "[(Suc (tryN (snd ps)), x)]"])
    (simp add: hoistValue_def needErrName_def tempName_def Let_def tryErrorf_def)

lemma hoists_below: "tryBelow (snd ps) st \<Longrightarrow> hoists fn 0 ps (fst ps, st)"
  by (auto simp: hoists_def tryBelow_def prefix_length_le)

lemma hoists_mapS:
  "\<forall>x \<in> set xs. \<forall>u. hoists fn (g x) u (snd (f x u)) \<Longrightarrow> hoists fn (sum_list (map g xs)) ps (snd (mapS f xs ps))"
proof (induction xs arbitrary: ps)
  case (Cons x xs)
  then have "hoists fn (g x) ps (snd (f x ps))" "hoists fn (sum_list (map g xs)) (snd (f x ps)) (snd (mapS f xs (snd (f x ps))))"
    by (simp_all del: split_paired_All)
  then show ?case by (simp add: case_prod_beta hoists_trans)
qed (simp add: hoists_refl)

lemma hoists_optS:
  "\<forall>x \<in> set_option o'. \<forall>u. hoists fn (g x) u (snd (f x u)) \<Longrightarrow>
   hoists fn (sum_list (map g (opt_list o'))) ps (snd (optS f o' ps))"
  by (cases o') (simp_all add: case_prod_beta hoists_refl del: split_paired_All)

lemma tryExpr_hoists_aux: "\<forall>ps. hoists fn (tries e) ps (snd (tryExpr fn e ps))"
proof (induction e rule: measure_induct_rule [where f = size])
  case (less e)
  have IH: "hoists fn (tries x) ps (snd (tryExpr fn x ps))" if "size x < size e" for x ps
    using less that by blast
  note chain = hoists_refl hoists_mapS hoists_optS hoists_trans hoists_trans [OF _ hoists_hoistValue, simplified]
  have l: "\<forall>x \<in> set xs. \<forall>u. hoists fn (tries x) u (snd (tryExpr fn x u))" if "size_list size xs \<le> size e" for xs
    using IH that in_list_size [of _ xs size] by (meson less_le_trans)
  have o: "\<forall>x \<in> set_option o'. \<forall>u. hoists fn (tries x) u (snd (tryExpr fn x u))" if "size_option size o' < size e" for o'
    using IH that by (cases o') auto
  show ?case
  proof (cases e)
    case (FuncLit t b)
    have "hoists fn 0 ps (fst ps, snd (tryBlock c b (snd ps)))" for ps c
      by (rule hoists_below) (simp add: try_below tryBelow_refl)
    with FuncLit show ?thesis by (simp add: case_prod_beta del: split_paired_All)
  next
    case (IndexExpr x i)
    then show ?thesis
      using hoists_trans [OF IH IH, of x i] by (simp add: case_prod_beta del: split_paired_All)
  qed (use IH in \<open>auto simp: case_prod_beta intro!: chain l o\<close>)
qed


lemma digits_inj: "digits m = digits n \<Longrightarrow> m = n"
proof (induction m arbitrary: n rule: digits.induct)
  case (1 m)
  have c: "char_of (48 + a :: nat) = (char_of (48 + b) :: char) \<longleftrightarrow> a = b" if "a < 10" "b < 10" for a b
    using that by (simp add: char_of_eq_iff take_bit_eq_mod)
  have ne: "digits k \<noteq> []" for k by (simp add: digits.simps [of k])
  show ?case
  proof (cases "m < 10 \<or> n < 10")
    case True
    then show ?thesis using 1(2) c ne ne [symmetric] by (auto simp: digits.simps [of m] digits.simps [of n] split: if_splits)
  next
    case False
    then have "digits (m div 10) = digits (n div 10)" "m mod 10 = n mod 10"
      using 1(2) c [of "m mod 10" "n mod 10"] by (auto simp: digits.simps [of m] digits.simps [of n])
    then show ?thesis using 1(1) [of "n div 10"] False by (metis mult_div_mod_eq)
  qed
qed

lemma tempNameOf_inj: "tempNameOf m = tempNameOf n \<Longrightarrow> m = n"
  by (simp add: tempNameOf_def digits_inj)


fun definedNames :: "stmt \<Rightarrow> string list" where
  "definedNames (AssignStmt (Some Def) l r) =
     concat (map (\<lambda>e. case e of Name x \<Rightarrow> [x] | _ \<Rightarrow> []) (UnpackListExpr (Some l)))"
| "definedNames _ = []"

lemma hoistPair_names: "concat (map definedNames (hoistPair fn h)) = [tempNameOf (fst h), tempNameOf (Suc (fst h))]"
  by (cases h) (simp add: forgoErrCheck_def)

lemma hoisted_names_eq:
  "concat (map definedNames (concat (map (hoistPair fn) hs)))
     = concat (map (\<lambda>h. [tempNameOf (fst h), tempNameOf (Suc (fst h))]) hs)"
  by (induction hs) (simp_all add: hoistPair_names)

lemma hoisted_names:
  "\<forall>h \<in> set hs. n < fst h \<and> Suc (fst h) \<le> m \<Longrightarrow>
   list_all (\<lambda>x. \<exists>k. n < k \<and> k \<le> m \<and> x = tempNameOf k) (concat (map definedNames (concat (map (hoistPair fn) hs))))"
  unfolding hoisted_names_eq by (induction hs) (auto intro: less_imp_le Suc_leD, metis less_SucI)

lemma hoisted_distinct:
  "sorted_wrt (\<lambda>h h'. Suc (fst h) < fst h') hs \<Longrightarrow>
   distinct (concat (map definedNames (concat (map (hoistPair fn) hs))))"
  unfolding hoisted_names_eq
proof (induction hs)
  case (Cons h hs)
  then have "tempNameOf (fst h) \<noteq> tempNameOf (fst h')" "tempNameOf (Suc (fst h)) \<noteq> tempNameOf (fst h')"
    "tempNameOf (fst h) \<noteq> tempNameOf (Suc (fst h'))" "tempNameOf (Suc (fst h)) \<noteq> tempNameOf (Suc (fst h'))"
    if "h' \<in> set hs" for h'
    using that by (auto dest!: tempNameOf_inj)
  moreover have "tempNameOf (fst h) \<noteq> tempNameOf (Suc (fst h))" by (auto dest!: tempNameOf_inj)
  ultimately show ?case using Cons by auto
qed simp

section \<open>Properties\<close>

text \<open>
  C28: if the \<open>?\<close> pass does not stop the compiler, no function body of the package has a \<open>?\<close>
  left, provided none stands in a part the pass skips; and init and post slots of the
  rewritten statements still hold simple statements.
\<close>

theorem try_complete:
  assumes "forgoLowerTry noders errs = Inr out"
    and "list_all (\<lambda>b. \<not> hidesTry (NBlock b) \<and> \<not> anyNode badSlot (NBlock b)) (funcBodies noders)"
  shows "list_all (\<lambda>b. \<not> anyNode isTry (NBlock b) \<and> \<not> anyNode badSlot (NBlock b)) (funcBodies out)"
proof -
  have out: "out = fst (mapS (optS (mapS tryFuncDecl)) noders \<lparr>tryN = 0, tryErrs = errs\<rparr>)"
    using assms(1) by (auto simp: forgoLowerTry_def case_prod_beta split: if_splits)
  show ?thesis
    unfolding list_all_iff
  proof
    fix b' assume "b' \<in> set (funcBodies out)"
    then obtain t b u where "b \<in> set (funcBodies noders)" "b' = fst (tryBlock (forgoFuncCtxOf t) b u)"
      unfolding out by (rule tryPackage_body)
    then show "\<not> anyNode isTry (NBlock b') \<and> \<not> anyNode badSlot (NBlock b')"
      using assms(2) tryp.lowers by (auto simp: list_all_iff)
  qed
qed

theorem try_complete_witness:
  "list_all (\<lambda>b. \<not> anyNode isTry (NBlock b) \<and> \<not> anyNode badSlot (NBlock b)) (funcBodies
     [Some [FuncDecl no_pragmas None ''f'' [] (FuncType [] [Field (Some ''err'') (Name ''error'')])
       (Some (BlockStmt 1 [AssignStmt (Some Def) (Name (tempNameOf 1)) (Some (CallExpr (Name ''g'') [] False)),
          forgoErrCheck \<lparr>errName = ''err''\<rparr> (tempNameOf 1), ReturnStmt None]))]])"
  by (rule try_complete [of "[Some [FuncDecl no_pragmas None ''f'' []
         (FuncType [] [Field (Some ''err'') (Name ''error'')])
         (Some (BlockStmt 1 [ExprStmt (TryExpr (CallExpr (Name ''g'') [] False)), ReturnStmt None]))]]" "[]"])
    (simp_all add: forgoLowerTry_def forgoFuncCtxOf_def hoistErrOnly_def needErrName_def tempName_def Let_def
      funcBodies_def hides_def)

text \<open>
  On a function body without \<open>?\<close> (whose init and post slots hold simple statements, as
  the parser builds them) the pass changes nothing, not even the counter of temporaries.
\<close>

theorem try_identity:
  assumes "\<not> anyNode isTry (NBlock b)" and "\<not> anyNode badSlot (NBlock b)"
  shows "tryBlock fn b st = (b, st)"
  using assms tryp.same by simp

theorem try_identity_witness:
  "tryBlock \<lparr>errName = []\<rparr> (BlockStmt 1 [ForStmt 2 (Some (AssignStmt (Some Def) (Name ''i'') (Some (Name ''n''))))
      None None (BlockStmt 3 [BranchStmt Continue None (Some 2)])]) \<lparr>tryN = 7, tryErrs = []\<rparr>
   = (BlockStmt 1 [ForStmt 2 (Some (AssignStmt (Some Def) (Name ''i'') (Some (Name ''n''))))
      None None (BlockStmt 3 [BranchStmt Continue None (Some 2)])], \<lparr>tryN = 7, tryErrs = []\<rparr>)"
  by (rule try_identity) simp_all


text \<open>
  The temporaries an expression's \<open>?\<close> operators declare are pairwise different, and their
  numbers lie between the counter before and the counter after; as the counter never goes
  back, no two hoisted assignments of a package declare the same name.
\<close>

theorem tryExpr_temporaries:
  "let (e', pre, st') = tryExpr fn e ([], st) in
     distinct (concat (map definedNames pre))
     \<and> list_all (\<lambda>x. \<exists>k. tryN st < k \<and> k \<le> tryN st' \<and> x = tempNameOf k) (concat (map definedNames pre))"
proof -
  let ?r = "snd (tryExpr fn e ([], st))"
  obtain hs where hs: "fst ?r = concat (map (hoistPair fn) hs)"
    "\<forall>h \<in> set hs. tryN st < fst h \<and> Suc (fst h) \<le> tryN (snd ?r)" "sorted_wrt (\<lambda>h h'. Suc (fst h) < fst h') hs"
    using tryExpr_hoists_aux [of fn e, THEN spec, of "([], st)"] unfolding hoists_def by auto
  then have "distinct (concat (map definedNames (fst ?r)))"
    "list_all (\<lambda>x. \<exists>k. tryN st < k \<and> k \<le> tryN (snd ?r) \<and> x = tempNameOf k) (concat (map definedNames (fst ?r)))"
    using hoisted_distinct hoisted_names by (simp_all only:)
  then show ?thesis by (simp add: case_prod_beta)
qed



text \<open>
  \<open>rewriteContinues\<close> has no case for the \<open>with\<close> statement. A loop whose condition has a \<open>?\<close>
  loses its post clause to the bottom of the body, but a \<open>continue\<close> inside a \<open>with\<close> statement of
  the body stays, and so skips the post statement.
\<close>

theorem try_continue_in_with_skips_post:
  assumes "errName fn \<noteq> []"
  shows "\<exists>cond post lab st'. tryStmt fn (ForStmt a None (Some (TryExpr (CallExpr (Name ''more'') [] False)))
        (Some (AssignStmt (Some Add) (Name ''i'') None))
        (BlockStmt b [WithStmt ''r'' (Name ''v'') (BlockStmt c [BranchStmt Continue None (Some a)])])) st
     = ([ForStmt a None None None (BlockStmt 0 (cond @
          [WithStmt ''r'' (Name ''v'') (BlockStmt c [BranchStmt Continue None (Some a)]),
           LabeledStmt 0 lab post]))], st')
     \<and> post = AssignStmt (Some Add) (Name ''i'') None"
  using assms
  by (simp add: containsTry_anyNode case_prod_beta Let_def hoistValue_def needErrName_def)

theorem try_continue_in_with_skips_post_witness:
  "\<exists>cond post lab st'. tryStmt \<lparr>errName = ''err''\<rparr> (ForStmt 1 None (Some (TryExpr (CallExpr (Name ''more'') [] False)))
        (Some (AssignStmt (Some Add) (Name ''i'') None))
        (BlockStmt 2 [WithStmt ''r'' (Name ''v'') (BlockStmt 3 [BranchStmt Continue None (Some 1)])])) \<lparr>tryN = 0, tryErrs = []\<rparr>
     = ([ForStmt 1 None None None (BlockStmt 0 (cond @
          [WithStmt ''r'' (Name ''v'') (BlockStmt 3 [BranchStmt Continue None (Some 1)]),
           LabeledStmt 0 lab post]))], st')
     \<and> post = AssignStmt (Some Add) (Name ''i'') None"
  by (rule try_continue_in_with_skips_post) simp

text \<open>
  The statements hoisted out of an \<open>else if\<close> condition are dropped: the lowered condition is
  the temporary, which nothing assigns, and the call is gone.
\<close>

theorem try_else_if_drops_call:
  assumes "errName fn \<noteq> []"
  shows "fst (tryStmt fn (IfStmt None (Name ''a'') (BlockStmt b []) (Some
       (IfStmt None (TryExpr (CallExpr (Name ''f'') [] False)) (BlockStmt c []) None))) st)
     = [IfStmt None (Name ''a'') (BlockStmt b []) (Some
          (IfStmt None (Name (tempNameOf (Suc (tryN st)))) (BlockStmt c []) None))]"
  using assms by (simp add: case_prod_beta hoistValue_def needErrName_def tempName_def Let_def)

theorem try_else_if_drops_call_witness:
  "fst (tryStmt \<lparr>errName = ''err''\<rparr> (IfStmt None (Name ''a'') (BlockStmt 1 []) (Some
       (IfStmt None (TryExpr (CallExpr (Name ''f'') [] False)) (BlockStmt 2 []) None))) \<lparr>tryN = 0, tryErrs = []\<rparr>)
     = [IfStmt None (Name ''a'') (BlockStmt 1 []) (Some
          (IfStmt None (Name (tempNameOf (Suc (tryN \<lparr>tryN = 0, tryErrs = []\<rparr>)))) (BlockStmt 2 []) None))]"
  by (rule try_else_if_drops_call) simp

text \<open>
  The pass does not enter \<open>switch\<close>, \<open>select\<close>, \<open>go\<close> and \<open>defer\<close> statements, range clauses and
  composite literals: a \<open>?\<close> there reaches the type checker.
\<close>

theorem try_misses:
  "anyNode isTry (NBlock (fst (tryBlock fn (BlockStmt a [SwitchStmt b None (Some (TryExpr x)) []]) st)))
   \<and> anyNode isTry (NBlock (fst (tryBlock fn (BlockStmt a
        [SwitchStmt b None None [CaseClause None [ReturnStmt (Some (TryExpr x))]]]) st)))
   \<and> anyNode isTry (NBlock (fst (tryBlock fn (BlockStmt a
        [ForStmt b (Some (RangeClause None True (TryExpr x))) None None (BlockStmt c [])]) st)))
   \<and> anyNode isTry (NBlock (fst (tryBlock fn (BlockStmt a [CallStmt tok (CallExpr f [TryExpr x] False) d]) st)))
   \<and> anyNode isTry (NBlock (fst (tryBlock fn (BlockStmt a
        [ReturnStmt (Some (CompositeLit t [TryExpr x] 0))]) st)))"
  by (simp add: containsTry_def)

end
