(* ===== verification/Return.thy ===== *)
theory Return
  imports Walk
begin

text \<open>
  \<^verbatim>\<open>src/src/cmd/compile/internal/types2/return.go\<close>: the type checker's analysis that tells which
  statements end a function body (\<open>isTerminating\<close>) and its helper that looks for a break out of a
  statement (\<open>hasBreak\<close>). Both panic on statement kinds they do not know: the value is then
  \<open>None\<close>. Which calls are calls of the predeclared \<^verbatim>\<open>panic\<close> is what the checker recorded, the
  parameter \<open>isPanic\<close>.
\<close>

section \<open>hasBreak\<close>

text \<open>Both functions panic (\<open>None\<close>) on a statement kind they do not know.\<close>

fun orP :: "bool option \<Rightarrow> bool option \<Rightarrow> bool option" where
  "orP (Some False) q = q"
| "orP p q = p"

fun andP :: "bool option \<Rightarrow> bool option \<Rightarrow> bool option" where
  "andP (Some True) q = q"
| "andP p q = p"

fun anyP :: "('a \<Rightarrow> bool option) \<Rightarrow> 'a list \<Rightarrow> bool option" where
  "anyP f [] = Some False"
| "anyP f (x # xs) = orP (f x) (anyP f xs)"

lemma orP_cong [fundef_cong]: "p = p' \<Longrightarrow> (p' = Some False \<Longrightarrow> q = q') \<Longrightarrow> orP p q = orP p' q'"
  by (cases p'; cases "the p'") auto

lemma andP_cong [fundef_cong]: "p = p' \<Longrightarrow> (p' = Some True \<Longrightarrow> q = q') \<Longrightarrow> andP p q = andP p' q'"
  by (cases p'; cases "the p'") auto

lemma anyP_cong [fundef_cong]:
  "xs = ys \<Longrightarrow> (\<And>x. x \<in> set ys \<Longrightarrow> f x = g x) \<Longrightarrow> anyP f xs = anyP g ys"
  by (induction ys arbitrary: xs) auto

fun hasBreak :: "stmt \<Rightarrow> string \<Rightarrow> bool \<Rightarrow> bool option"
and hasBreakBlock :: "blockStmt \<Rightarrow> string \<Rightarrow> bool \<Rightarrow> bool option"
and hasBreakCase :: "caseClause \<Rightarrow> string \<Rightarrow> bool \<Rightarrow> bool option"
and hasBreakComm :: "commClause \<Rightarrow> string \<Rightarrow> bool \<Rightarrow> bool option"
where
  "hasBreak (LabeledStmt _ _ s) label implicit = hasBreak s label implicit"
| "hasBreak (BranchStmt tok l _) label implicit =
     (if tok = Break then (case l of None \<Rightarrow> Some implicit | Some n \<Rightarrow> Some (n = label)) else Some False)"
| "hasBreak (BlockS b) label implicit = hasBreakBlock b label implicit"
| "hasBreak (WithStmt _ _ b) label implicit = hasBreakBlock b label implicit"
| "hasBreak (IfStmt _ _ t e) label implicit =
     orP (hasBreakBlock t label implicit)
       (case e of None \<Rightarrow> Some False | Some s \<Rightarrow> hasBreak s label implicit)"
| "hasBreak (SwitchStmt _ _ _ cs) label implicit =
     (if label \<noteq> [] then anyP (\<lambda>c. hasBreakCase c label False) cs else Some False)"
| "hasBreak (SelectStmt _ cs) label implicit =
     (if label \<noteq> [] then anyP (\<lambda>c. hasBreakComm c label False) cs else Some False)"
| "hasBreak (ForStmt _ _ _ _ b) label implicit =
     (if label \<noteq> [] then hasBreakBlock b label False else Some False)"
| "hasBreak (ThrowStmt _) label implicit = None"
| "hasBreak (PostfixIfStmt _ _) label implicit = None"
| "hasBreak (RangeClause _ _ _) label implicit = None"
| "hasBreak _ label implicit = Some False"
| "hasBreakBlock (BlockStmt _ ss) label implicit = anyP (\<lambda>s. hasBreak s label implicit) ss"
| "hasBreakCase (CaseClause _ ss) label implicit = anyP (\<lambda>s. hasBreak s label implicit) ss"
| "hasBreakComm (CommClause _ ss) label implicit = anyP (\<lambda>s. hasBreak s label implicit) ss"

abbreviation hasBreakList :: "stmt list \<Rightarrow> string \<Rightarrow> bool \<Rightarrow> bool option" where
  "hasBreakList ss label implicit \<equiv> anyP (\<lambda>s. hasBreak s label implicit) ss"

section \<open>isTerminating\<close>

fun isEmptyStmt :: "stmt \<Rightarrow> bool" where
  "isEmptyStmt EmptyStmt = True"
| "isEmptyStmt _ = False"

definition lastNonEmpty :: "stmt list \<Rightarrow> stmt option" where
  "lastNonEmpty ss = (case dropWhile isEmptyStmt (rev ss) of [] \<Rightarrow> None | s # _ \<Rightarrow> Some s)"

lemma lastNonEmpty_in: "lastNonEmpty ss = Some s \<Longrightarrow> s \<in> set ss"
  by (auto simp: lastNonEmpty_def split: list.splits dest: set_dropWhileD [of s isEmptyStmt "rev ss"]
     intro: set_dropWhileD [of s isEmptyStmt "rev ss", simplified])

lemma blockList_size: "size_list size (blockList b) < size b"
  by (cases b) simp

fun isRange :: "stmt option \<Rightarrow> bool" where
  "isRange (Some (RangeClause _ _ _)) = True"
| "isRange _ = False"

fun asCall :: "expr \<Rightarrow> expr option" where
  "asCall (CallExpr f args d) = Some (CallExpr f args d)"
| "asCall _ = None"

function (sequential) isTerminating :: "(expr \<Rightarrow> bool) \<Rightarrow> stmt \<Rightarrow> string \<Rightarrow> bool option"
and isTerminatingList :: "(expr \<Rightarrow> bool) \<Rightarrow> stmt list \<Rightarrow> string \<Rightarrow> bool option"
and isTerminatingCases :: "(expr \<Rightarrow> bool) \<Rightarrow> bool \<Rightarrow> caseClause list \<Rightarrow> string \<Rightarrow> bool option"
and isTerminatingComms :: "(expr \<Rightarrow> bool) \<Rightarrow> commClause list \<Rightarrow> string \<Rightarrow> bool option"
where
  "isTerminating isPanic (LabeledStmt _ l s) label = isTerminating isPanic s l"
| "isTerminating isPanic (ExprStmt x) label =
     (case asCall (Unparen x) of None \<Rightarrow> Some False | Some c \<Rightarrow> Some (isPanic c))"
| "isTerminating isPanic (ReturnStmt _) label = Some True"
| "isTerminating isPanic (BranchStmt tok _ _) label = Some (tok = Goto \<or> tok = Fallthrough)"
| "isTerminating isPanic (BlockS b) label = isTerminatingList isPanic (blockList b) []"
| "isTerminating isPanic (WithStmt _ _ b) label = isTerminatingList isPanic (blockList b) []"
| "isTerminating isPanic (IfStmt _ _ t e) label =
     (case e of None \<Rightarrow> Some False
      | Some s \<Rightarrow> andP (isTerminatingList isPanic (blockList t) []) (isTerminating isPanic s []))"
| "isTerminating isPanic (SwitchStmt _ _ _ cs) label = isTerminatingCases isPanic False cs label"
| "isTerminating isPanic (SelectStmt _ cs) label = isTerminatingComms isPanic cs label"
| "isTerminating isPanic (ForStmt _ i c _ b) label =
     (if isRange i then Some False
      else if c \<noteq> None then Some False
      else map_option Not (hasBreakBlock b label True))"
| "isTerminating isPanic (ThrowStmt _) label = None"
| "isTerminating isPanic (PostfixIfStmt _ _) label = None"
| "isTerminating isPanic (RangeClause _ _ _) label = None"
| "isTerminating isPanic _ label = Some False"
| "isTerminatingList isPanic ss label =
     (case lastNonEmpty ss of None \<Rightarrow> Some False | Some s \<Rightarrow> isTerminating isPanic s label)"
| "isTerminatingCases isPanic hasDefault [] label = Some hasDefault"
| "isTerminatingCases isPanic hasDefault (CaseClause c ss # cs) label =
     andP (andP (isTerminatingList isPanic ss []) (map_option Not (hasBreakList ss label True)))
       (isTerminatingCases isPanic (hasDefault \<or> c = None) cs label)"
| "isTerminatingComms isPanic [] label = Some True"
| "isTerminatingComms isPanic (CommClause _ ss # cs) label =
     andP (andP (isTerminatingList isPanic ss []) (map_option Not (hasBreakList ss label True)))
       (isTerminatingComms isPanic cs label)"
  by pat_completeness auto
termination
  by (relation "measure (case_sum (case_sum (\<lambda>(_, s, _). 2 * size s) (\<lambda>(_, ss, _). 2 * size_list size ss))
        (case_sum (\<lambda>(_, _, cs, _). 2 * size_list size cs) (\<lambda>(_, cs, _). 2 * size_list size cs)))")
    (use blockList_size in \<open>auto dest: lastNonEmpty_in in_list_size [of _ _ size] simp: less_Suc_eq add_strict_increasing2\<close>)

end
