(* ===== verification/Control.thy ===== *)
theory Control
  imports Return
begin

text \<open>
  The runs of statements, as far as control flow goes: a relation \<open>exec\<close> between a statement, the
  events of a run (the simple statements performed and the conditions evaluated, in order) and
  the outcome by which the run leaves the statement. Conditions may go either way, and every
  simple statement may panic. The theory shows that the analysis of \<open>Return\<close> is sound for it, and
  \<open>WithRuns\<close> states what the lowering of with statements does to the runs of a body.
\<close>

section \<open>Runs of a statement\<close>

datatype outcome = Fall | Brk "string option" | Cont "string option" | Gto string | Fth | Out

datatype event = Do stmt | Head "stmt option" "expr option" "stmt option"

fun atomic :: "stmt \<Rightarrow> bool" where
  "atomic (ExprStmt _) = True"
| "atomic (SendStmt _ _) = True"
| "atomic (AssignStmt _ _ _) = True"
| "atomic (DeclStmt _) = True"
| "atomic (CallStmt _ _ _) = True"
| "atomic _ = False"

fun panics :: "(expr \<Rightarrow> bool) \<Rightarrow> stmt \<Rightarrow> bool" where
  "panics isPanic (ExprStmt x) = isPanic (Unparen x)"
| "panics isPanic _ = False"

text \<open>The outcomes of a body that end, or continue, the loop labelled \<open>lab\<close> (\<open>[]\<close>: no label).\<close>

fun endsLoop :: "string \<Rightarrow> outcome \<Rightarrow> bool" where
  "endsLoop lab (Brk None) = True"
| "endsLoop lab (Brk (Some l)) = (l = lab \<and> lab \<noteq> [])"
| "endsLoop lab _ = False"

fun goesOn :: "string \<Rightarrow> outcome \<Rightarrow> bool" where
  "goesOn lab Fall = True"
| "goesOn lab (Cont None) = True"
| "goesOn lab (Cont (Some l)) = (l = lab \<and> lab \<noteq> [])"
| "goesOn lab _ = False"

fun defaultClause :: "caseClause list \<Rightarrow> bool" where
  "defaultClause cs = list_ex (\<lambda>c. case c of CaseClause x _ \<Rightarrow> x = None) cs"

inductive exec :: "(expr \<Rightarrow> bool) \<Rightarrow> string \<Rightarrow> stmt \<Rightarrow> event list \<Rightarrow> outcome \<Rightarrow> bool"
and execs :: "(expr \<Rightarrow> bool) \<Rightarrow> stmt list \<Rightarrow> event list \<Rightarrow> outcome \<Rightarrow> bool"
and execClauses :: "(expr \<Rightarrow> bool) \<Rightarrow> string \<Rightarrow> caseClause list \<Rightarrow> event list \<Rightarrow> outcome \<Rightarrow> bool"
for P :: "expr \<Rightarrow> bool"
where
  Empty: "exec P lab EmptyStmt [] Fall"
| Atom: "atomic s \<Longrightarrow> \<not> panics P s \<Longrightarrow> exec P lab s [Do s] Fall"
| AtomOut: "atomic s \<Longrightarrow> exec P lab s [Do s] Out"
| Return: "exec P lab (ReturnStmt r) [Do (ReturnStmt r)] Out"
| Throw: "exec P lab (ThrowStmt x) [Do (ThrowStmt x)] Out"
| BranchBreak: "exec P lab (BranchStmt Break l t) [] (Brk l)"
| BranchContinue: "exec P lab (BranchStmt Continue l t) [] (Cont l)"
| BranchGoto: "exec P lab (BranchStmt Goto (Some l) t) [] (Gto l)"
| BranchFallthrough: "exec P lab (BranchStmt Fallthrough l t) [] Fth"
| Block: "execs P ss evs r \<Longrightarrow> exec P lab (BlockS (BlockStmt a ss)) evs r"
| IfOut: "exec P lab (IfStmt i c t e) [Head i (Some c) None] Out"
| IfThen: "execs P ss evs r \<Longrightarrow> exec P lab (IfStmt i c (BlockStmt a ss) e) (Head i (Some c) None # evs) r"
| IfElse: "exec P [] s evs r \<Longrightarrow> exec P lab (IfStmt i c t (Some s)) (Head i (Some c) None # evs) r"
| IfNone: "exec P lab (IfStmt i c t None) [Head i (Some c) None] Fall"
| PostOut: "exec P lab (PostfixIfStmt s c) [Head None (Some c) None] Out"
| PostThen: "exec P [] s evs r \<Longrightarrow> exec P lab (PostfixIfStmt s c) (Head None (Some c) None # evs) r"
| PostNone: "exec P lab (PostfixIfStmt s c) [Head None (Some c) None] Fall"
| Labeled: "exec P l s evs r \<Longrightarrow> exec P lab (LabeledStmt a l s) evs r"
| ForOut: "exec P lab (ForStmt a i c p b) [Head i c p] Out"
| ForDone: "isRange i \<or> c \<noteq> None \<Longrightarrow> exec P lab (ForStmt a i c p b) [Head i c p] Fall"
| ForStep: "execs P ss evs r \<Longrightarrow> goesOn lab r \<Longrightarrow> exec P lab (ForStmt a i c p (BlockStmt a' ss)) evs' r' \<Longrightarrow>
     exec P lab (ForStmt a i c p (BlockStmt a' ss)) (Head i c p # evs @ evs') r'"
| ForBreak: "execs P ss evs r \<Longrightarrow> endsLoop lab r \<Longrightarrow>
     exec P lab (ForStmt a i c p (BlockStmt a' ss)) (Head i c p # evs) Fall"
| ForLeave: "execs P ss evs r \<Longrightarrow> \<not> goesOn lab r \<Longrightarrow> \<not> endsLoop lab r \<Longrightarrow>
     exec P lab (ForStmt a i c p (BlockStmt a' ss)) (Head i c p # evs) r"
| SwitchOut: "exec P lab (SwitchStmt a i t cs) [Head i t None] Out"
| SwitchNone: "\<not> defaultClause cs \<Longrightarrow> exec P lab (SwitchStmt a i t cs) [Head i t None] Fall"
| SwitchCase: "execClauses P lab cs2 evs r \<Longrightarrow>
     exec P lab (SwitchStmt a i t (cs1 @ cs2)) (Head i t None # evs) r"
| SelectOut: "exec P lab (SelectStmt a cs) [] Out"
| SelectComm: "CommClause c ss \<in> set cs \<Longrightarrow> execs P ss evs r \<Longrightarrow>
     exec P lab (SelectStmt a cs) (map Do (opt_list c) @ evs) (if endsLoop lab r then Fall else r)"
| Nil: "execs P [] [] Fall"
| Next: "exec P [] s evs Fall \<Longrightarrow> execs P ss evs' r \<Longrightarrow> execs P (s # ss) (evs @ evs') r"
| Stop: "exec P [] s evs r \<Longrightarrow> r \<noteq> Fall \<Longrightarrow> execs P (s # ss) evs r"
| Clause: "execs P ss evs r \<Longrightarrow> r \<noteq> Fth \<Longrightarrow>
     execClauses P lab (CaseClause c ss # cs) evs (if endsLoop lab r then Fall else r)"
| ClauseNext: "execs P ss evs Fth \<Longrightarrow> execClauses P lab cs evs' r \<Longrightarrow>
     execClauses P lab (CaseClause c ss # cs) (evs @ evs') r"

inductive_cases execs_NilE [elim!]: "execs P [] evs r"
inductive_cases execs_ConsE: "execs P (s # ss) evs r"
inductive_cases execClauses_NilE [elim!]: "execClauses P lab [] evs r"

lemma execs_Nil_iff [simp]: "execs P [] evs r \<longleftrightarrow> evs = [] \<and> r = Fall"
  by (auto intro: Nil)

lemma execs_Cons_iff:
  "execs P (s # ss) evs r \<longleftrightarrow>
     (\<exists>e1 e2. exec P [] s e1 Fall \<and> execs P ss e2 r \<and> evs = e1 @ e2) \<or> (exec P [] s evs r \<and> r \<noteq> Fall)"
  by (auto elim: execs_ConsE intro: Next Stop)

lemma execs_append_iff:
  "execs P (ss @ ts) evs r \<longleftrightarrow>
     (\<exists>e1 e2. execs P ss e1 Fall \<and> execs P ts e2 r \<and> evs = e1 @ e2) \<or> (execs P ss evs r \<and> r \<noteq> Fall)"
  by (induction ss arbitrary: evs) (auto simp: execs_Cons_iff, (metis append.assoc)+)

lemma execs_atoms:
  "\<forall>s \<in> set E. atomic s \<and> \<not> panics P s \<Longrightarrow> execs P E (map Do E) Fall"
proof (induction E)
  case (Cons s E)
  then show ?case using Next [OF Atom [of s P "[]"], of E "map Do E" Fall] by simp
qed simp

section \<open>Soundness of the termination analysis\<close>

lemma anyP_False: "anyP f xs = Some False \<longleftrightarrow> (\<forall>x \<in> set xs. f x = Some False)"
  by (induction xs) (auto elim: orP.elims)

lemma orP_False: "orP p q = Some False \<longleftrightarrow> p = Some False \<and> q = Some False"
  by (cases "(p, q)" rule: orP.cases) auto

lemma andP_True: "andP p q = Some True \<longleftrightarrow> p = Some True \<and> q = Some True"
  by (cases "(p, q)" rule: andP.cases) auto

abbreviation noBreak :: "(string \<Rightarrow> bool \<Rightarrow> bool option) \<Rightarrow> outcome \<Rightarrow> bool" where
  "noBreak hb r \<equiv> (\<forall>l. hb l True = Some False \<longrightarrow> r \<noteq> Brk None) \<and>
     (\<forall>l imp. l \<noteq> [] \<longrightarrow> hb l imp = Some False \<longrightarrow> r \<noteq> Brk (Some l))"

lemma hasBreak_sound:
  "exec P lab s evs r \<Longrightarrow> noBreak (hasBreak s) r"
  "execs P ss evs r \<Longrightarrow> noBreak (hasBreakList ss) r"
  "execClauses P lab cs evs r \<Longrightarrow>
     r \<noteq> Brk None \<and> (\<forall>l imp. l \<noteq> [] \<longrightarrow> anyP (\<lambda>c. hasBreakCase c l imp) cs = Some False \<longrightarrow> r \<noteq> Brk (Some l))"
proof (induction rule: exec_execs_execClauses.inducts)
  case (BranchBreak lab l t)
  then show ?case by (cases l) auto
next
  case (SelectComm c ss cs evs r lab a)
  then have "hasBreakList ss l False = Some False" if "anyP (\<lambda>c. hasBreakComm c l False) cs = Some False" for l
    using that by (auto simp: anyP_False)
  with SelectComm show ?case by (cases "endsLoop lab r") (auto split: if_splits)
qed (auto simp: anyP_False orP_False split: if_splits)

lemma noBreak_ends: "execs P ss evs r \<Longrightarrow> hasBreakList ss lab True = Some False \<Longrightarrow> \<not> endsLoop lab r"
  using hasBreak_sound(2) [of P ss evs r] by (cases "(lab, r)" rule: endsLoop.cases) auto

lemma lastNonEmpty_Cons:
  "lastNonEmpty (s # ss) = (case lastNonEmpty ss of Some t \<Rightarrow> Some t | None \<Rightarrow> if isEmptyStmt s then None else Some s)"
proof (cases "\<forall>x \<in> set ss. isEmptyStmt x")
  case True
  then have "dropWhile isEmptyStmt (rev ss) = []" "dropWhile isEmptyStmt (rev ss @ [s]) = dropWhile isEmptyStmt [s]"
    by (simp_all add: dropWhile_append)
  then show ?thesis by (simp add: lastNonEmpty_def del: dropWhile_eq_Nil_conv)
next
  case False
  then have "dropWhile isEmptyStmt (rev ss) \<noteq> []" by simp
  moreover from False have "dropWhile isEmptyStmt (rev ss @ [s]) = dropWhile isEmptyStmt (rev ss) @ [s]"
    by (auto simp: dropWhile_append)
  ultimately show ?thesis
    by (cases "dropWhile isEmptyStmt (rev ss)") (simp_all add: lastNonEmpty_def)
qed

lemma isTerminatingCases_default:
  "isTerminatingCases P d cs label = Some True \<Longrightarrow> d \<or> defaultClause cs"
  by (induction P d cs label rule: isTerminating_isTerminatingList_isTerminatingCases_isTerminatingComms.induct(3))
    (auto simp: andP_True)

lemma isTerminatingCases_drop:
  "isTerminatingCases P d (cs1 @ cs2) label = Some True \<Longrightarrow> \<exists>d'. isTerminatingCases P d' cs2 label = Some True"
proof (induction cs1 arbitrary: d)
  case (Cons c cs1)
  then show ?case by (cases c) (auto simp: andP_True)
qed auto

lemma isTerminatingComms_in:
  "isTerminatingComms P cs label = Some True \<Longrightarrow> CommClause c ss \<in> set cs \<Longrightarrow>
   isTerminatingList P ss [] = Some True \<and> hasBreakList ss label True = Some False"
proof (induction cs)
  case (Cons x cs)
  then show ?case by (cases x) (auto simp: andP_True)
qed simp

declare isTerminatingList.simps [simp del]

lemma isTerminating_sound:
  "exec P lab s evs r \<Longrightarrow> isTerminating P s lab = Some True \<Longrightarrow> r \<noteq> Fall"
  "execs P ss evs r \<Longrightarrow> isTerminatingList P ss [] = Some True \<Longrightarrow> r \<noteq> Fall"
  "execClauses P lab cs evs r \<Longrightarrow> \<forall>d. isTerminatingCases P d cs lab = Some True \<longrightarrow> r \<noteq> Fall"
proof (induction rule: exec_execs_execClauses.inducts)
  case (Atom s lab)
  then show ?case by (cases s) (auto split: option.splits elim: asCall.elims)
next
  case (ForBreak ss evs r lab a i c p a')
  then show ?case using noBreak_ends by (auto split: if_splits)
next
  case (SwitchNone cs lab a i t)
  then show ?case using isTerminatingCases_default by auto
next
  case (SwitchCase lab cs2 evs r a i t cs1)
  then show ?case using isTerminatingCases_drop by auto
next
  case (SelectComm c ss cs evs r lab a)
  then show ?case using isTerminatingComms_in [of P cs lab c ss] noBreak_ends by auto
next
  case Nil
  then show ?case by (simp add: isTerminatingList.simps lastNonEmpty_def)
next
  case (Next s evs ss evs' r)
  then show ?case
    by (auto simp: isTerminatingList.simps lastNonEmpty_Cons split: option.splits if_splits)
next
  case (Clause ss evs r lab c cs)
  then show ?case using noBreak_ends by (auto simp: andP_True)
qed (auto simp: andP_True split: option.splits if_splits)



end
