(* ===== verification/With.thy ===== *)
theory With
  imports TryOp Control
begin

text \<open>
  \<^verbatim>\<open>src/src/cmd/compile/internal/noder/forgo_with.go\<close>: the lowering of with statements. A with
  statement becomes a block that binds the value, runs the body and then the exit (the call of
  Close, or the end marker of nogc code); the exit is put before every branch that leaves the
  body as well. The pass \<open>forgoLowerWith\<close> ends by running the lowering of \<^verbatim>\<open>?\<close> again, for the
  question marks it generates.

  The type checker's knowledge is the parameter \<open>withInfo\<close>. Three things differ from the source in
  form: a with statement is numbered by a function of the address of its body (\<open>num\<close>) instead of
  the order of visits; the block built for a with statement takes over the address of its body,
  which the source needs for nothing else; and the diagnostics are listed in the order of the
  tree instead of sorted by position. \<^verbatim>\<open>checkCopies\<close> is a parameter.
\<close>

section \<open>Terminating statements\<close>

fun forgoHasBreak :: "stmt \<Rightarrow> string \<Rightarrow> bool \<Rightarrow> bool"
and forgoHasBreakBlock :: "blockStmt \<Rightarrow> string \<Rightarrow> bool \<Rightarrow> bool"
and forgoHasBreakCase :: "caseClause \<Rightarrow> string \<Rightarrow> bool \<Rightarrow> bool"
and forgoHasBreakComm :: "commClause \<Rightarrow> string \<Rightarrow> bool \<Rightarrow> bool"
where
  "forgoHasBreak (BranchStmt tok l _) label implicit =
     (tok = Break \<and> (case l of None \<Rightarrow> implicit | Some n \<Rightarrow> n = label))"
| "forgoHasBreak (BlockS b) label implicit = forgoHasBreakBlock b label implicit"
| "forgoHasBreak (IfStmt _ _ t e) label implicit =
     (forgoHasBreakBlock t label implicit \<or>
      (case e of None \<Rightarrow> False | Some s \<Rightarrow> forgoHasBreak s label implicit))"
| "forgoHasBreak (LabeledStmt _ _ s) label implicit = forgoHasBreak s label implicit"
| "forgoHasBreak (PostfixIfStmt s _) label implicit = forgoHasBreak s label implicit"
| "forgoHasBreak (ForStmt _ _ _ _ b) label implicit = (label \<noteq> [] \<and> forgoHasBreakBlock b label False)"
| "forgoHasBreak (SwitchStmt _ _ _ cs) label implicit =
     (label \<noteq> [] \<and> list_ex (\<lambda>c. forgoHasBreakCase c label False) cs)"
| "forgoHasBreak (SelectStmt _ cs) label implicit =
     (label \<noteq> [] \<and> list_ex (\<lambda>c. forgoHasBreakComm c label False) cs)"
| "forgoHasBreak _ label implicit = False"
| "forgoHasBreakBlock (BlockStmt _ ss) label implicit = list_ex (\<lambda>s. forgoHasBreak s label implicit) ss"
| "forgoHasBreakCase (CaseClause _ ss) label implicit = list_ex (\<lambda>s. forgoHasBreak s label implicit) ss"
| "forgoHasBreakComm (CommClause _ ss) label implicit = list_ex (\<lambda>s. forgoHasBreak s label implicit) ss"

abbreviation forgoHasBreakList :: "stmt list \<Rightarrow> string \<Rightarrow> bool \<Rightarrow> bool" where
  "forgoHasBreakList ss label implicit \<equiv> list_ex (\<lambda>s. forgoHasBreak s label implicit) ss"

fun isPanicCall :: "expr \<Rightarrow> bool" where
  "isPanicCall (CallExpr f _ _) = (Unparen f = Name ''panic'')"
| "isPanicCall _ = False"

fun blockAddr :: "blockStmt \<Rightarrow> addr" where
  "blockAddr (BlockStmt a _) = a"

function (sequential) termStmt :: "addr set \<Rightarrow> stmt \<Rightarrow> string \<Rightarrow> bool"
and terminatingList :: "addr set \<Rightarrow> stmt list \<Rightarrow> bool"
where
  "termStmt ends (ReturnStmt _) label = True"
| "termStmt ends (ThrowStmt _) label = True"
| "termStmt ends (BranchStmt tok _ _) label = (tok = Goto \<or> tok = Fallthrough)"
| "termStmt ends (ExprStmt x) label = isPanicCall (Unparen x)"
| "termStmt ends (BlockS b) label = (blockAddr b \<in> ends \<or> terminatingList ends (blockList b))"
| "termStmt ends (IfStmt _ _ t e) label =
     (case e of None \<Rightarrow> False
      | Some s \<Rightarrow> (blockAddr t \<in> ends \<or> terminatingList ends (blockList t)) \<and> termStmt ends s [])"
| "termStmt ends (LabeledStmt _ l s) label = termStmt ends s l"
| "termStmt ends (ForStmt _ i c _ b) label =
     (\<not> isRange i \<and> c = None \<and> \<not> forgoHasBreakBlock b label True)"
| "termStmt ends (SwitchStmt _ _ _ cs) label =
     (list_all (\<lambda>c. case c of CaseClause _ ss \<Rightarrow>
          terminatingList ends ss \<and> \<not> forgoHasBreakList ss label True) cs
      \<and> list_ex (\<lambda>c. case c of CaseClause x _ \<Rightarrow> x = None) cs)"
| "termStmt ends (SelectStmt _ cs) label =
     list_all (\<lambda>c. case c of CommClause _ ss \<Rightarrow>
          terminatingList ends ss \<and> \<not> forgoHasBreakList ss label True) cs"
| "termStmt ends _ label = False"
| "terminatingList ends ss = (case lastNonEmpty ss of None \<Rightarrow> False | Some s \<Rightarrow> termStmt ends s [])"
  by pat_completeness auto
termination
  by (relation "measure (case_sum (\<lambda>(_, s, _). 2 * size s) (\<lambda>(_, ss). 2 * size_list size ss))")
    (use blockList_size in \<open>auto dest: lastNonEmpty_in in_list_size [of _ _ size]
       simp: less_Suc_eq add_strict_increasing2\<close>)

section \<open>Branches that leave the body\<close>

definition branchLeaves :: "bool \<Rightarrow> bool \<Rightarrow> string list \<Rightarrow> branchTok \<Rightarrow> string option \<Rightarrow> bool" where
  "branchLeaves inLoop inBreakable inner tok l =
     (if tok = Fallthrough then False
      else case l of Some n \<Rightarrow> n \<notin> set inner
      | None \<Rightarrow> if tok = Break then \<not> inBreakable else if tok = Continue then \<not> inLoop else False)"

fun withExit :: "bool \<Rightarrow> bool \<Rightarrow> string list \<Rightarrow> (stmt \<Rightarrow> stmt) \<Rightarrow> stmt \<Rightarrow> stmt"
and withExitBlock :: "bool \<Rightarrow> bool \<Rightarrow> string list \<Rightarrow> (stmt \<Rightarrow> stmt) \<Rightarrow> blockStmt \<Rightarrow> blockStmt"
and withExitCase :: "bool \<Rightarrow> bool \<Rightarrow> string list \<Rightarrow> (stmt \<Rightarrow> stmt) \<Rightarrow> caseClause \<Rightarrow> caseClause"
and withExitComm :: "bool \<Rightarrow> bool \<Rightarrow> string list \<Rightarrow> (stmt \<Rightarrow> stmt) \<Rightarrow> commClause \<Rightarrow> commClause"
where
  "withExit inLoop inBreakable inner leave (BranchStmt tok l t) =
     (if branchLeaves inLoop inBreakable inner tok l then leave (BranchStmt tok l t) else BranchStmt tok l t)"
| "withExit inLoop inBreakable inner leave (BlockS b) =
     BlockS (withExitBlock inLoop inBreakable inner leave b)"
| "withExit inLoop inBreakable inner leave (IfStmt i c t e) =
     IfStmt i c (withExitBlock inLoop inBreakable inner leave t)
       (map_option (withExit inLoop inBreakable inner leave) e)"
| "withExit inLoop inBreakable inner leave (ForStmt a i c p b) =
     ForStmt a i c p (withExitBlock True True inner leave b)"
| "withExit inLoop inBreakable inner leave (SwitchStmt a i t cs) =
     SwitchStmt a i t (map (withExitCase inLoop True inner leave) cs)"
| "withExit inLoop inBreakable inner leave (SelectStmt a cs) =
     SelectStmt a (map (withExitComm inLoop True inner leave) cs)"
| "withExit inLoop inBreakable inner leave (LabeledStmt a l s) =
     LabeledStmt a l (withExit inLoop inBreakable inner leave s)"
| "withExit inLoop inBreakable inner leave (PostfixIfStmt s c) =
     PostfixIfStmt (withExit inLoop inBreakable inner leave s) c"
| "withExit inLoop inBreakable inner leave s = s"
| "withExitBlock inLoop inBreakable inner leave (BlockStmt a ss) =
     BlockStmt a (map (withExit inLoop inBreakable inner leave) ss)"
| "withExitCase inLoop inBreakable inner leave (CaseClause c ss) =
     CaseClause c (map (withExit inLoop inBreakable inner leave) ss)"
| "withExitComm inLoop inBreakable inner leave (CommClause c ss) =
     CommClause c (map (withExit inLoop inBreakable inner leave) ss)"

definition forgoWithExits :: "stmt list \<Rightarrow> bool \<Rightarrow> bool \<Rightarrow> string list \<Rightarrow> (stmt \<Rightarrow> stmt) \<Rightarrow> stmt list" where
  "forgoWithExits ss inLoop inBreakable inner leave = map (withExit inLoop inBreakable inner leave) ss"

text \<open>The labels declared in a body, outside its function literals.\<close>

fun labelV :: "node option \<Rightarrow> string list \<Rightarrow> string list \<times> bool" where
  "labelV (Some (NExpr (FuncLit _ _))) ls = (ls, False)"
| "labelV (Some (NStmt (LabeledStmt _ l _))) ls = (ls @ [l], True)"
| "labelV _ ls = (ls, True)"

definition innerLabels :: "blockStmt \<Rightarrow> string list" where
  "innerLabels b = walk labelV (NBlock b) []"

section \<open>Lowering one with statement\<close>

text \<open>
  What the type checker knows is a parameter: \<open>hasClose\<close> tells of a with statement, by the
  address of its body, whether its value has a Close method (or no type was recorded);
  \<open>isType\<close> tells conversions from calls; \<open>copies\<close> is the report of \<^verbatim>\<open>checkCopies\<close>.
  \<open>num\<close> is the number the statement gets.
\<close>

record withInfo =
  hasClose :: "addr \<Rightarrow> bool"
  isType :: "expr \<Rightarrow> bool"
  copies :: "string \<Rightarrow> blockStmt \<Rightarrow> nat"
  num :: "addr \<Rightarrow> nat"

datatype withError = WithNeedsClose string | WithNeedsNew string | WithOutlives string

record withLowerer =
  wlN :: nat
  wlFrees :: bool
  wlEnds :: "addr set"
  wlErrs :: "withError list"

definition withErrorf :: "withError \<Rightarrow> withLowerer \<Rightarrow> withLowerer" where
  "withErrorf e st = st\<lparr>wlErrs := wlErrs st @ [e]\<rparr>"

definition closedName :: "nat \<Rightarrow> string" where
  "closedName n = ''_fgoWithClosed'' @ digits n"

definition closeCall :: "string \<Rightarrow> expr" where
  "closeCall x = CallExpr (SelectorExpr (Name x) ''Close'') [] False"

definition closeExit :: "string \<Rightarrow> string \<Rightarrow> nat \<Rightarrow> stmt list" where
  "closeExit en x n =
     [AssignStmt None (Name (closedName n)) (Some (Name ''true'')),
      ExprStmt (if en \<noteq> [] then TryExpr (closeCall x) else closeCall x)]"

definition deferredClose :: "string \<Rightarrow> string \<Rightarrow> stmt" where
  "deferredClose en x =
     (if en = [] then ExprStmt (closeCall x)
      else IfStmt (Some (AssignStmt (Some Def) (Name ''_fgoCloseErr'') (Some (closeCall x))))
        (Operation AndAnd (Operation Neq (Name ''_fgoCloseErr'') (Some (Name ''nil'')))
           (Some (Operation Eql (Name en) (Some (Name ''nil'')))))
        (BlockStmt 0 [AssignStmt None (Name en) (Some (Name ''_fgoCloseErr''))]) None)"

definition closeSetup :: "string \<Rightarrow> string \<Rightarrow> expr \<Rightarrow> nat \<Rightarrow> stmt list" where
  "closeSetup en x v n =
     [AssignStmt (Some Def) (Name x) (Some v),
      AssignStmt (Some Def) (Name (closedName n)) (Some (Name ''false'')),
      CallStmt Defer (CallExpr (FuncLit (FuncType [] []) (BlockStmt 0
        [IfStmt None (Operation OpNot (Name (closedName n)) None)
           (BlockStmt 0 [deferredClose en x]) None])) [] False) None]"

definition closeBlock :: "string \<Rightarrow> string \<Rightarrow> expr \<Rightarrow> nat \<Rightarrow> blockStmt \<Rightarrow> stmt list" where
  "closeBlock en x v n body = closeSetup en x v n @ [BlockS body]"

definition endExit :: "string \<Rightarrow> stmt list" where
  "endExit x = [ExprStmt (CallExpr (Name ''_fgoWithEnd'') [Name x] False)]"

definition freeBlock :: "string \<Rightarrow> expr \<Rightarrow> blockStmt \<Rightarrow> stmt list" where
  "freeBlock x v body =
     [AssignStmt (Some Def) (Name x) (Some (CallExpr (Name ''_fgoWithBegin'') [v] False)), BlockS body]"

fun isCompositeLit :: "expr \<Rightarrow> bool" where
  "isCompositeLit (CompositeLit _ _ _) = True"
| "isCompositeLit _ = False"

definition fresh :: "withInfo \<Rightarrow> expr \<Rightarrow> bool" where
  "fresh info e = (case Unparen e of
     Operation op x y \<Rightarrow> op = OpAnd \<and> y = None \<and> isCompositeLit (Unparen x)
   | CallExpr f _ _ \<Rightarrow> \<not> isType info f
   | _ \<Rightarrow> False)"

text \<open>
  \<open>withLower\<close> is the rest of \<^verbatim>\<open>lower\<close> once the statements nested in the body are lowered. The
  block it builds takes over the address of the body.
\<close>

definition withLeave :: "stmt list \<Rightarrow> stmt \<Rightarrow> stmt" where
  "withLeave exit b = BlockS (BlockStmt 0 (exit @ [b]))"

definition withFinish :: "stmt list \<Rightarrow> (blockStmt \<Rightarrow> stmt list) \<Rightarrow> blockStmt \<Rightarrow> withLowerer \<Rightarrow> stmt \<times> withLowerer" where
  "withFinish exit block body st =
     (let body' = BlockStmt (blockAddr body)
            (forgoWithExits (blockList body) False False (innerLabels body) (withLeave exit))
      in if termStmt (wlEnds st) (BlockS body) []
         then (BlockS (BlockStmt (blockAddr body) (block body')), st\<lparr>wlEnds := insert (blockAddr body) (wlEnds st)\<rparr>)
         else (BlockS (BlockStmt (blockAddr body) (block body' @ exit)), st))"

definition withLower ::
  "withInfo \<Rightarrow> string \<Rightarrow> bool \<Rightarrow> string \<Rightarrow> expr \<Rightarrow> blockStmt \<Rightarrow> withLowerer \<Rightarrow> stmt \<times> withLowerer" where
  "withLower info en nogc x v body st =
     (let n = num info (blockAddr body); st = st\<lparr>wlN := wlN st + 1\<rparr> in
      if hasClose info (blockAddr body) then withFinish (closeExit en x n) (closeBlock en x v n) body st
      else if \<not> nogc then (BlockS body, withErrorf (WithNeedsClose x) st)
      else
        (let st1 = if fresh info v then st else withErrorf (WithNeedsNew x) st;
             st2 = st1\<lparr>wlFrees := True, wlErrs := wlErrs st1 @ replicate (copies info x body) (WithOutlives x)\<rparr>
         in withFinish (endExit x) (freeBlock x v) body st2))"

section \<open>The pass\<close>

text \<open>
  \<open>withBlock\<close> is what \<^verbatim>\<open>fn\<close>'s traversal does to a statement list and everything below it: each
  with statement that is an element of the list, or the labelled statement of one, is
  lowered, the nested ones first. \<open>withItem\<close> handles the elements, \<open>withStmt\<close> the statements
  that are not elements of a list, \<open>withExpr\<close> the function literals of an expression.
\<close>

function (sequential) withBlock :: "withInfo \<Rightarrow> string \<Rightarrow> bool \<Rightarrow> blockStmt \<Rightarrow> withLowerer \<Rightarrow> blockStmt \<times> withLowerer"
and withItem :: "withInfo \<Rightarrow> string \<Rightarrow> bool \<Rightarrow> stmt \<Rightarrow> withLowerer \<Rightarrow> stmt \<times> withLowerer"
and withStmt :: "withInfo \<Rightarrow> string \<Rightarrow> bool \<Rightarrow> stmt \<Rightarrow> withLowerer \<Rightarrow> stmt \<times> withLowerer"
and withCase :: "withInfo \<Rightarrow> string \<Rightarrow> bool \<Rightarrow> caseClause \<Rightarrow> withLowerer \<Rightarrow> caseClause \<times> withLowerer"
and withComm :: "withInfo \<Rightarrow> string \<Rightarrow> bool \<Rightarrow> commClause \<Rightarrow> withLowerer \<Rightarrow> commClause \<times> withLowerer"
and withDecl :: "withInfo \<Rightarrow> bool \<Rightarrow> decl \<Rightarrow> withLowerer \<Rightarrow> decl \<times> withLowerer"
and withExpr :: "withInfo \<Rightarrow> bool \<Rightarrow> expr \<Rightarrow> withLowerer \<Rightarrow> expr \<times> withLowerer"
where
  "withBlock info en nogc (BlockStmt a ss) st =
     (case mapS (withItem info en nogc) ss st of (ss', st1) \<Rightarrow> (BlockStmt a ss', st1))"
| "withItem info en nogc (WithStmt x v b) st =
     (case withExpr info nogc v st of (v', st1) \<Rightarrow>
      case withBlock info en nogc b st1 of (b', st2) \<Rightarrow> withLower info en nogc x v' b' st2)"
| "withItem info en nogc (LabeledStmt a l (WithStmt x v b)) st =
     (case withExpr info nogc v st of (v', st1) \<Rightarrow>
      case withBlock info en nogc b st1 of (b', st2) \<Rightarrow>
      case withLower info en nogc x v' b' st2 of (s, st3) \<Rightarrow> (LabeledStmt a l s, st3))"
| "withItem info en nogc s st = withStmt info en nogc s st"
| "withStmt info en nogc EmptyStmt st = (EmptyStmt, st)"
| "withStmt info en nogc (LabeledStmt a l s) st =
     (case withStmt info en nogc s st of (s', st1) \<Rightarrow> (LabeledStmt a l s', st1))"
| "withStmt info en nogc (BlockS b) st =
     (case withBlock info en nogc b st of (b', st1) \<Rightarrow> (BlockS b', st1))"
| "withStmt info en nogc (ExprStmt x) st =
     (case withExpr info nogc x st of (x', st1) \<Rightarrow> (ExprStmt x', st1))"
| "withStmt info en nogc (SendStmt c v) st =
     (case withExpr info nogc c st of (c', st1) \<Rightarrow>
      case withExpr info nogc v st1 of (v', st2) \<Rightarrow> (SendStmt c' v', st2))"
| "withStmt info en nogc (DeclStmt ds) st =
     (case mapS (withDecl info nogc) ds st of (ds', st1) \<Rightarrow> (DeclStmt ds', st1))"
| "withStmt info en nogc (AssignStmt op l r) st =
     (case withExpr info nogc l st of (l', st1) \<Rightarrow>
      case optS (withExpr info nogc) r st1 of (r', st2) \<Rightarrow> (AssignStmt op l' r', st2))"
| "withStmt info en nogc (BranchStmt tok l t) st = (BranchStmt tok l t, st)"
| "withStmt info en nogc (CallStmt tok c d) st =
     (case withExpr info nogc c st of (c', st1) \<Rightarrow> (CallStmt tok c' d, st1))"
| "withStmt info en nogc (ReturnStmt r) st =
     (case optS (withExpr info nogc) r st of (r', st1) \<Rightarrow> (ReturnStmt r', st1))"
| "withStmt info en nogc (ThrowStmt x) st =
     (case withExpr info nogc x st of (x', st1) \<Rightarrow> (ThrowStmt x', st1))"
| "withStmt info en nogc (WithStmt x v b) st =
     (case withExpr info nogc v st of (v', st1) \<Rightarrow>
      case withBlock info en nogc b st1 of (b', st2) \<Rightarrow> (WithStmt x v' b', st2))"
| "withStmt info en nogc (IfStmt i c t e) st =
     (case optS (withStmt info en nogc) i st of (i', st1) \<Rightarrow>
      case withExpr info nogc c st1 of (c', st2) \<Rightarrow>
      case withBlock info en nogc t st2 of (t', st3) \<Rightarrow>
      case optS (withStmt info en nogc) e st3 of (e', st4) \<Rightarrow> (IfStmt i' c' t' e', st4))"
| "withStmt info en nogc (PostfixIfStmt s c) st =
     (case withStmt info en nogc s st of (s', st1) \<Rightarrow>
      case withExpr info nogc c st1 of (c', st2) \<Rightarrow> (PostfixIfStmt s' c', st2))"
| "withStmt info en nogc (ForStmt a i c p b) st =
     (case optS (withStmt info en nogc) i st of (i', st1) \<Rightarrow>
      case optS (withExpr info nogc) c st1 of (c', st2) \<Rightarrow>
      case optS (withStmt info en nogc) p st2 of (p', st3) \<Rightarrow>
      case withBlock info en nogc b st3 of (b', st4) \<Rightarrow> (ForStmt a i' c' p' b', st4))"
| "withStmt info en nogc (SwitchStmt a i t cs) st =
     (case optS (withStmt info en nogc) i st of (i', st1) \<Rightarrow>
      case optS (withExpr info nogc) t st1 of (t', st2) \<Rightarrow>
      case mapS (withCase info en nogc) cs st2 of (cs', st3) \<Rightarrow> (SwitchStmt a i' t' cs', st3))"
| "withStmt info en nogc (SelectStmt a cs) st =
     (case mapS (withComm info en nogc) cs st of (cs', st1) \<Rightarrow> (SelectStmt a cs', st1))"
| "withStmt info en nogc (RangeClause l d x) st =
     (case optS (withExpr info nogc) l st of (l', st1) \<Rightarrow>
      case withExpr info nogc x st1 of (x', st2) \<Rightarrow> (RangeClause l' d x', st2))"
| "withCase info en nogc (CaseClause c ss) st =
     (case optS (withExpr info nogc) c st of (c', st1) \<Rightarrow>
      case mapS (withItem info en nogc) ss st1 of (ss', st2) \<Rightarrow> (CaseClause c' ss', st2))"
| "withComm info en nogc (CommClause c ss) st =
     (case optS (withStmt info en nogc) c st of (c', st1) \<Rightarrow>
      case mapS (withItem info en nogc) ss st1 of (ss', st2) \<Rightarrow> (CommClause c' ss', st2))"
| "withDecl info nogc (VarDecl ns t v) st =
     (case optS (withExpr info nogc) t st of (t', st1) \<Rightarrow>
      case optS (withExpr info nogc) v st1 of (v', st2) \<Rightarrow> (VarDecl ns t' v', st2))"
| "withDecl info nogc (ConstDecl ns t v) st =
     (case optS (withExpr info nogc) t st of (t', st1) \<Rightarrow>
      case optS (withExpr info nogc) v st1 of (v', st2) \<Rightarrow> (ConstDecl ns t' v', st2))"
| "withDecl info nogc (TypeDecl pr n tps al t) st =
     (case withExpr info nogc t st of (t', st1) \<Rightarrow> (TypeDecl pr n tps al t', st1))"
| "withDecl info nogc d st = (d, st)"
| "withExpr info nogc e st =
     mapFuncLits (\<lambda>t b. withBlock info (errName (forgoFuncCtxOf t)) nogc b) e st"
  by pat_completeness auto
termination
  by (relation "measure (case_sum
        (case_sum (\<lambda>(_, _, _, b, _). 2 * size b) (case_sum (\<lambda>(_, _, _, s, _). 2 * size s + 1) (\<lambda>(_, _, _, s, _). 2 * size s)))
        (case_sum (case_sum (\<lambda>(_, _, _, c, _). 2 * size c) (\<lambda>(_, _, _, c, _). 2 * size c))
           (case_sum (\<lambda>(_, _, d, _). 2 * size d) (\<lambda>(_, _, e, _). 2 * size e))))")
    (auto dest: funcLits_size child_sizes(1))

declare withExpr.simps [simp del]

section \<open>The whole package\<close>

fun forgoRecvTypeName :: "expr \<Rightarrow> string" where
  "forgoRecvTypeName t0 =
     (let t1 = Unparen t0;
          t2 = (case t1 of Operation op x None \<Rightarrow> if op = Mul then Unparen x else t1 | _ \<Rightarrow> t1);
          t3 = (case t2 of IndexExpr x _ \<Rightarrow> x | _ \<Rightarrow> t2)
      in case t3 of Name n \<Rightarrow> n | _ \<Rightarrow> [])"

definition nogcTypes :: "decl list option list \<Rightarrow> string list" where
  "nogcTypes noders = concat (map (\<lambda>d. case d of
     TypeDecl pr n _ _ _ \<Rightarrow> if IsNogc pr then [n] else [] | _ \<Rightarrow> []) (concat (concat (map opt_list noders))))"

fun recvType :: "field \<Rightarrow> expr" where
  "recvType (Field _ t) = t"

fun withFuncDecl :: "withInfo \<Rightarrow> string list \<Rightarrow> decl \<Rightarrow> withLowerer \<Rightarrow> decl \<times> withLowerer" where
  "withFuncDecl info nts (FuncDecl pr r n tps t (Some b)) st =
     (let nogc = (IsNogc pr \<or> (case r of None \<Rightarrow> False | Some f \<Rightarrow> forgoRecvTypeName (recvType f) \<in> set nts)) in
      case withBlock info (errName (forgoFuncCtxOf t)) nogc b st of (b', st1) \<Rightarrow>
        (FuncDecl pr r n tps t (Some b'), st1))"
| "withFuncDecl info nts d st = (d, st)"

definition withMarkers :: "decl list" where
  "withMarkers =
     [VarDecl [''_fgoWithSink''] (Some (Name ''any'')) None,
      FuncDecl no_pragmas None ''_fgoWithBegin'' [Field (Some ''T'') (Name ''any'')]
        (FuncType [Field (Some ''p'') (Name ''T'')] [Field None (Name ''T'')])
        (Some (BlockStmt 0 [ReturnStmt (Some (Name ''p''))])),
      FuncDecl no_pragmas None ''_fgoWithEnd'' [Field (Some ''T'') (Name ''any'')]
        (FuncType [Field (Some ''p'') (Name ''T'')] [])
        (Some (BlockStmt 0 [AssignStmt None (Name ''_fgoWithSink'') (Some (Name ''p''))]))]"

text \<open>
  The files are processed in order; \<open>first\<close> is the first file in which the count of lowered
  statements went up.
\<close>

fun withFiles :: "withInfo \<Rightarrow> string list \<Rightarrow> decl list option list \<Rightarrow> withLowerer \<Rightarrow>
    (decl list option \<times> bool) list \<times> withLowerer" where
  "withFiles info nts noders st =
     mapS (\<lambda>f u. case optS (mapS (withFuncDecl info nts)) f u of (f', u') \<Rightarrow> ((f', wlN u < wlN u'), u')) noders st"

fun addMarkers :: "(decl list option \<times> bool) list \<Rightarrow> decl list option list" where
  "addMarkers [] = []"
| "addMarkers ((f, True) # fs) = map_option (\<lambda>ds. ds @ withMarkers) f # map fst fs"
| "addMarkers ((f, False) # fs) = f # addMarkers fs"

definition forgoLowerWith :: "withInfo \<Rightarrow> decl list option list \<Rightarrow>
    (withError list + tryError list) + bool \<times> decl list option list" where
  "forgoLowerWith info noders =
     (case withFiles info (nogcTypes noders) noders \<lparr>wlN = 0, wlFrees = False, wlEnds = {}, wlErrs = []\<rparr> of
        (files, st) \<Rightarrow>
          if wlErrs st \<noteq> [] then Inl (Inl (wlErrs st))
          else if wlN st = 0 then Inr (False, map fst files)
          else (case forgoLowerTry (if wlFrees st then addMarkers files else map fst files) [] of
              Inl errs \<Rightarrow> Inl (Inr errs)
            | Inr out \<Rightarrow> Inr (True, out)))"

fun isWith :: "node \<Rightarrow> bool" where
  "isWith (NStmt (WithStmt _ _ _)) = True"
| "isWith _ = False"

section \<open>Agreement with the type checker\<close>

lemma orP_Some: "orP p q = Some r \<Longrightarrow> (p = Some True \<and> r) \<or> (p = Some False \<and> q = Some r)"
  by (cases "(p, q)" rule: orP.cases) auto

lemma andP_Some: "andP p q = Some r \<Longrightarrow> (p = Some False \<and> \<not> r) \<or> (p = Some True \<and> q = Some r)"
  by (cases "(p, q)" rule: andP.cases) auto

lemma anyP_Some:
  "anyP f xs = Some r \<Longrightarrow> \<forall>x \<in> set xs. \<forall>r. f x = Some r \<longrightarrow> g x = r \<Longrightarrow> list_ex g xs = r"
  by (induction xs) (auto dest!: orP_Some)

lemma hasBreak_agree:
  "\<not> anyNode isWith (NStmt s) \<Longrightarrow> hasBreak s label implicit = Some r \<Longrightarrow> forgoHasBreak s label implicit = r"
  "\<not> anyNode isWith (NBlock b) \<Longrightarrow> hasBreakBlock b label implicit = Some r \<Longrightarrow> forgoHasBreakBlock b label implicit = r"
  "\<not> anyNode isWith (NCase cc) \<Longrightarrow> hasBreakCase cc label implicit = Some r \<Longrightarrow> forgoHasBreakCase cc label implicit = r"
  "\<not> anyNode isWith (NComm mc) \<Longrightarrow> hasBreakComm mc label implicit = Some r \<Longrightarrow> forgoHasBreakComm mc label implicit = r"
proof (induction s label implicit and b label implicit and cc label implicit and mc label implicit arbitrary: r and r and r and r
    rule: hasBreak_hasBreakBlock_hasBreakCase_hasBreakComm.induct)
  case (5 a b t e label implicit)
  then show ?case by (cases e) (auto dest!: orP_Some)
qed (auto split: if_splits option.splits intro!: anyP_Some)

lemma lastNonEmpty_with:
  "lastNonEmpty ss = Some s \<Longrightarrow> \<forall>t \<in> set ss. \<not> anyNode isWith (NStmt t) \<Longrightarrow> \<not> anyNode isWith (NStmt s)"
  using lastNonEmpty_in by blast

lemma hasBreakList_agree:
  "\<forall>t \<in> set ss. \<not> anyNode isWith (NStmt t) \<Longrightarrow> hasBreakList ss label implicit = Some r \<Longrightarrow>
   forgoHasBreakList ss label implicit = r"
  by (rule anyP_Some) (auto dest: hasBreak_agree(1))

lemma blockList_with: "\<not> anyNode isWith (NBlock b) \<Longrightarrow> \<forall>t \<in> set (blockList b). \<not> anyNode isWith (NStmt t)"
  by (cases b) auto

lemma asCall_panic: "(case asCall x of None \<Rightarrow> Some False | Some c \<Rightarrow> Some (isPanicCall c)) = Some (isPanicCall x)"
  by (cases x) auto

declare isTerminatingList.simps [simp del] terminatingList.simps [simp del]

lemma clause_agree:
  assumes w: "\<forall>t \<in> set ss. \<not> anyNode isWith (NStmt t)"
    and "\<And>r. isTerminatingList isPanicCall ss [] = Some r \<Longrightarrow> terminatingList {} ss = r"
    and "andP (isTerminatingList isPanicCall ss []) (map_option Not (hasBreakList ss label True)) = Some v"
  shows "(terminatingList {} ss \<and> \<not> forgoHasBreakList ss label True) = v"
  using assms(2,3) hasBreakList_agree [OF w, of label True]
  by (cases "isTerminatingList isPanicCall ss []"; cases "hasBreakList ss label True")
    (auto dest!: andP_Some)

lemma terminating_agree:
  "\<not> anyNode isWith (NStmt s) \<Longrightarrow> isTerminating isPanicCall s label = Some r \<Longrightarrow> termStmt {} s label = r"
  "\<forall>t \<in> set ss. \<not> anyNode isWith (NStmt t) \<Longrightarrow> isTerminatingList isPanicCall ss [] = Some r \<Longrightarrow>
     terminatingList {} ss = r"
  "\<forall>c \<in> set cs. \<not> anyNode isWith (NCase c) \<Longrightarrow> isTerminatingCases isPanicCall hasDefault cs label = Some r \<Longrightarrow>
     (list_all (\<lambda>c. case c of CaseClause _ ss \<Rightarrow> terminatingList {} ss \<and> \<not> forgoHasBreakList ss label True) cs
      \<and> (hasDefault \<or> list_ex (\<lambda>c. case c of CaseClause x _ \<Rightarrow> x = None) cs)) = r"
  "\<forall>c \<in> set ms. \<not> anyNode isWith (NComm c) \<Longrightarrow> isTerminatingComms isPanicCall ms label = Some r \<Longrightarrow>
     list_all (\<lambda>c. case c of CommClause _ ss \<Rightarrow> terminatingList {} ss \<and> \<not> forgoHasBreakList ss label True) ms = r"
proof (induction "isPanicCall" s label and "isPanicCall" ss "[]::string" and "isPanicCall" hasDefault cs label and "isPanicCall" ms label
    arbitrary: r and r and r and r
    rule: isTerminating_isTerminatingList_isTerminatingCases_isTerminatingComms.induct)
  case (2 x label)
  then show ?case by (simp add: asCall_panic)
next
  case (5 b label)
  then show ?case using blockList_with [of b] by simp
next
  case (7 a c t e label)
  show ?case
  proof (cases e)
    case (Some s)
    have t: "\<forall>t \<in> set (blockList t). \<not> anyNode isWith (NStmt t)" and s: "\<not> anyNode isWith (NStmt s)"
      using 7(3) Some blockList_with [of t] by simp_all
    from 7(4) Some consider "isTerminatingList isPanicCall (blockList t) [] = Some False" "\<not> r"
      | "isTerminatingList isPanicCall (blockList t) [] = Some True" "isTerminating isPanicCall s [] = Some r"
      by (auto dest!: andP_Some)
    then show ?thesis
    proof cases
      case 1
      then show ?thesis using 7(1) [OF Some t 1(1)] Some by simp
    next
      case 2
      then show ?thesis using 7(1) [OF Some t 2(1)] 7(2) [OF Some 2(1) s 2(2)] Some by simp
    qed
  qed (use 7 in simp)
next
  case (10 a i c p b label)
  then show ?case by (auto split: if_splits dest!: hasBreak_agree(2))
next
  case (15 ss)
  then show ?case
    by (auto simp: isTerminatingList.simps terminatingList.simps split: option.splits dest: lastNonEmpty_in)
next
  case (17 hasDefault c ss cs label)
  have w: "\<forall>t \<in> set ss. \<not> anyNode isWith (NStmt t)" "\<forall>c \<in> set cs. \<not> anyNode isWith (NCase c)"
    using 17(3) by simp_all
  have agree: "(terminatingList {} ss \<and> \<not> forgoHasBreakList ss label True) = v"
    if "andP (isTerminatingList isPanicCall ss []) (map_option Not (hasBreakList ss label True)) = Some v" for v
    by (rule clause_agree [OF w(1) 17(1) [OF w(1)] that])
  from andP_Some [OF 17(4) [unfolded isTerminatingCases.simps]] show ?case
  proof (elim disjE conjE)
    assume "andP (isTerminatingList isPanicCall ss []) (map_option Not (hasBreakList ss label True)) = Some False" "\<not> r"
    then show ?thesis using agree by simp
  next
    assume t: "andP (isTerminatingList isPanicCall ss []) (map_option Not (hasBreakList ss label True)) = Some True"
    assume "isTerminatingCases isPanicCall (hasDefault \<or> c = None) cs label = Some r"
    then show ?thesis using agree [OF t] 17(2) [OF t w(2)] by simp
  qed
next
  case (19 c ss cs label)
  have w: "\<forall>t \<in> set ss. \<not> anyNode isWith (NStmt t)" "\<forall>c \<in> set cs. \<not> anyNode isWith (NComm c)"
    using 19(3) by simp_all
  have agree: "(terminatingList {} ss \<and> \<not> forgoHasBreakList ss label True) = v"
    if "andP (isTerminatingList isPanicCall ss []) (map_option Not (hasBreakList ss label True)) = Some v" for v
    by (rule clause_agree [OF w(1) 19(1) [OF w(1)] that])
  from andP_Some [OF 19(4) [unfolded isTerminatingComms.simps]] show ?case
  proof (elim disjE conjE)
    assume "andP (isTerminatingList isPanicCall ss []) (map_option Not (hasBreakList ss label True)) = Some False" "\<not> r"
    then show ?thesis using agree by simp
  next
    assume t: "andP (isTerminatingList isPanicCall ss []) (map_option Not (hasBreakList ss label True)) = Some True"
    assume "isTerminatingComms isPanicCall cs label = Some r"
    then show ?thesis using agree [OF t] 19(2) [OF t w(2)] by simp
  qed
qed (auto)

section \<open>What the pass leaves\<close>

fun nakedWith :: "stmt \<Rightarrow> bool" where
  "nakedWith (WithStmt _ _ _) = True"
| "nakedWith (LabeledStmt _ _ s) = nakedWith s"
| "nakedWith _ = False"

fun isLabeled :: "stmt \<Rightarrow> bool" where
  "isLabeled (LabeledStmt _ _ _) = True"
| "isLabeled _ = False"

text \<open>
  The parts the pass does not reach: the type of a function literal, and a with statement that
  is neither an element of a statement list nor the labelled statement of one (under two
  labels, or in a slot).
\<close>

abbreviation oddSlot :: "stmt option \<Rightarrow> node list" where
  "oddSlot s \<equiv> map NStmt (filter nakedWith (opt_list s))"

fun skippedW :: "node \<Rightarrow> node list" where
  "skippedW (NExpr (FuncLit t _)) = [NFuncType t]"
| "skippedW (NStmt (LabeledStmt _ _ s)) = (if isLabeled s \<and> nakedWith s then [NStmt s] else [])"
| "skippedW (NStmt (PostfixIfStmt s _)) = (if nakedWith s then [NStmt s] else [])"
| "skippedW (NStmt (IfStmt i _ _ e)) = oddSlot i @ oddSlot e"
| "skippedW (NStmt (ForStmt _ i _ p _)) = oddSlot i @ oddSlot p"
| "skippedW (NStmt (SwitchStmt _ i _ _)) = oddSlot i"
| "skippedW (NComm (CommClause c _)) = oddSlot c"
| "skippedW (NDecl (TypeDecl _ _ ps _ _)) = map NField ps"
| "skippedW (NDecl (FuncDecl pr r n ps t b)) = [NDecl (FuncDecl pr r n ps t b)]"
| "skippedW _ = []"

abbreviation hidesW :: "node \<Rightarrow> bool" where
  "hidesW \<equiv> hides skippedW isWith"

lemma stmtOnly_isWith: "stmtOnly isWith"
  by (simp add: stmtOnly_def)

lemma nakedWith_isWith: "nakedWith s \<Longrightarrow> anyNode isWith (NStmt s)"
  by (induction s rule: nakedWith.induct) auto

lemma withExit_with:
  assumes "\<And>tok l t. \<not> anyNode isWith (NStmt (leave (BranchStmt tok l t)))"
  shows "\<not> anyNode isWith (NStmt s) \<Longrightarrow> \<not> anyNode isWith (NStmt (withExit x y ls leave s))"
    and "\<not> anyNode isWith (NBlock b) \<Longrightarrow> \<not> anyNode isWith (NBlock (withExitBlock x y ls leave b))"
    and "\<not> anyNode isWith (NCase cc) \<Longrightarrow> \<not> anyNode isWith (NCase (withExitCase x y ls leave cc))"
    and "\<not> anyNode isWith (NComm mc) \<Longrightarrow> \<not> anyNode isWith (NComm (withExitComm x y ls leave mc))"
  using assms
proof (induction x y ls leave s and x y ls leave b and x y ls leave cc and x y ls leave mc
    rule: withExit_withExitBlock_withExitCase_withExitComm.induct)
qed auto

lemma withLeave_with: "\<forall>t \<in> set exit. \<not> anyNode isWith (NStmt t) \<Longrightarrow> \<not> anyNode isWith (NStmt (withLeave exit (BranchStmt tok l t)))"
  by (auto simp: withLeave_def)

lemma withFinish_with:
  assumes "\<forall>t \<in> set exit. \<not> anyNode isWith (NStmt t)" and "\<not> anyNode isWith (NBlock body)"
    and "\<And>b. \<not> anyNode isWith (NBlock b) \<Longrightarrow> \<forall>t \<in> set (block b). \<not> anyNode isWith (NStmt t)"
  shows "\<not> anyNode isWith (NStmt (fst (withFinish exit block body st)))"
proof -
  have "\<not> anyNode isWith (NBlock (BlockStmt (blockAddr body)
      (forgoWithExits (blockList body) False False (innerLabels body) (withLeave exit))))"
    using assms(2) withExit_with(1) [of "withLeave exit"] withLeave_with [OF assms(1)]
    by (cases body) (auto simp: forgoWithExits_def)
  from assms(3) [OF this] show ?thesis
    using assms(1) by (auto simp: withFinish_def Let_def)
qed

lemma withLower_with:
  assumes "\<not> anyNode isWith (NExpr v)" and "\<not> anyNode isWith (NBlock body)"
  shows "\<not> anyNode isWith (NStmt (fst (withLower info en nogc x v body st)))"
proof -
  have "\<not> anyNode isWith (NStmt (fst (withFinish (closeExit en x n) (closeBlock en x v n) body u)))" for n u
    using assms by (intro withFinish_with) (auto simp: closeBlock_def closeSetup_def closeExit_def closeCall_def deferredClose_def)
  moreover have "\<not> anyNode isWith (NStmt (fst (withFinish (endExit x) (freeBlock x v) body u)))" for u
    using assms by (intro withFinish_with) (auto simp: endExit_def freeBlock_def)
  ultimately show ?thesis using assms(2) by (simp add: withLower_def Let_def)
qed

lemma withItem_cases:
  "(\<exists>x v b. s = WithStmt x v b) \<or> (\<exists>a l x v b. s = LabeledStmt a l (WithStmt x v b)) \<or>
   (nakedWith s \<longrightarrow> hidesW (NStmt s)) \<and> withItem info en nogc s st = withStmt info en nogc s st"
proof (cases s)
  case (LabeledStmt a l t)
  then show ?thesis
    using hides_rec [of skippedW isWith "NStmt s"] nakedWith_isWith [of t]
    by (cases t) (auto simp del: withStmt.simps)
qed (simp_all del: withStmt.simps)

lemma hidesW_BlockS: "hidesW (NStmt (BlockS b)) = hidesW (NBlock b)"
  by (simp add: hides_def)

lemma mapS_ball:
  "\<forall>x \<in> set xs. \<forall>u. P (fst (f x u)) \<Longrightarrow> (\<forall>y \<in> set (fst (mapS f xs s)). P y) = True"
  by (auto dest!: mapS_set)

lemma optS_ball:
  "\<forall>x \<in> set_option o'. \<forall>u. P (fst (f x u)) \<Longrightarrow> (\<forall>y. fst (optS f o' s) = Some y \<longrightarrow> P y) = True"
  by (auto dest!: optS_Some)

lemma with_lowered:
  "\<forall>nogc st. \<not> hidesW (NExpr e) \<longrightarrow> \<not> anyNode isWith (NExpr (fst (withExpr info nogc e st)))"
  "\<forall>en nogc st. \<not> hidesW (NStmt s) \<longrightarrow> \<not> anyNode isWith (NStmt (fst (withItem info en nogc s st))) \<and>
     (\<not> nakedWith s \<longrightarrow> \<not> anyNode isWith (NStmt (fst (withStmt info en nogc s st))))"
  "\<forall>en nogc st. \<not> hidesW (NCase cc) \<longrightarrow> \<not> anyNode isWith (NCase (fst (withCase info en nogc cc st)))"
  "\<forall>en nogc st. \<not> hidesW (NComm mc) \<longrightarrow> \<not> anyNode isWith (NComm (fst (withComm info en nogc mc st)))"
  "\<forall>en nogc st. \<not> hidesW (NBlock b) \<longrightarrow> \<not> anyNode isWith (NBlock (fst (withBlock info en nogc b st)))"
  "\<forall>nogc st. \<not> hidesW (NDecl d) \<longrightarrow> \<not> anyNode isWith (NDecl (fst (withDecl info nogc d st)))"
proof (induction e and s and cc and mc and b and d rule: pass_induct)
  case (Expr e)
  show ?case
    using Expr hides_funcLit [of skippedW isWith e]
    by (force simp: anyNode_funcLits [OF stmtOnly_isWith] withExpr.simps dest!: funcLits_mapFuncLits)
next
  case (Stmt s)
  note rec = hides_rec [of skippedW isWith "NStmt s"]
  have item: "\<not> anyNode isWith (NStmt (fst (withStmt info en nogc s st)))"
    if "\<not> hidesW (NStmt s)" "\<not> nakedWith s" for en nogc st
    using Stmt rec that
    by (cases s) (simp_all add: case_prod_beta ball_Un nakedWith_isWith mapS_ball optS_ball hidesW_BlockS list_ex_iff
        split: if_splits)
  show ?case
  proof (intro allI impI conjI)
    fix en nogc st
    assume h: "\<not> hidesW (NStmt s)"
    consider x v b where "s = WithStmt x v b" | a l x v b where "s = LabeledStmt a l (WithStmt x v b)"
      | "\<not> nakedWith s" "withItem info en nogc s st = withStmt info en nogc s st"
      using withItem_cases [of s info en nogc st] h by blast
    then show "\<not> anyNode isWith (NStmt (fst (withItem info en nogc s st)))"
    proof cases
      case 1
      then show ?thesis
        using Stmt rec h by (simp add: case_prod_beta withLower_with)
    next
      case 2
      then have "fst (withItem info en nogc s st) = LabeledStmt a l (fst (withItem info en nogc (WithStmt x v b) st))"
        by (simp add: case_prod_beta)
      then show ?thesis using Stmt rec h 2 by (simp del: withItem.simps)
    qed (use item h in simp)
  qed (use item in simp)
next
  case (Decl d)
  then show ?case
    by (cases d) (auto simp: hides_def list_ex_iff case_prod_beta ball_Un dest!: optS_Some)
next
  case Case
  then show ?case
    by (auto simp: hides_def case_prod_beta list_ex_iff dest!: mapS_set optS_Some)
next
  case (Comm c ss)
  then show ?case
    using hides_rec [of skippedW isWith "NComm (CommClause c ss)"]
    by (simp add: case_prod_beta nakedWith_isWith mapS_ball optS_ball list_ex_iff ball_Un)
next
  case Block
  then show ?case
    by (auto simp: hides_def case_prod_beta list_ex_iff dest!: mapS_set)
qed 

lemma with_same:
  "\<forall>nogc st. \<not> anyNode isWith (NExpr e) \<longrightarrow> withExpr info nogc e st = (e, st)"
  "\<forall>en nogc st. \<not> anyNode isWith (NStmt s) \<longrightarrow>
     withStmt info en nogc s st = (s, st) \<and> withItem info en nogc s st = (s, st)"
  "\<forall>en nogc st. \<not> anyNode isWith (NCase cc) \<longrightarrow> withCase info en nogc cc st = (cc, st)"
  "\<forall>en nogc st. \<not> anyNode isWith (NComm mc) \<longrightarrow> withComm info en nogc mc st = (mc, st)"
  "\<forall>en nogc st. \<not> anyNode isWith (NBlock b) \<longrightarrow> withBlock info en nogc b st = (b, st)"
  "\<forall>nogc st. \<not> anyNode isWith (NDecl d) \<longrightarrow> withDecl info nogc d st = (d, st)"
proof (induction e and s and cc and mc and b and d rule: pass_induct)
  case (Expr e)
  then show ?case
    by (force simp: anyNode_funcLits [OF stmtOnly_isWith] withExpr.simps intro!: mapFuncLits_id)
next
  case (Stmt s)
  have stmt: "withStmt info en nogc s st = (s, st)" if "\<not> anyNode isWith (NStmt s)" for en nogc st
    using Stmt that by (cases s) (auto simp: mapS_id optS_Some_id ball_Un)
  moreover have "withItem info en nogc s st = withStmt info en nogc s st" if "\<not> anyNode isWith (NStmt s)" for en nogc st
    using withItem_cases [of s info en nogc st] that by auto
  ultimately show ?case by simp
next
  case (Decl d)
  then show ?case by (cases d) (auto simp: mapS_id optS_Some_id ball_Un)
qed (auto simp: mapS_id optS_Some_id)

section \<open>Diagnostics accumulate\<close>

definition withBelow :: "withLowerer \<Rightarrow> withLowerer \<Rightarrow> bool" where
  "withBelow st st' \<longleftrightarrow> wlN st \<le> wlN st' \<and> (wlFrees st \<longrightarrow> wlFrees st') \<and> wlEnds st \<subseteq> wlEnds st' \<and>
     prefix (wlErrs st) (wlErrs st')"

lemma withBelow_refl: "withBelow st st"
  by (simp add: withBelow_def)

lemma withBelow_trans: "withBelow s t \<Longrightarrow> withBelow t u \<Longrightarrow> withBelow s u"
  by (auto simp: withBelow_def)

lemma withLower_below: "withBelow s0 st \<Longrightarrow> withBelow s0 (snd (withLower info en nogc x v b st))"
  by (auto simp: withBelow_def withLower_def withFinish_def withErrorf_def Let_def)

lemma with_chain:
  "\<forall>x \<in> set xs. \<forall>u. withBelow s0 u \<longrightarrow> withBelow s0 (snd (f x u)) \<Longrightarrow> withBelow s0 st \<Longrightarrow>
     withBelow s0 (snd (mapS f xs st))"
  "\<forall>x \<in> set_option o'. \<forall>u. withBelow s0 u \<longrightarrow> withBelow s0 (snd (g x u)) \<Longrightarrow> withBelow s0 st \<Longrightarrow>
     withBelow s0 (snd (optS g o' st))"
  by (simp add: mapS_inv [where I = "withBelow s0"]) (simp add: optS_inv [where I = "withBelow s0"])

lemma with_below:
  "\<forall>nogc st s0. withBelow s0 st \<longrightarrow> withBelow s0 (snd (withExpr info nogc e st))"
  "\<forall>en nogc st s0. withBelow s0 st \<longrightarrow> withBelow s0 (snd (withStmt info en nogc s st)) \<and>
     withBelow s0 (snd (withItem info en nogc s st))"
  "\<forall>en nogc st s0. withBelow s0 st \<longrightarrow> withBelow s0 (snd (withCase info en nogc cc st))"
  "\<forall>en nogc st s0. withBelow s0 st \<longrightarrow> withBelow s0 (snd (withComm info en nogc mc st))"
  "\<forall>en nogc st s0. withBelow s0 st \<longrightarrow> withBelow s0 (snd (withBlock info en nogc b st))"
  "\<forall>nogc st s0. withBelow s0 st \<longrightarrow> withBelow s0 (snd (withDecl info nogc d st))"
proof (induction e and s and cc and mc and b and d rule: pass_induct)
  case (Expr e)
  then show ?case
    by (auto simp: withExpr.simps intro!: mapFuncLits_inv [where I = "withBelow s0" for s0])
next
  case (Stmt s)
  have stmt: "withBelow s0 (snd (withStmt info en nogc s st))" if "withBelow s0 st" for en nogc st s0
    using Stmt that by (cases s) (simp_all add: case_prod_beta ball_Un with_chain)
  moreover have "withBelow s0 (snd (withItem info en nogc s st))" if "withBelow s0 st" for en nogc st s0
    using withItem_cases [of s info en nogc st]
  proof (elim disjE exE conjE)
    fix x v b assume "s = WithStmt x v b"
    then show ?thesis using Stmt that by (simp add: case_prod_beta withLower_below)
  next
    fix a l x v b assume s: "s = LabeledStmt a l (WithStmt x v b)"
    then have "snd (withItem info en nogc s st) = snd (withItem info en nogc (WithStmt x v b) st)"
      by (simp add: case_prod_beta)
    then show ?thesis using Stmt s that by (simp del: withItem.simps)
  qed (use stmt that in simp)
  ultimately show ?case by simp
next
  case (Decl d)
  then show ?case by (cases d) (simp_all add: case_prod_beta ball_Un with_chain)
qed (simp_all add: case_prod_beta with_chain)

interpretation wth: lowering_pass withBelow "withBlock info en nogc"
  "\<lambda>b. anyNode isWith (NBlock b)" "\<lambda>b. \<not> hidesW (NBlock b)"
  for info en nogc
  by unfold_locales
    (auto simp: withBelow_refl with_lowered with_same with_below intro: withBelow_trans)

section \<open>Properties\<close>

text \<open>
  After the pass over a function body no with statement is left, unless one stands where the
  pass does not look: below two labels, as the statement of a postfix-if or in the init, post
  or else slot of a statement, inside a function literal's type, or in a nested declaration the
  pass skips.
\<close>

theorem with_complete:
  assumes "\<not> hidesW (NBlock b)"
  shows "\<not> anyNode isWith (NBlock (fst (withBlock info en nogc b st)))"
  using with_lowered(5) assms by blast

theorem with_complete_witness:
  "\<not> anyNode isWith (NBlock (fst (withBlock
      \<lparr>hasClose = \<lambda>_. True, isType = \<lambda>_. False, copies = \<lambda>_ _. 0, num = \<lambda>_. 1\<rparr> ''err'' False
      (BlockStmt 1 [WithStmt ''f'' (Name ''v'') (BlockStmt 2 [ReturnStmt None])])
      \<lparr>wlN = 0, wlFrees = False, wlEnds = {}, wlErrs = []\<rparr>)))"
  by (rule with_complete) (simp add: hides_def)

text \<open>
  Code without with statements passes through unchanged, and the state of the pass (its
  counter, its set of terminating blocks, its diagnostics) is left alone.
\<close>

theorem with_identity:
  assumes "\<not> anyNode isWith (NBlock b)"
  shows "withBlock info en nogc b st = (b, st)"
  using with_same(5) assms by blast

theorem with_identity_witness:
  "withBlock \<lparr>hasClose = \<lambda>_. True, isType = \<lambda>_. False, copies = \<lambda>_ _. 0, num = \<lambda>_. 1\<rparr> ''err'' False
      (BlockStmt 1 [ReturnStmt (Some (Name ''x''))]) \<lparr>wlN = 0, wlFrees = False, wlEnds = {}, wlErrs = []\<rparr>
     = (BlockStmt 1 [ReturnStmt (Some (Name ''x''))], \<lparr>wlN = 0, wlFrees = False, wlEnds = {}, wlErrs = []\<rparr>)"
  by (rule with_identity) simp

text \<open>
  The pass never forgets: along the lowering of a body the count of with statements only
  grows, a package that needs the scope markers keeps needing them, blocks recorded as
  terminating stay recorded, and diagnostics are only appended.
\<close>

theorem with_monotone:
  "wlN st \<le> wlN (snd (withBlock info en nogc b st)) \<and> wlFrees st \<le> wlFrees (snd (withBlock info en nogc b st)) \<and>
   wlEnds st \<subseteq> wlEnds (snd (withBlock info en nogc b st)) \<and> prefix (wlErrs st) (wlErrs (snd (withBlock info en nogc b st)))"
  using with_below(5) [rule_format, OF withBelow_refl, of st info en nogc b] by (auto simp: withBelow_def)

text \<open>
  C30: on code without with statements, the pass's own analysis of terminating statements gives
  what the type checker's analysis gives, wherever the latter returns at all, when \<^verbatim>\<open>panic\<close> is not
  redeclared.
\<close>

theorem terminating_equivalent:
  assumes "\<not> anyNode isWith (NStmt s)" and "isTerminating isPanicCall s label = Some r"
  shows "termStmt {} s label = r"
  using terminating_agree(1) assms by blast

theorem terminating_equivalent_witness:
  "termStmt {} (ForStmt 1 None None None (BlockStmt 2 [BranchStmt Break None (Some 1)])) [] = False"
  by (rule terminating_equivalent) (simp_all add: isTerminating.simps)

text \<open>
  A with statement below two labels is not lowered, whatever its body: it reaches the rest of
  the compiler as it stands.
\<close>

theorem with_two_labels_left:
  "fst (withItem info en nogc (LabeledStmt a l (LabeledStmt a' l' (WithStmt x v b))) st)
     = LabeledStmt a l (LabeledStmt a' l' (WithStmt x (fst (withExpr info nogc v st))
         (fst (withBlock info en nogc b (snd (withExpr info nogc v st))))))"
  by (simp add: case_prod_beta)

end
