(* ===== verification/WithRuns.thy ===== *)
theory WithRuns
  imports With
begin

text \<open>
  What the lowering of a with statement does to the runs of its body, over the runs of
  \<open>Control\<close>: \<open>withExit_sound\<close> and \<open>withExit_complete\<close> relate the runs of a body and of its
  rewriting, \<open>termStmt_sound\<close> justifies that the exit is left out after a terminating body, and
  \<open>withFinish_runs\<close> puts them together for the whole statement.
\<close>

section \<open>The branches that leave a body\<close>

fun isFuncLit :: "node \<Rightarrow> bool" where
  "isFuncLit (NExpr (FuncLit _ _)) = True"
| "isFuncLit _ = False"

fun ownLabel :: "node \<Rightarrow> string list" where
  "ownLabel (NStmt (LabeledStmt _ l _)) = [l]"
| "ownLabel _ = []"

function labs :: "node \<Rightarrow> string list" where
  "labs n = (if isFuncLit n then [] else ownLabel n @ concat (map labs (children n)))"
  by pat_completeness auto
termination
  by (relation "measure node_size") (simp_all add: children_size)

declare labs.simps [simp del]

lemma labelV_eq: "labelV (Some n) ls = (if isFuncLit n then (ls, False) else (ls @ ownLabel n, True))"
  by (cases "(Some n, ls)" rule: labelV.cases) auto

lemma fold_labelV:
  "(\<And>c acc. c \<in> set cs \<Longrightarrow> walk labelV c acc = acc @ labs c) \<Longrightarrow>
   fold (walk labelV) cs acc = acc @ concat (map labs cs)"
  by (induction cs arbitrary: acc) auto

lemma walk_labelV: "walk labelV n acc = acc @ labs n"
proof (induction n arbitrary: acc taking: node_size rule: measure_induct_rule)
  case (less n)
  have "fold (walk labelV) (children n) u = u @ concat (map labs (children n))" for u
    by (rule fold_labelV) (simp add: less children_size)
  then show ?case
    by (simp add: walk.simps [of labelV n] labs.simps [of n] labelV_eq)
qed

lemma innerLabels_labs: "innerLabels b = labs (NBlock b)"
  by (simp add: innerLabels_def walk_labelV)

lemma labs_child: "\<not> isFuncLit n \<Longrightarrow> c \<in> set (children n) \<Longrightarrow> set (labs c) \<subseteq> set (labs n)"
  by (auto simp: labs.simps [of n])

text \<open>The outcomes by which a run of the body leaves it.\<close>

fun leaves :: "bool \<Rightarrow> bool \<Rightarrow> string list \<Rightarrow> outcome \<Rightarrow> bool" where
  "leaves inLoop inBreakable inner (Brk None) = (\<not> inBreakable)"
| "leaves inLoop inBreakable inner (Cont None) = (\<not> inLoop)"
| "leaves inLoop inBreakable inner (Brk (Some l)) = (l \<notin> set inner)"
| "leaves inLoop inBreakable inner (Cont (Some l)) = (l \<notin> set inner)"
| "leaves inLoop inBreakable inner (Gto l) = (l \<notin> set inner)"
| "leaves inLoop inBreakable inner _ = False"

definition exitEvents :: "stmt list \<Rightarrow> bool \<Rightarrow> bool \<Rightarrow> string list \<Rightarrow> outcome \<Rightarrow> event list" where
  "exitEvents E x y inner r = (if leaves x y inner r then map Do E else [])"

lemma exitEvents_simps [simp]:
  "exitEvents E x y inner Fall = []" "exitEvents E x y inner Out = []" "exitEvents E x y inner Fth = []"
  by (simp_all add: exitEvents_def)

lemma leaves_inner:
  "lab \<noteq> [] \<longrightarrow> lab \<in> set inner \<Longrightarrow> goesOn lab r \<Longrightarrow> \<not> leaves True True inner r"
  "lab \<noteq> [] \<longrightarrow> lab \<in> set inner \<Longrightarrow> endsLoop lab r \<Longrightarrow> \<not> leaves x True inner r"
  "\<not> goesOn lab r \<Longrightarrow> \<not> endsLoop lab r \<Longrightarrow> leaves True True inner r = leaves x y inner r"
  "\<not> endsLoop lab r \<Longrightarrow> leaves x True inner r = leaves x y inner r"
  by (cases "(x, y, inner, r)" rule: leaves.cases; auto)+

lemma exitEvents_inner:
  "lab \<noteq> [] \<longrightarrow> lab \<in> set inner \<Longrightarrow> goesOn lab r \<Longrightarrow> exitEvents E True True inner r = []"
  "lab \<noteq> [] \<longrightarrow> lab \<in> set inner \<Longrightarrow> endsLoop lab r \<Longrightarrow> exitEvents E x True inner r = []"
  "\<not> goesOn lab r \<Longrightarrow> \<not> endsLoop lab r \<Longrightarrow> exitEvents E True True inner r = exitEvents E x y inner r"
  "\<not> endsLoop lab r \<Longrightarrow> exitEvents E x True inner r = exitEvents E x y inner r"
  unfolding exitEvents_def
  by (simp add: leaves_inner(1), simp add: leaves_inner(2), simp add: leaves_inner(3) [of lab r inner x y],
      simp add: leaves_inner(4) [of lab r x inner y])

lemma leave_exec:
  assumes "\<forall>s \<in> set E. atomic s \<and> \<not> panics P s" and "exec P [] b evs r" and "r \<noteq> Fall"
  shows "exec P lab (withLeave E b) (map Do E @ evs) r"
  using assms execs_atoms [OF assms(1)] unfolding withLeave_def
  by (intro Block) (auto simp: execs_append_iff execs_Cons_iff)

lemma labs_stmt:
  "labs (NStmt (BlockS (BlockStmt a ss))) = concat (map (\<lambda>s. labs (NStmt s)) ss)"
  "labs (NStmt (PostfixIfStmt s c)) = labs (NStmt s) @ labs (NExpr c)"
  "labs (NStmt (LabeledStmt a l s)) = l # labs (nName l) @ labs (NStmt s)"
  "labs (NStmt (IfStmt i c t e)) = concat (map (\<lambda>s. labs (NStmt s)) (opt_list i)) @ labs (NExpr c) @ labs (NBlock t) @
      concat (map (\<lambda>s. labs (NStmt s)) (opt_list e))"
  "labs (NStmt (ForStmt a i cc p t)) = concat (map (\<lambda>s. labs (NStmt s)) (opt_list i)) @
      concat (map (\<lambda>s. labs (NExpr s)) (opt_list cc)) @ concat (map (\<lambda>s. labs (NStmt s)) (opt_list p)) @ labs (NBlock t)"
  "labs (NStmt (SwitchStmt a i cc cs)) = concat (map (\<lambda>s. labs (NStmt s)) (opt_list i)) @
      concat (map (\<lambda>s. labs (NExpr s)) (opt_list cc)) @ concat (map (\<lambda>s. labs (NCase s)) cs)"
  "labs (NStmt (SelectStmt a ms)) = concat (map (\<lambda>s. labs (NComm s)) ms)"
  "labs (NBlock (BlockStmt a ss)) = concat (map (\<lambda>s. labs (NStmt s)) ss)"
  "labs (NCase (CaseClause cc ss)) = concat (map (\<lambda>e. labs (NExpr e)) (opt_list cc)) @ concat (map (\<lambda>s. labs (NStmt s)) ss)"
  "labs (NComm (CommClause m ss)) = concat (map (\<lambda>e. labs (NStmt e)) (opt_list m)) @ concat (map (\<lambda>s. labs (NStmt s)) ss)"
  by (subst labs.simps, simp add: comp_def)+

inductive_cases exec_BranchE [elim!]: "exec P lab (BranchStmt tok l t) evs r"
inductive_cases exec_BlockE: "exec P lab (BlockS b) evs r"

text \<open>
  A run of the rewritten body: the run of the body followed by the exit when it leaves, or cut
  short by a panic inside the exit.
\<close>

definition exitRun :: "stmt list \<Rightarrow> bool \<Rightarrow> bool \<Rightarrow> string list \<Rightarrow> event list \<Rightarrow> outcome \<Rightarrow> event list \<Rightarrow> outcome \<Rightarrow> bool" where
  "exitRun E x y inner evs r evs' r' \<longleftrightarrow>
     (evs' = evs @ exitEvents E x y inner r \<and> r' = r) \<or>
     (leaves x y inner r \<and> r' = Out \<and> (\<exists>k < length E. evs' = evs @ map Do (take (Suc k) E)))"

lemma exitRun_refl [simp]: "\<not> leaves x y inner r \<Longrightarrow> exitRun E x y inner evs r evs' r' \<longleftrightarrow> evs' = evs \<and> r' = r"
  by (auto simp: exitRun_def exitEvents_def)

lemma exitRun_prefix: "exitRun E x y inner evs r evs' r' \<Longrightarrow> exitRun E x y inner (pre @ evs) r (pre @ evs') r'"
  by (auto simp: exitRun_def)

lemma exitRun_Cons: "exitRun E x y inner evs r evs' r' \<Longrightarrow> exitRun E x y inner (h # evs) r (h # evs') r'"
  by (auto simp: exitRun_def)

lemma exec_atomic: "exec P lab s evs r \<Longrightarrow> atomic s \<Longrightarrow> evs = [Do s] \<and> (r = Fall \<or> r = Out)"
  by (erule exec.cases) auto

lemma execs_atoms_inv:
  "execs P E evs r \<Longrightarrow> \<forall>s \<in> set E. atomic s \<Longrightarrow>
     (evs = map Do E \<and> r = Fall) \<or> (r = Out \<and> (\<exists>k < length E. evs = map Do (take (Suc k) E)))"
proof (induction E arbitrary: evs r)
  case (Cons s E)
  then consider (go) e1 e2 where "exec P [] s e1 Fall" "execs P E e2 r" "evs = e1 @ e2"
    | (stop) "exec P [] s evs r" "r \<noteq> Fall"
    unfolding execs_Cons_iff by blast
  then show ?case
  proof cases
    case go
    then show ?thesis using Cons.IH [OF go(2)] Cons.prems(2) exec_atomic [OF go(1)] by auto
  next
    case stop
    then show ?thesis using Cons.prems(2) exec_atomic [OF stop(1)] by auto
  qed
qed simp

lemma leave_inv:
  assumes E: "\<forall>s \<in> set E. atomic s" and run: "execs P (E @ [b]) evs' r'"
    and b: "\<And>evs r. exec P [] b evs r \<Longrightarrow> evs = [] \<and> r = r0" and r0: "exec P lab b [] r0" "leaves x y inner r0"
  shows "\<exists>evs r. exec P lab b evs r \<and> exitRun E x y inner evs r evs' r'"
proof -
  have "exitRun E x y inner [] r0 evs' r'"
    using run execs_atoms_inv [OF _ E] r0(2) b
    by (fastforce simp: execs_append_iff execs_Cons_iff exitRun_def exitEvents_def)
  with r0(1) show ?thesis by blast
qed

lemma branch_leave_inv:
  assumes "\<forall>s \<in> set E. atomic s" and "branchLeaves x y inner tok l" and "execs P (E @ [BranchStmt tok l t]) evs' r'"
  shows "\<exists>evs r. exec P lab (BranchStmt tok l t) evs r \<and> exitRun E x y inner evs r evs' r'"
proof (cases tok)
  case Break
  then show ?thesis using assms
    by (intro leave_inv [where ?r0.0 = "Brk l"])
      (auto simp: branchLeaves_def split: option.splits intro: BranchBreak)
next
  case Continue
  then show ?thesis using assms
    by (intro leave_inv [where ?r0.0 = "Cont l"])
      (auto simp: branchLeaves_def split: option.splits intro: BranchContinue)
next
  case Goto
  with assms(2) obtain l' where "l = Some l'" by (cases l) (auto simp: branchLeaves_def)
  with Goto show ?thesis using assms
    by (intro leave_inv [where ?r0.0 = "Gto l'"])
      (auto simp: branchLeaves_def intro: BranchGoto)
next
  case Fallthrough
  then show ?thesis using assms by (simp add: branchLeaves_def)
qed


lemma withExit_inv:
  "withExit x y inner (withLeave E) s = IfStmt i c t e \<Longrightarrow>
     \<exists>t0 e0. s = IfStmt i c t0 e0 \<and> t = withExitBlock x y inner (withLeave E) t0 \<and> e = map_option (withExit x y inner (withLeave E)) e0"
  "withExit x y inner (withLeave E) s = ForStmt a i' c' p b \<Longrightarrow>
     \<exists>b0. s = ForStmt a i' c' p b0 \<and> b = withExitBlock True True inner (withLeave E) b0"
  "withExit x y inner (withLeave E) s = SwitchStmt a i' c' cs \<Longrightarrow>
     \<exists>cs0. s = SwitchStmt a i' c' cs0 \<and> cs = map (withExitCase x True inner (withLeave E)) cs0"
  "withExit x y inner (withLeave E) s = SelectStmt a ms \<Longrightarrow>
     \<exists>ms0. s = SelectStmt a ms0 \<and> ms = map (withExitComm x True inner (withLeave E)) ms0"
  "withExit x y inner (withLeave E) s = LabeledStmt a l s' \<Longrightarrow>
     \<exists>s0. s = LabeledStmt a l s0 \<and> s' = withExit x y inner (withLeave E) s0"
  "withExit x y inner (withLeave E) s = PostfixIfStmt s' c \<Longrightarrow>
     \<exists>s0. s = PostfixIfStmt s0 c \<and> s' = withExit x y inner (withLeave E) s0"
  "withExit x y inner (withLeave E) s = BranchStmt tok lab t' \<Longrightarrow>
     s = BranchStmt tok lab t' \<and> \<not> branchLeaves x y inner tok lab"
  "withExit x y inner (withLeave E) s = EmptyStmt \<Longrightarrow> s = EmptyStmt"
  "withExit x y inner (withLeave E) s = ReturnStmt r \<Longrightarrow> s = ReturnStmt r"
  "withExit x y inner (withLeave E) s = ThrowStmt v \<Longrightarrow> s = ThrowStmt v"
  "atomic (withExit x y inner (withLeave E) s) \<Longrightarrow> withExit x y inner (withLeave E) s = s"
  by (cases s; simp add: withLeave_def split: if_splits)+

lemma withExit_BlockS:
  "withExit x y inner (withLeave E) s = BlockS (BlockStmt a ts) \<Longrightarrow>
     (\<exists>ss. s = BlockS (BlockStmt a ss) \<and> ts = map (withExit x y inner (withLeave E)) ss) \<or>
     (\<exists>tok l t. s = BranchStmt tok l t \<and> branchLeaves x y inner tok l \<and> ts = E @ [s])"
  by (cases s) (auto simp: withLeave_def split: if_splits elim!: withExitBlock.elims)

lemma withExitBlock_inv:
  "withExitBlock x y inner f b = BlockStmt a ts \<longleftrightarrow> (\<exists>ss. b = BlockStmt a ss \<and> ts = map (withExit x y inner f) ss)"
  by (cases b) auto


lemma withExit_body_inv:
  "withExit x y inner (withLeave E) s = IfStmt i c (BlockStmt a ts) e \<Longrightarrow>
     \<exists>ss e0. s = IfStmt i c (BlockStmt a ss) e0 \<and> ts = map (withExit x y inner (withLeave E)) ss"
  "withExit x y inner (withLeave E) s = IfStmt i c t (Some e1) \<Longrightarrow>
     \<exists>t0 e0. s = IfStmt i c t0 (Some e0) \<and> e1 = withExit x y inner (withLeave E) e0"
  "withExit x y inner (withLeave E) s = ForStmt a i' c' p (BlockStmt a' ts) \<Longrightarrow>
     \<exists>ss. s = ForStmt a i' c' p (BlockStmt a' ss) \<and> ts = map (withExit True True inner (withLeave E)) ss"
proof goal_cases
  case 1
  then show ?case by (auto dest!: withExit_inv(1) elim: withExitBlock.elims [OF sym])
next
  case 2
  then obtain t0 e0 where "s = IfStmt i c t0 e0" "Some e1 = map_option (withExit x y inner (withLeave E)) e0"
    by (auto dest!: withExit_inv(1))
  then show ?case by (cases e0) auto
next
  case 3
  then show ?case by (auto dest!: withExit_inv(2) elim: withExitBlock.elims [OF sym])
qed

lemma branch_stays:
  "\<not> branchLeaves x y inner tok l \<Longrightarrow> exec P lab (BranchStmt tok l t) evs r \<Longrightarrow> \<not> leaves x y inner r"
  by (auto simp: branchLeaves_def split: option.splits)

lemma branch_stays_run:
  assumes "exec P lab (BranchStmt tok l t) evs r" "BranchStmt tok l t = withExit x y inner (withLeave E) s"
  shows "\<exists>evs0 r0. exec P lab s evs0 r0 \<and> exitRun E x y inner evs0 r0 evs r"
  using assms(1) withExit_inv(7) [OF assms(2) [symmetric]] branch_stays [OF _ assms(1), of x y inner]
  by (intro exI [of _ evs] exI [of _ r]) simp

lemma exitRun_eq:
  "leaves x y inner r = leaves x' y' inner r \<Longrightarrow> exitRun E x y inner evs r evs' r' = exitRun E x' y' inner evs r evs' r'"
  by (simp add: exitRun_def exitEvents_def)

lemma exitRun_ends:
  assumes "lab \<noteq> [] \<longrightarrow> lab \<in> set inner" "exitRun E x True inner evs r evs' r'"
  shows "endsLoop lab r' \<longleftrightarrow> endsLoop lab r" "endsLoop lab r \<Longrightarrow> evs' = evs \<and> r' = r"
    "r' = Fth \<longleftrightarrow> r = Fth" "r' = Fall \<longleftrightarrow> r = Fall"
  using leaves_inner(2) [OF assms(1), of r x] assms(2) by (auto simp: exitRun_def exitEvents_def)

lemma exitRun_goes:
  assumes "lab \<noteq> [] \<longrightarrow> lab \<in> set inner" "exitRun E True True inner evs r evs' r'"
  shows "goesOn lab r' \<longleftrightarrow> goesOn lab r" "goesOn lab r \<Longrightarrow> evs' = evs \<and> r' = r"
  using leaves_inner(1) [OF assms(1), of r] assms(2) by (auto simp: exitRun_def exitEvents_def)

lemma exitRun_leave:
  assumes "lab \<noteq> [] \<longrightarrow> lab \<in> set inner" "exitRun E x True inner evs r evs' r'"
  shows "exitRun E x y inner evs (if endsLoop lab r then Fall else r) evs' (if endsLoop lab r' then Fall else r')"
proof (cases "endsLoop lab r")
  case True
  then show ?thesis using exitRun_ends [OF assms] by simp
next
  case False
  then show ?thesis using exitRun_ends [OF assms] exitRun_eq [OF leaves_inner(4) [OF False], of E x inner evs evs' r' y] assms(2) by simp
qed

lemma exitRun_same: "exitRun E x y inner evs Fall evs Fall" "exitRun E x y inner evs Out evs Out"
  by simp_all

lemma withExitComm_in:
  "CommClause c ts \<in> set (map (withExitComm x y inner f) ms) \<Longrightarrow>
     \<exists>ss. CommClause c ss \<in> set ms \<and> ts = map (withExit x y inner f) ss"
  by (induction ms) (auto elim: withExitComm.elims [OF sym])

lemma withExitCase_Cons:
  "CaseClause c ts # ds = map (withExitCase x y inner f) cs \<Longrightarrow>
     \<exists>ss cs0. cs = CaseClause c ss # cs0 \<and> ts = map (withExit x y inner f) ss \<and> ds = map (withExitCase x y inner f) cs0"
  by (auto simp: Cons_eq_map_conv elim: withExitCase.elims [OF sym])

lemma exitRun_Fall: "exitRun E x y inner evs r evs' Fall \<longleftrightarrow> evs' = evs \<and> r = Fall"
  by (auto simp: exitRun_def)

lemma exitRun_Fth: "exitRun E x y inner evs r evs' Fth \<longleftrightarrow> evs' = evs \<and> r = Fth"
  by (auto simp: exitRun_def)

lemma exitRun_leaveD:
  assumes "lab \<noteq> [] \<longrightarrow> lab \<in> set inner" "exitRun E x y inner evs (if endsLoop lab r then Fall else r) evs' r'"
  shows "\<exists>r1. exitRun E x True inner evs r evs' r1 \<and> r' = (if endsLoop lab r1 then Fall else r1)"
proof (cases "endsLoop lab r")
  case True
  then show ?thesis using leaves_inner(2) [OF assms(1) True, of x] assms(2) by (intro exI [of _ r]) simp
next
  case False
  with assms(2) have "exitRun E x True inner evs r evs' r'"
    by (simp add: exitRun_eq [OF leaves_inner(4) [OF False, of x inner y]])
  moreover from this False have "\<not> endsLoop lab r'" using exitRun_ends(1) [OF assms(1)] by blast
  ultimately show ?thesis by (intro exI [of _ r']) simp
qed

lemma execs_cut:
  "\<forall>s \<in> set E. atomic s \<Longrightarrow> k < length E \<Longrightarrow> (\<And>s. s \<in> set E \<Longrightarrow> \<not> panics P s) \<Longrightarrow> execs P E (map Do (take (Suc k) E)) Out"
proof (induction E arbitrary: k)
  case (Cons s E)
  then show ?case
    by (cases k) (force simp: execs_Cons_iff intro: AtomOut Atom)+
qed simp

lemma exitRun_prefixD: "exitRun E x y inner (pre @ evs) r evs' r' \<Longrightarrow> \<exists>evs1. evs' = pre @ evs1 \<and> exitRun E x y inner evs r evs1 r'"
  by (auto simp: exitRun_def)

lemma exitRun_ConsD: "exitRun E x y inner (h # evs) r evs' r' \<Longrightarrow> \<exists>evs1. evs' = h # evs1 \<and> exitRun E x y inner evs r evs1 r'"
  by (auto simp: exitRun_def)

lemma withExitCase_default:
  "defaultClause (map (withExitCase x y inner f) cs) = defaultClause cs"
  by (induction cs) (auto split: caseClause.splits elim: withExitCase.elims)

lemma leave_run:
  assumes E: "\<forall>s \<in> set E. atomic s \<and> \<not> panics P s" and b: "exec P [] b [] r" "r \<noteq> Fall"
    and run: "exitRun E x y inner [] r evs' r'" "leaves x y inner r"
  shows "exec P lab (withLeave E b) evs' r'"
proof -
  have "execs P (E @ [b]) evs' r'"
    using run b execs_atoms [OF E] execs_cut [of E _ P] E
    by (auto simp: exitRun_def exitEvents_def execs_append_iff execs_Cons_iff)
  then show ?thesis unfolding withLeave_def by (rule Block)
qed

lemma branch_leave_run:
  assumes "\<forall>s \<in> set E. atomic s \<and> \<not> panics P s" and "\<And>lab. exec P lab (BranchStmt tok l t) [] r"
    and "exitRun E x y inner [] r evs' r'"
  shows "exec P lab (withExit x y inner (withLeave E) (BranchStmt tok l t)) evs' r'"
proof (cases "branchLeaves x y inner tok l")
  case True
  moreover from True assms(2) [of lab] have "leaves x y inner r" "r \<noteq> Fall"
    by (auto simp: branchLeaves_def split: option.splits)
  ultimately show ?thesis using leave_run [OF assms(1,2) _ assms(3)] by simp
next
  case False
  with branch_stays [OF False assms(2)] assms show ?thesis by simp
qed

lemma withExit_complete:
  assumes E: "\<forall>s \<in> set E. atomic s \<and> \<not> panics P s"
  shows "exec P lab s evs r \<Longrightarrow> exitRun E x y inner evs r evs' r' \<Longrightarrow> set (labs (NStmt s)) \<subseteq> set inner \<Longrightarrow>
      lab \<noteq> [] \<longrightarrow> lab \<in> set inner \<Longrightarrow> exec P lab (withExit x y inner (withLeave E) s) evs' r'"
    and "execs P ss evs r \<Longrightarrow> exitRun E x y inner evs r evs' r' \<Longrightarrow> \<forall>s \<in> set ss. set (labs (NStmt s)) \<subseteq> set inner \<Longrightarrow>
      execs P (map (withExit x y inner (withLeave E)) ss) evs' r'"
    and "execClauses P lab cs evs r \<Longrightarrow> exitRun E x y inner evs r evs' r' \<Longrightarrow> \<forall>c \<in> set cs. set (labs (NCase c)) \<subseteq> set inner \<Longrightarrow>
      lab \<noteq> [] \<longrightarrow> lab \<in> set inner \<Longrightarrow> execClauses P lab (map (withExitCase x True inner (withLeave E)) cs) evs' r'"
proof (induction arbitrary: x y evs' r' and x y evs' r' and x y evs' r' rule: exec_execs_execClauses.inducts)
  case (Atom s lab)
  then have "withExit x y inner (withLeave E) s = s" by (cases s) auto
  then show ?case using Atom by (simp add: exec_execs_execClauses.Atom)
next
  case (AtomOut s lab)
  then have "withExit x y inner (withLeave E) s = s" by (cases s) auto
  then show ?case using AtomOut by (simp add: exec_execs_execClauses.AtomOut)
next
  case (Block ss evs r lab a)
  then show ?case by (auto simp: labs_stmt UN_subset_iff intro!: exec_execs_execClauses.Block)
next
  case (IfThen ss evs r lab i c a e)
  then show ?case by (auto simp: labs_stmt UN_subset_iff dest!: exitRun_ConsD intro!: exec_execs_execClauses.IfThen)
next
  case (IfElse s evs r lab i c t)
  then show ?case by (auto simp: labs_stmt UN_subset_iff dest!: exitRun_ConsD intro!: exec_execs_execClauses.IfElse)
next
  case (PostThen s evs r lab c)
  then show ?case by (auto simp: labs_stmt UN_subset_iff dest!: exitRun_ConsD intro!: exec_execs_execClauses.PostThen)
next
  case (Labeled l s evs r lab a)
  then show ?case by (auto simp: labs_stmt UN_subset_iff intro!: exec_execs_execClauses.Labeled)
next
  case (ForStep ss evs r lab a i c p a' evs2 r2)
  from exitRun_ConsD [OF ForStep.prems(1)] obtain evs1
    where evs1: "evs' = Head i c p # evs @ evs1" "exitRun E x y inner evs2 r2 evs1 r'"
    by (auto dest: exitRun_prefixD)
  have "execs P (map (withExit True True inner (withLeave E)) ss) evs r"
    using ForStep.IH(2) [of True True evs r] ForStep.prems leaves_inner(1) [OF ForStep.prems(3) ForStep.hyps(1)]
    by (simp add: labs_stmt UN_subset_iff)
  from exec_execs_execClauses.ForStep [OF this ForStep.hyps(1)] ForStep.IH(4) [OF evs1(2) ForStep.prems(2,3)] evs1(1)
  show ?case by simp
next
  case (ForBreak ss evs r lab a i c p a')
  have "execs P (map (withExit True True inner (withLeave E)) ss) evs r"
    using ForBreak.IH(2) [of True True evs r] ForBreak.prems leaves_inner(2) [OF ForBreak.prems(3) ForBreak.hyps(1)]
    by (simp add: labs_stmt UN_subset_iff)
  from exec_execs_execClauses.ForBreak [OF this ForBreak.hyps(1)] ForBreak.prems(1) show ?case by simp
next
  case (ForLeave ss evs r lab a i c p a')
  from exitRun_ConsD [OF ForLeave.prems(1)] obtain evs1
    where evs1: "evs' = Head i c p # evs1" "exitRun E x y inner evs r evs1 r'" by blast
  then have run: "exitRun E True True inner evs r evs1 r'"
    by (subst exitRun_eq [OF leaves_inner(3) [OF ForLeave.hyps]])
  have "execs P (map (withExit True True inner (withLeave E)) ss) evs1 r'"
    using ForLeave.IH(2) [OF run] ForLeave.prems by (simp add: labs_stmt UN_subset_iff)
  moreover have "\<not> goesOn lab r'" "\<not> endsLoop lab r'"
    using ForLeave.hyps exitRun_goes(1) [OF ForLeave.prems(3) run] exitRun_ends(1) [OF ForLeave.prems(3) run] by auto
  ultimately show ?case using exec_execs_execClauses.ForLeave [of P _ evs1 r' lab] evs1(1) by simp
next
  case (SwitchNone cs lab a i t)
  then show ?case using exec_execs_execClauses.SwitchNone withExitCase_default by simp
next
  case (SwitchCase lab cs2 evs r a i t cs1)
  from exitRun_ConsD [OF SwitchCase.prems(1)] obtain evs1
    where evs1: "evs' = Head i t None # evs1" "exitRun E x y inner evs r evs1 r'" by blast
  with SwitchCase show ?case
    using exec_execs_execClauses.SwitchCase [of P lab "map (withExitCase x True inner (withLeave E)) cs2" evs1 r']
    by (simp add: labs_stmt UN_subset_iff)
next
  case (SelectComm c ss cs evs r lab a)
  from exitRun_prefixD [OF SelectComm.prems(1)] obtain evs1 where evs1: "evs' = map Do (opt_list c) @ evs1"
    "exitRun E x y inner evs (if endsLoop lab r then Fall else r) evs1 r'" by blast
  then obtain r1 where r1: "exitRun E x True inner evs r evs1 r1" "r' = (if endsLoop lab r1 then Fall else r1)"
    using exitRun_leaveD [OF SelectComm.prems(3)] by blast
  have *: "execs P (map (withExit x True inner (withLeave E)) ss) evs1 r1"
    using SelectComm.IH(2) [OF r1(1)] SelectComm.prems(2) SelectComm.hyps(1) by (fastforce simp: labs_stmt UN_subset_iff)
  have in_set: "CommClause c (map (withExit x True inner (withLeave E)) ss) \<in> set (map (withExitComm x True inner (withLeave E)) cs)"
    using SelectComm.hyps(1) by (force intro: image_eqI [of _ _ "CommClause c ss"])
  show ?case
    using exec_execs_execClauses.SelectComm [OF in_set *, of lab] r1(2) evs1(1) by simp
next
  case (Clause ss evs r lab c cs)
  then obtain r1 where r1: "exitRun E x True inner evs r evs' r1" "r' = (if endsLoop lab r1 then Fall else r1)"
    using exitRun_leaveD [OF Clause.prems(3)] by blast
  have *: "execs P (map (withExit x True inner (withLeave E)) ss) evs' r1"
    using Clause.IH(2) [OF r1(1)] Clause.prems(2) by (simp add: labs_stmt UN_subset_iff)
  from r1(1) Clause.hyps have "r1 \<noteq> Fth" by (auto simp: exitRun_def)
  with exec_execs_execClauses.Clause [OF *] r1(2) show ?case by simp
next
  case (ClauseNext ss evs lab cs evs2 r c)
  from exitRun_prefixD [OF ClauseNext.prems(1)] obtain evs1
    where evs1: "evs' = evs @ evs1" "exitRun E x y inner evs2 r evs1 r'" by blast
  with ClauseNext show ?case
    by (auto simp: labs_stmt UN_subset_iff exitRun_same intro!: exec_execs_execClauses.ClauseNext)
next
  case (Next s evs ss evs2 r)
  from exitRun_prefixD [OF Next.prems(1)] obtain evs1
    where evs1: "evs' = evs @ evs1" "exitRun E x y inner evs2 r evs1 r'" by blast
  with Next show ?case by (auto intro!: exec_execs_execClauses.Next)
next
  case (Stop s evs r ss)
  moreover from Stop.prems Stop.hyps have "r' \<noteq> Fall" by (auto simp: exitRun_def)
  ultimately show ?case by (auto intro!: exec_execs_execClauses.Stop)
next
  case (BranchBreak lab l t)
  from branch_leave_run [OF E exec_execs_execClauses.BranchBreak this(1)] show ?case .
next
  case (BranchContinue lab l t)
  from branch_leave_run [OF E exec_execs_execClauses.BranchContinue this(1)] show ?case .
next
  case (BranchGoto lab l t)
  from branch_leave_run [OF E exec_execs_execClauses.BranchGoto this(1)] show ?case .
next
  case (BranchFallthrough lab l t)
  from branch_leave_run [OF E exec_execs_execClauses.BranchFallthrough this(1)] show ?case .
qed (auto intro: exec_execs_execClauses.intros simp: labs_stmt)

lemma withExit_sound:
  assumes E: "\<forall>s \<in> set E. atomic s \<and> \<not> panics P s"
  shows "exec P lab t evs' r' \<Longrightarrow> t = withExit x y inner (withLeave E) s \<Longrightarrow> set (labs (NStmt s)) \<subseteq> set inner \<Longrightarrow>
      lab \<noteq> [] \<longrightarrow> lab \<in> set inner \<Longrightarrow>
      \<exists>evs r. exec P lab s evs r \<and> exitRun E x y inner evs r evs' r'"
    and "execs P ts evs' r' \<Longrightarrow> ts = map (withExit x y inner (withLeave E)) ss \<Longrightarrow>
      \<forall>s \<in> set ss. set (labs (NStmt s)) \<subseteq> set inner \<Longrightarrow>
      \<exists>evs r. execs P ss evs r \<and> exitRun E x y inner evs r evs' r'"
    and "execClauses P lab ds evs' r' \<Longrightarrow> ds = map (withExitCase x True inner (withLeave E)) cs \<Longrightarrow>
      \<forall>c \<in> set cs. set (labs (NCase c)) \<subseteq> set inner \<Longrightarrow> lab \<noteq> [] \<longrightarrow> lab \<in> set inner \<Longrightarrow>
      \<exists>evs r. execClauses P lab cs evs r \<and> r \<noteq> Brk None \<and> exitRun E x True inner evs r evs' r'"
proof (induction arbitrary: x y s and x y ss and x cs rule: exec_execs_execClauses.inducts)
  case (Atom t lab)
  then show ?case using withExit_inv(11) [of x y inner E s] exec_execs_execClauses.Atom [of s P lab]
    by (intro exI [of _ "[Do s]"] exI [of _ Fall]) simp
next
  case (AtomOut t lab)
  then show ?case using withExit_inv(11) [of x y inner E s] exec_execs_execClauses.AtomOut [of s P lab]
    by (intro exI [of _ "[Do s]"] exI [of _ Out]) simp
next
  case (Block ts evs r lab a)
  from withExit_BlockS [OF Block.prems(1) [symmetric]] show ?case
  proof (elim disjE exE conjE)
    fix ss assume s: "s = BlockS (BlockStmt a ss)" "ts = map (withExit x y inner (withLeave E)) ss"
    with Block.prems(2) Block.IH(2) [OF s(2)] show ?thesis
      by (simp add: labs_stmt UN_subset_iff) (blast intro: exec_execs_execClauses.Block)
  next
    fix tok l t assume "s = BranchStmt tok l t" "branchLeaves x y inner tok l" "ts = E @ [s]"
    then show ?thesis using branch_leave_inv [of E x y inner tok l P t evs r lab] E Block.IH(1) by simp
  qed
next
  case (IfThen ts evs r lab i c a e)
  then obtain ss e0 where s: "s = IfStmt i c (BlockStmt a ss) e0" "ts = map (withExit x y inner (withLeave E)) ss"
    using withExit_body_inv(1) [OF IfThen.prems(1) [symmetric]] by blast
  with IfThen.prems IfThen.IH(2) [OF s(2)] show ?case
    by (simp add: labs_stmt UN_subset_iff) (blast intro: exec_execs_execClauses.IfThen exitRun_Cons)
next
  case (IfElse t evs r lab i c b)
  then obtain t0 e0 where s: "s = IfStmt i c t0 (Some e0)" "t = withExit x y inner (withLeave E) e0"
    using withExit_body_inv(2) [OF IfElse.prems(1) [symmetric]] by blast
  with IfElse.prems IfElse.IH(2) [OF s(2)] show ?case
    by (simp add: labs_stmt UN_subset_iff) (blast intro: exec_execs_execClauses.IfElse exitRun_Cons)
next
  case (PostThen t evs r lab c)
  then obtain s0 where s: "s = PostfixIfStmt s0 c" "t = withExit x y inner (withLeave E) s0"
    using withExit_inv(6) [OF PostThen.prems(1) [symmetric]] by blast
  with PostThen.prems PostThen.IH(2) [OF s(2)] show ?case
    by (simp add: labs_stmt UN_subset_iff) (blast intro: exec_execs_execClauses.PostThen exitRun_Cons)
next
  case (Labeled l t evs r lab a)
  then obtain s0 where s: "s = LabeledStmt a l s0" "t = withExit x y inner (withLeave E) s0"
    using withExit_inv(5) [OF Labeled.prems(1) [symmetric]] by blast
  with Labeled.prems Labeled.IH(2) [OF s(2)] show ?case
    by (simp add: labs_stmt UN_subset_iff) (blast intro: exec_execs_execClauses.Labeled)
next
  case (ForStep ts evs r lab a i c p a' evs' r')
  then obtain ss where s: "s = ForStmt a i c p (BlockStmt a' ss)" "ts = map (withExit True True inner (withLeave E)) ss"
    using withExit_body_inv(3) [OF ForStep.prems(1) [symmetric]] by blast
  moreover from ForStep.prems s(1) have "\<forall>s \<in> set ss. set (labs (NStmt s)) \<subseteq> set inner"
    by (simp add: labs_stmt UN_subset_iff)
  ultimately have "execs P ss evs r"
    using ForStep.IH(2) [OF s(2)] exitRun_goes [OF ForStep.prems(3)] ForStep.hyps by metis
  moreover from ForStep.IH(4) [OF ForStep.prems] obtain evs0 r0
    where "exec P lab s evs0 r0" "exitRun E x y inner evs0 r0 evs' r'" by blast
  ultimately show ?case
    using exec_execs_execClauses.ForStep [of P ss evs r lab a i c p a' evs0 r0] ForStep.hyps s(1)
      exitRun_Cons [OF exitRun_prefix [of E x y inner evs0 r0 evs' r' evs]] by blast
next
  case (ForBreak ts evs r lab a i c p a')
  then obtain ss where s: "s = ForStmt a i c p (BlockStmt a' ss)" "ts = map (withExit True True inner (withLeave E)) ss"
    using withExit_body_inv(3) [OF ForBreak.prems(1) [symmetric]] by blast
  moreover from ForBreak.prems s(1) have "\<forall>s \<in> set ss. set (labs (NStmt s)) \<subseteq> set inner"
    by (simp add: labs_stmt UN_subset_iff)
  ultimately have "execs P ss evs r"
    using ForBreak.IH(2) [OF s(2)] exitRun_ends [OF ForBreak.prems(3)] ForBreak.hyps by metis
  then show ?case
    using exec_execs_execClauses.ForBreak [of P ss evs r lab a i c p a'] ForBreak.hyps s(1)
    by (auto simp: exitRun_Fall)
next
  case (ForLeave ts evs r lab a i c p a')
  then obtain ss where s: "s = ForStmt a i c p (BlockStmt a' ss)" "ts = map (withExit True True inner (withLeave E)) ss"
    using withExit_body_inv(3) [OF ForLeave.prems(1) [symmetric]] by blast
  moreover from ForLeave.prems s(1) have "\<forall>s \<in> set ss. set (labs (NStmt s)) \<subseteq> set inner"
    by (simp add: labs_stmt UN_subset_iff)
  ultimately obtain evs0 r0 where run: "execs P ss evs0 r0" "exitRun E True True inner evs0 r0 evs r"
    using ForLeave.IH(2) [OF s(2)] by blast
  with ForLeave.hyps ForLeave.prems(3) have r0: "\<not> goesOn lab r0" "\<not> endsLoop lab r0"
    using exitRun_goes(1) exitRun_ends(1) by metis+
  from run(2) have "exitRun E x y inner evs0 r0 evs r"
    by (subst exitRun_eq [OF leaves_inner(3) [OF r0], symmetric])
  with exec_execs_execClauses.ForLeave [OF run(1) r0] s(1) show ?case by (blast intro: exitRun_Cons)
next
  case (SwitchNone ds lab a i t)
  then obtain cs where s: "s = SwitchStmt a i t cs" "ds = map (withExitCase x True inner (withLeave E)) cs"
    using withExit_inv(3) [OF SwitchNone.prems(1) [symmetric]] by blast
  then show ?case using SwitchNone.hyps exec_execs_execClauses.SwitchNone [of cs P lab a i t]
    by (simp only: withExitCase_default) (auto simp: exitRun_Fall)
next
  case (SwitchCase lab ds2 evs r a i t ds1)
  then obtain cs where s: "s = SwitchStmt a i t cs" "ds1 @ ds2 = map (withExitCase x True inner (withLeave E)) cs"
    using withExit_inv(3) [OF SwitchCase.prems(1) [symmetric]] by blast
  then obtain cs1 cs2 where cs: "cs = cs1 @ cs2" "ds2 = map (withExitCase x True inner (withLeave E)) cs2"
    by (auto simp: append_eq_map_conv)
  with SwitchCase.prems s(1) SwitchCase.IH(2) [OF cs(2)] obtain evs0 r0
    where run: "execClauses P lab cs2 evs0 r0" "r0 \<noteq> Brk None" "exitRun E x True inner evs0 r0 evs r"
    by (auto simp: labs_stmt UN_subset_iff)
  have "leaves x True inner r0 = leaves x y inner r0"
    using run(2) by (cases "(x, y, inner, r0)" rule: leaves.cases) auto
  with run(3) have "exitRun E x y inner evs0 r0 evs r" by (subst exitRun_eq [symmetric])
  with exec_execs_execClauses.SwitchCase [OF run(1)] s(1) cs(1) show ?case by (blast intro: exitRun_Cons)
next
  case (SelectComm c ts ds evs r lab a)
  then obtain ms where s: "s = SelectStmt a ms" "ds = map (withExitComm x True inner (withLeave E)) ms"
    using withExit_inv(4) [OF SelectComm.prems(1) [symmetric]] by blast
  then obtain ss where ss: "CommClause c ss \<in> set ms" "ts = map (withExit x True inner (withLeave E)) ss"
    using withExitComm_in SelectComm.hyps(1) by blast
  with SelectComm.prems s have "\<forall>s \<in> set ss. set (labs (NStmt s)) \<subseteq> set inner"
    by (fastforce simp: labs_stmt)
  then obtain evs0 r0 where run: "execs P ss evs0 r0" "exitRun E x True inner evs0 r0 evs r"
    using SelectComm.IH(2) [OF ss(2)] by blast
  then have "exitRun E x y inner (map Do (opt_list c) @ evs0) (if endsLoop lab r0 then Fall else r0)
      (map Do (opt_list c) @ evs) (if endsLoop lab r then Fall else r)"
    by (intro exitRun_prefix exitRun_leave [OF SelectComm.prems(3)])
  with exec_execs_execClauses.SelectComm [OF ss(1) run(1)] s(1) show ?case by blast
next
  case (Clause ts evs r lab c ds)
  then obtain ss cs0 where s: "cs = CaseClause c ss # cs0" "ts = map (withExit x True inner (withLeave E)) ss"
    using withExitCase_Cons [OF Clause.prems(1)] by blast
  with Clause.prems Clause.IH(2) [OF s(2)] obtain evs0 r0
    where run: "execs P ss evs0 r0" "exitRun E x True inner evs0 r0 evs r"
    by (auto simp: labs_stmt UN_subset_iff)
  then have "r0 \<noteq> Fth" using Clause.hyps exitRun_Fth by auto
  with exec_execs_execClauses.Clause [OF run(1)] s(1) exitRun_leave [OF Clause.prems(3) run(2), of True]
  show ?case by (fastforce split: if_splits)
next
  case (ClauseNext ts evs lab ds evs' r c)
  then obtain ss cs0 where s: "cs = CaseClause c ss # cs0" "ts = map (withExit x True inner (withLeave E)) ss"
      "ds = map (withExitCase x True inner (withLeave E)) cs0"
    using withExitCase_Cons [OF ClauseNext.prems(1)] by blast
  with ClauseNext.prems ClauseNext.IH(2) [OF s(2)] have run: "execs P ss evs Fth"
    by (auto simp: labs_stmt UN_subset_iff exitRun_Fth)
  from ClauseNext.prems s ClauseNext.IH(4) [OF s(3)] obtain evs0 r0
    where "execClauses P lab cs0 evs0 r0" "r0 \<noteq> Brk None" "exitRun E x True inner evs0 r0 evs' r"
    by auto
  with exec_execs_execClauses.ClauseNext [OF run] s(1) show ?case by (blast intro: exitRun_prefix)
next
  case (Next t evs ts evs' r)
  then obtain s ss0 where s: "ss = s # ss0" "t = withExit x y inner (withLeave E) s" "ts = map (withExit x y inner (withLeave E)) ss0"
    by (cases ss) auto
  with Next.prems Next.IH(2) [OF s(2)] have run: "exec P [] s evs Fall"
    by (auto simp: exitRun_Fall)
  from Next.prems s Next.IH(4) [OF s(3)] obtain evs0 r0
    where "execs P ss0 evs0 r0" "exitRun E x y inner evs0 r0 evs' r"
    by auto
  with exec_execs_execClauses.Next [OF run] s(1) show ?case by (blast intro: exitRun_prefix)
next
  case (Stop t evs r ts)
  then obtain s ss0 where s: "ss = s # ss0" "t = withExit x y inner (withLeave E) s"
    by (cases ss) auto
  with Stop.prems Stop.IH(2) [OF s(2)] obtain evs0 r0
    where run: "exec P [] s evs0 r0" "exitRun E x y inner evs0 r0 evs r" by auto
  with Stop.hyps have "r0 \<noteq> Fall" by (auto simp: exitRun_def)
  with exec_execs_execClauses.Stop [OF run(1)] s(1) run(2) show ?case by blast
next
  case (BranchBreak lab l t)
  from branch_stays_run [OF exec_execs_execClauses.BranchBreak this(1)] show ?case .
next
  case (BranchContinue lab l t)
  from branch_stays_run [OF exec_execs_execClauses.BranchContinue this(1)] show ?case .
next
  case (BranchGoto lab l t)
  from branch_stays_run [OF exec_execs_execClauses.BranchGoto this(1)] show ?case .
next
  case (BranchFallthrough lab l t)
  from branch_stays_run [OF exec_execs_execClauses.BranchFallthrough this(1)] show ?case .
next
  case Empty
  from withExit_inv(8) [OF Empty.prems(1) [symmetric]] show ?case
    by (auto intro!: exI exec_execs_execClauses.Empty exitRun_same)
next
  case Return
  from withExit_inv(9) [OF Return.prems(1) [symmetric]] show ?case
    by (auto intro!: exI exec_execs_execClauses.Return exitRun_same)
next
  case Throw
  from withExit_inv(10) [OF Throw.prems(1) [symmetric]] show ?case
    by (auto intro!: exI exec_execs_execClauses.Throw exitRun_same)
next
  case IfOut
  from withExit_inv(1) [OF IfOut.prems(1) [symmetric]] show ?case
    by (auto intro!: exI exec_execs_execClauses.IfOut exitRun_same)
next
  case IfNone
  from withExit_inv(1) [OF IfNone.prems(1) [symmetric]] show ?case
    by (auto intro!: exI exec_execs_execClauses.IfNone exitRun_same)
next
  case PostOut
  from withExit_inv(6) [OF PostOut.prems(1) [symmetric]] show ?case
    by (auto intro!: exI exec_execs_execClauses.PostOut exitRun_same)
next
  case PostNone
  from withExit_inv(6) [OF PostNone.prems(1) [symmetric]] show ?case
    by (auto intro!: exI exec_execs_execClauses.PostNone exitRun_same)
next
  case ForOut
  from withExit_inv(2) [OF ForOut.prems(1) [symmetric]] show ?case
    by (auto intro!: exI exec_execs_execClauses.ForOut exitRun_same)
next
  case ForDone
  from withExit_inv(2) [OF ForDone.prems(1) [symmetric]] ForDone.hyps show ?case
    by (auto intro!: exI exec_execs_execClauses.ForDone exitRun_same)
next
  case SwitchOut
  from withExit_inv(3) [OF SwitchOut.prems(1) [symmetric]] show ?case
    by (auto intro!: exI exec_execs_execClauses.SwitchOut exitRun_same)
next
  case SelectOut
  from withExit_inv(4) [OF SelectOut.prems(1) [symmetric]] show ?case
    by (auto intro!: exI exec_execs_execClauses.SelectOut exitRun_same)
qed simp_all
section \<open>Soundness of the terminating analysis\<close>

definition endsOk :: "(expr \<Rightarrow> bool) \<Rightarrow> addr set \<Rightarrow> node \<Rightarrow> bool" where
  "endsOk P E n \<longleftrightarrow> (\<forall>b evs. anyNode (\<lambda>m. m = NBlock b \<or> m = NStmt (BlockS b)) n \<longrightarrow> blockAddr b \<in> E \<longrightarrow>
     \<not> execs P (blockList b) evs Fall)"

abbreviation noForgoBreak :: "(string \<Rightarrow> bool \<Rightarrow> bool) \<Rightarrow> outcome \<Rightarrow> bool" where
  "noForgoBreak hb r \<equiv> (\<forall>l. \<not> hb l True \<longrightarrow> r \<noteq> Brk None) \<and>
     (\<forall>l imp. l \<noteq> [] \<longrightarrow> \<not> hb l imp \<longrightarrow> r \<noteq> Brk (Some l))"

lemma forgoHasBreak_sound:
  "exec P lab s evs r \<Longrightarrow> noForgoBreak (forgoHasBreak s) r"
  "execs P ss evs r \<Longrightarrow> noForgoBreak (forgoHasBreakList ss) r"
  "execClauses P lab cs evs r \<Longrightarrow>
     r \<noteq> Brk None \<and> (\<forall>l imp. l \<noteq> [] \<longrightarrow> \<not> list_ex (\<lambda>c. forgoHasBreakCase c l imp) cs \<longrightarrow> r \<noteq> Brk (Some l))"
proof (induction rule: exec_execs_execClauses.inducts)
  case (BranchBreak lab l t)
  then show ?case by (cases l) auto
next
  case (SelectComm c ss cs evs r lab a)
  then have "forgoHasBreakList ss l False \<Longrightarrow> list_ex (\<lambda>c. forgoHasBreakComm c l False) cs" for l
    by (force simp: list_ex_iff)
  with SelectComm show ?case by (cases "endsLoop lab r") (auto split: if_splits)
qed (auto split: if_splits)

lemma noForgoBreak_ends: "execs P ss evs r \<Longrightarrow> \<not> forgoHasBreakList ss lab True \<Longrightarrow> \<not> endsLoop lab r"
  using forgoHasBreak_sound(2) [of P ss evs r] by (cases "(lab, r)" rule: endsLoop.cases) auto

lemma endsOk_child:
  "endsOk P E n \<Longrightarrow> c \<in> set (children n) \<Longrightarrow> endsOk P E c"
  unfolding endsOk_def by (metis (no_types, lifting) anyNode.simps list_ex_iff)

lemma endsOk_block: "endsOk P E (NBlock b) \<Longrightarrow> blockAddr b \<in> E \<Longrightarrow> \<not> execs P (blockList b) evs Fall"
  by (simp add: endsOk_def anyNode.simps [of _ "NBlock b"])

lemma endsOk_stmt_block: "endsOk P E (NStmt (BlockS b)) \<Longrightarrow> endsOk P E (NBlock b)"
  by (cases b) (auto simp: endsOk_def)

lemma endsOk_stmts: "endsOk P E (NBlock (BlockStmt a ss)) \<Longrightarrow> s \<in> set ss \<Longrightarrow> endsOk P E (NStmt s)"
  by (auto simp: endsOk_def)

lemma termStmt_sound:
  assumes "\<And>x. isPanicCall x \<Longrightarrow> P x"
  shows "exec P lab s evs r \<Longrightarrow> endsOk P E (NStmt s) \<Longrightarrow> termStmt E s lab \<Longrightarrow> r \<noteq> Fall"
    and "execs P ss evs r \<Longrightarrow> \<forall>s \<in> set ss. endsOk P E (NStmt s) \<Longrightarrow> terminatingList E ss \<Longrightarrow> r \<noteq> Fall"
    and "execClauses P lab cs evs r \<Longrightarrow> \<forall>c \<in> set cs. endsOk P E (NCase c) \<Longrightarrow>
       \<forall>c \<in> set cs. (case c of CaseClause _ ss \<Rightarrow> terminatingList E ss \<and> \<not> forgoHasBreakList ss lab True) \<Longrightarrow> r \<noteq> Fall"
proof (induction rule: exec_execs_execClauses.inducts)
  case (Atom s lab)
  then show ?case using assms by (cases s) auto
next
  case (Block ss evs r lab a)
  then show ?case
    using endsOk_stmt_block [of P E "BlockStmt a ss"] endsOk_stmts [of P E a ss] endsOk_block [of P E "BlockStmt a ss" evs] by auto
next
  case (IfThen ss evs r lab i c a e)
  have "endsOk P E (NBlock (BlockStmt a ss))" using IfThen.prems by (auto simp: endsOk_def)
  then show ?case
    using IfThen endsOk_stmts endsOk_block [of P E "BlockStmt a ss" evs] by (auto split: option.splits)
next
  case (IfElse s evs r lab i c t)
  have "endsOk P E (NStmt s)" using IfElse.prems by (auto simp: endsOk_def)
  then show ?case using IfElse by auto
next
  case (Labeled l s evs r lab a)
  have "endsOk P E (NStmt s)" using Labeled.prems by (auto simp: endsOk_def)
  then show ?case using Labeled by auto
next
  case (ForBreak ss evs r lab a i c p a')
  then show ?case using noForgoBreak_ends by auto
next
  case (SwitchNone cs lab a i t)
  then show ?case by simp
next
  case (SwitchCase lab cs2 evs r a i t cs1)
  have "\<forall>c \<in> set cs2. endsOk P E (NCase c)" using SwitchCase.prems by (auto simp: endsOk_def)
  then show ?case using SwitchCase by (auto simp: list_all_iff)
next
  case (SelectComm c ss cs evs r lab a)
  have "\<forall>s \<in> set ss. endsOk P E (NStmt s)" using SelectComm.prems(1) SelectComm.hyps(1)
    unfolding endsOk_def by fastforce
  then show ?case using SelectComm noForgoBreak_ends by (fastforce simp: list_all_iff)
next
  case Nil
  then show ?case by (simp add: terminatingList.simps lastNonEmpty_def)
next
  case (Next s evs ss evs' r)
  then show ?case
    by (auto simp: terminatingList.simps lastNonEmpty_Cons split: option.splits if_splits)
next
  case (Clause ss evs r lab c cs)
  have "\<forall>s \<in> set ss. endsOk P E (NStmt s)" using Clause.prems by (auto simp: endsOk_def)
  then show ?case using Clause noForgoBreak_ends by auto
qed (auto split: option.splits if_splits)


section \<open>The runs of a lowered with statement\<close>

text \<open>
  What the exit adds to a run of the body: nothing when the body ends by a return, a throw, a
  panic or a branch that stays inside; otherwise the whole exit, unless the exit itself panics.
\<close>

definition withRun :: "stmt list \<Rightarrow> string list \<Rightarrow> event list \<Rightarrow> outcome \<Rightarrow> event list \<Rightarrow> outcome \<Rightarrow> bool" where
  "withRun E inner evs r evs' r' \<longleftrightarrow>
     (if r = Fall \<or> leaves False False inner r
      then (evs' = evs @ map Do E \<and> r' = r) \<or> (r' = Out \<and> (\<exists>k < length E. evs' = evs @ map Do (take (Suc k) E)))
      else evs' = evs \<and> r' = r)"

definition cutRun :: "stmt list \<Rightarrow> event list \<Rightarrow> outcome \<Rightarrow> bool" where
  "cutRun E evs r \<longleftrightarrow> r = Out \<and> (\<exists>k < length E. evs = map Do (take (Suc k) E))"

lemma execs_atoms_iff:
  "\<forall>s \<in> set E. atomic s \<and> \<not> panics P s \<Longrightarrow> execs P E evs r \<longleftrightarrow> (evs = map Do E \<and> r = Fall) \<or> cutRun E evs r"
  using execs_atoms [of E P] execs_atoms_inv [of P E evs r] execs_cut [of E _ P] unfolding cutRun_def by blast

lemma exits_iff:
  assumes E: "\<forall>s \<in> set E. atomic s \<and> \<not> panics P s"
  shows "execs P (forgoWithExits (blockList body) False False (innerLabels body) (withLeave E)) evs r \<longleftrightarrow>
     (\<exists>evs0 r0. execs P (blockList body) evs0 r0 \<and> exitRun E False False (innerLabels body) evs0 r0 evs r)"
    (is "?L = ?R")
proof -
  have labs: "\<forall>s \<in> set (blockList body). set (labs (NStmt s)) \<subseteq> set (innerLabels body)"
    by (cases body) (auto simp: innerLabels_labs labs_stmt)
  show ?thesis
    using withExit_sound(2) [OF E _ refl labs] withExit_complete(2) [OF E _ _ labs]
    unfolding forgoWithExits_def by blast
qed


lemma exec_BlockS_iff: "exec P lab (BlockS (BlockStmt a ss)) evs r \<longleftrightarrow> execs P ss evs r"
  by (auto elim: exec_BlockE intro: Block)

lemma withRun_leave: "r \<noteq> Fall \<Longrightarrow> withRun E inner evs r evs' r' \<longleftrightarrow> exitRun E False False inner evs r evs' r'"
  by (auto simp: withRun_def exitRun_def exitEvents_def)

lemma withRun_Fall:
  assumes "\<forall>s \<in> set E. atomic s \<and> \<not> panics P s"
  shows "withRun E inner evs Fall evs' r' \<longleftrightarrow> (\<exists>evs2. execs P E evs2 r' \<and> evs' = evs @ evs2)"
  unfolding execs_atoms_iff [OF assms] by (auto simp: withRun_def cutRun_def)

lemma exit_at_end:
  assumes E: "\<forall>s \<in> set E. atomic s \<and> \<not> panics P s"
  shows "execs P (BlockS (BlockStmt a (forgoWithExits (blockList body) False False (innerLabels body) (withLeave E))) # E) evs r \<longleftrightarrow>
     (\<exists>evs0 r0. execs P (blockList body) evs0 r0 \<and> withRun E (innerLabels body) evs0 r0 evs r)"
    (is "?L \<longleftrightarrow> (\<exists>evs0 r0. ?body evs0 r0 \<and> ?run evs0 r0)")
proof -
  have "?L \<longleftrightarrow> (\<exists>e1. ?body e1 Fall \<and> ?run e1 Fall) \<or>
      (\<exists>evs0 r0. ?body evs0 r0 \<and> exitRun E False False (innerLabels body) evs0 r0 evs r \<and> r \<noteq> Fall)"
    unfolding execs_Cons_iff exec_BlockS_iff exits_iff [OF E] exitRun_Fall withRun_Fall [OF E] by blast
  also have "\<dots> \<longleftrightarrow> (\<exists>evs0 r0. ?body evs0 r0 \<and> ?run evs0 r0)"
  proof (intro iffI; elim disjE exE conjE)
    fix evs0 r0 assume "?body evs0 r0" "exitRun E False False (innerLabels body) evs0 r0 evs r" "r \<noteq> Fall"
    moreover from this have "r0 \<noteq> Fall" by (auto simp: exitRun_def)
    ultimately show "\<exists>evs0 r0. ?body evs0 r0 \<and> ?run evs0 r0" using withRun_leave by blast
  next
    fix evs0 r0 assume run: "?body evs0 r0" "?run evs0 r0"
    show "(\<exists>e1. ?body e1 Fall \<and> ?run e1 Fall) \<or>
      (\<exists>evs0 r0. ?body evs0 r0 \<and> exitRun E False False (innerLabels body) evs0 r0 evs r \<and> r \<noteq> Fall)"
    proof (cases "r0 = Fall")
      case False
      with run(2) have "exitRun E False False (innerLabels body) evs0 r0 evs r" by (simp add: withRun_leave)
      moreover from this False have "r \<noteq> Fall" by (auto simp: exitRun_def)
      ultimately show ?thesis using run(1) by blast
    qed (use run in blast)
  qed blast
  finally show ?thesis .
qed

lemma body_at_end:
  assumes E: "\<forall>s \<in> set E. atomic s \<and> \<not> panics P s" and "\<And>evs. \<not> execs P (blockList body) evs Fall"
  shows "execs P [BlockS (BlockStmt a (forgoWithExits (blockList body) False False (innerLabels body) (withLeave E)))] evs r \<longleftrightarrow>
     (\<exists>evs0 r0. execs P (blockList body) evs0 r0 \<and> withRun E (innerLabels body) evs0 r0 evs r)"
proof -
  have "execs P [BlockS (BlockStmt a (forgoWithExits (blockList body) False False (innerLabels body) (withLeave E)))] evs r \<longleftrightarrow>
      execs P (forgoWithExits (blockList body) False False (innerLabels body) (withLeave E)) evs r"
    by (auto simp: execs_Cons_iff exec_BlockS_iff)
  also have "\<dots> \<longleftrightarrow> (\<exists>evs0 r0. execs P (blockList body) evs0 r0 \<and> exitRun E False False (innerLabels body) evs0 r0 evs r)"
    by (rule exits_iff [OF E])
  also have "\<dots> \<longleftrightarrow> (\<exists>evs0 r0. execs P (blockList body) evs0 r0 \<and> withRun E (innerLabels body) evs0 r0 evs r)"
  proof (intro ex_cong1 conj_cong refl)
    fix evs0 r0 assume "execs P (blockList body) evs0 r0"
    with assms(2) have "r0 \<noteq> Fall" by blast
    then show "exitRun E False False (innerLabels body) evs0 r0 evs r = withRun E (innerLabels body) evs0 r0 evs r"
      by (simp add: withRun_leave)
  qed
  finally show ?thesis .
qed

theorem withFinish_runs:
  assumes P: "\<And>x. isPanicCall x \<Longrightarrow> P x"
    and pre: "\<forall>s \<in> set pre. atomic s \<and> \<not> panics P s" and E: "\<forall>s \<in> set E. atomic s \<and> \<not> panics P s"
    and ends: "endsOk P (wlEnds st) (NStmt (BlockS body))"
  shows "exec P lab (fst (withFinish E (\<lambda>b. pre @ [BlockS b]) body st)) evs r \<longleftrightarrow>
     cutRun pre evs r \<or>
     (\<exists>evs0 r0 evs1. execs P (blockList body) evs0 r0 \<and> withRun E (innerLabels body) evs0 r0 evs1 r \<and>
        evs = map Do pre @ evs1)"
proof -
  let ?b = "BlockS (BlockStmt (blockAddr body) (forgoWithExits (blockList body) False False (innerLabels body) (withLeave E)))"
  define t where "t = termStmt (wlEnds st) (BlockS body) []"
  have t: "\<not> execs P (blockList body) evs Fall" if t for evs
    using termStmt_sound(1) [OF P _ ends, of lab evs Fall] exec_BlockS_iff [of P lab "blockAddr body" "blockList body"] that unfolding t_def by (cases body) auto
  have tail: "execs P (?b # (if t then [] else E)) evs1 r \<longleftrightarrow>
      (\<exists>evs0 r0. execs P (blockList body) evs0 r0 \<and> withRun E (innerLabels body) evs0 r0 evs1 r)" for evs1
    using exit_at_end [OF E] body_at_end [OF E t] by simp
  have "exec P lab (fst (withFinish E (\<lambda>b. pre @ [BlockS b]) body st)) evs r \<longleftrightarrow>
      execs P (pre @ (?b # (if t then [] else E))) evs r"
    unfolding withFinish_def by (simp add: exec_BlockS_iff t_def Let_def)
  also have "\<dots> \<longleftrightarrow> cutRun pre evs r \<or> (\<exists>evs1. execs P (?b # (if t then [] else E)) evs1 r \<and> evs = map Do pre @ evs1)"
    unfolding execs_append_iff execs_atoms_iff [OF pre] by (auto simp: cutRun_def)
  finally show ?thesis unfolding tail by blast
qed

section \<open>Properties\<close>

lemma closeSetup_simple: "\<forall>s \<in> set (closeSetup en x v n). atomic s \<and> \<not> panics P s"
  by (simp add: closeSetup_def)

lemma closeExit_simple: "\<forall>s \<in> set (closeExit en x n). atomic s \<and> \<not> panics isPanicCall s"
  by (simp add: closeExit_def closeCall_def)





text \<open>
  The pass decides by the spelling \<^verbatim>\<open>panic\<close>. Where a program declares a function of that name
  that returns (\<open>P\<close> is then false of the call), a body ending in such a call falls off its end,
  and the lowered statement has a run without any call of Close before the end of the block.
\<close>

theorem with_shadowed_panic_skips_exit:
  assumes "hasClose info a"
  shows "exec (\<lambda>_. False) lab (fst (withLower info en nogc x v
        (BlockStmt a [ExprStmt (CallExpr (Name ''panic'') [] False)]) st))
      (map Do (closeSetup en x v (num info a))
         @ [Do (ExprStmt (CallExpr (Name ''panic'') [] False))]) Fall"
proof -
  let ?c = "ExprStmt (CallExpr (Name ''panic'') [] False)"
  have "execs (\<lambda>_. False) [BlockS (BlockStmt a [?c])] [Do ?c] Fall"
    using execs_atoms [of "[?c]" "\<lambda>_. False"] by (simp add: execs_Cons_iff exec_BlockS_iff)
  moreover have "execs (\<lambda>_. False) (closeSetup en x v (num info a))
      (map Do (closeSetup en x v (num info a))) Fall"
    using execs_atoms [OF closeSetup_simple] .
  ultimately have "execs (\<lambda>_. False) (closeBlock en x v (num info a) (BlockStmt a [?c]))
      (map Do (closeSetup en x v (num info a)) @ [Do ?c]) Fall"
    by (auto simp: closeBlock_def execs_append_iff)
  then show ?thesis
    using assms by (simp add: withLower_def withFinish_def Let_def exec_BlockS_iff terminatingList.simps
        lastNonEmpty_def forgoWithExits_def)
qed

theorem with_shadowed_panic_skips_exit_witness:
  "exec (\<lambda>_. False) [] (fst (withLower \<lparr>hasClose = \<lambda>_. True, isType = \<lambda>_. False, copies = \<lambda>_ _. 0, num = \<lambda>_. 1\<rparr>
        [] False ''f'' (Name ''v'') (BlockStmt 2 [ExprStmt (CallExpr (Name ''panic'') [] False)])
        \<lparr>wlN = 0, wlFrees = False, wlEnds = {}, wlErrs = []\<rparr>))
      (map Do (closeSetup [] ''f'' (Name ''v'')
          (num \<lparr>hasClose = \<lambda>_. True, isType = \<lambda>_. False, copies = \<lambda>_ _. 0, num = \<lambda>_. 1\<rparr> 2))
         @ [Do (ExprStmt (CallExpr (Name ''panic'') [] False))]) Fall"
  by (rule with_shadowed_panic_skips_exit) simp

end
