(* ===== verification/GoConstant.thy ===== *)
theory GoConstant
  imports Prelude "HOL-Library.Word" "HOL-Library.Signed_Division"
begin

text \<open>
  \<^verbatim>\<open>src/src/go/constant/value.go\<close>: the constants compile-time evaluation computes with, as far as it
  uses them. Integers are exact in the source, but small ones are kept in an \<^verbatim>\<open>int64\<close> and computed
  with machine arithmetic under guards; the model keeps the guards and the wrap-around, and
  \<open>intOp_exact\<close> shows what they guarantee. The representation of floating-point constants is a
  parameter: the type \<open>'f\<close> with the operations \<open>floatOps\<close>. Complex constants are left out. A Go panic
  is \<open>None\<close>.
\<close>

unbundle bit_operations_syntax

section \<open>Values\<close>

datatype token = ADD | SUB | MUL | QUO | QUO_ASSIGN | REM | BAND | BOR | BXOR | AND_NOT | LAND | LOR | SHL | SHR

datatype 'f cval = UnknownVal | BoolV bool | StringV string | IntV int | FloatV 'f
  | CompositeStruct "string list" "(string \<times> 'f cval) list"
  | CompositeArray "'f cval list"

datatype kind = Unknown | KBool | KString | KInt | KFloat | KComposite

fun Kind :: "'f cval \<Rightarrow> kind" where
  "Kind UnknownVal = Unknown"
| "Kind (BoolV _) = KBool"
| "Kind (StringV _) = KString"
| "Kind (IntV _) = KInt"
| "Kind (FloatV _) = KFloat"
| "Kind (CompositeStruct _ _) = KComposite"
| "Kind (CompositeArray _) = KComposite"

record 'f floatOps =
  foOfInt :: "int \<Rightarrow> 'f"
  foToInt :: "'f \<Rightarrow> int option"
  foQuoInts :: "int \<Rightarrow> int \<Rightarrow> 'f"
  foBin :: "token \<Rightarrow> 'f \<Rightarrow> 'f \<Rightarrow> 'f option"
  foSign :: "'f \<Rightarrow> int"
  foTrunc64 :: "'f \<Rightarrow> int option"
  foRound64 :: "'f \<Rightarrow> 'f"
  foExact64 :: "'f \<Rightarrow> int option"

section \<open>Integers\<close>

text \<open>An integer is an \<^verbatim>\<open>int64Val\<close> when it fits, an \<^verbatim>\<open>intVal\<close> otherwise (\<^verbatim>\<open>makeInt\<close>).\<close>

definition isInt64 :: "int \<Rightarrow> bool" where
  "isInt64 n \<longleftrightarrow> - (2 ^ 63) \<le> n \<and> n < 2 ^ 63"

definition is63bit :: "int \<Rightarrow> bool" where
  "is63bit x \<longleftrightarrow> - (2 ^ 62) \<le> x \<and> x \<le> 2 ^ 62 - 1"

definition is32bit :: "int \<Rightarrow> bool" where
  "is32bit x \<longleftrightarrow> - (2 ^ 31) \<le> x \<and> x \<le> 2 ^ 31 - 1"

definition int64 :: "int \<Rightarrow> int" where
  "int64 n = signed_take_bit 63 n"

fun int64Op :: "token \<Rightarrow> int \<Rightarrow> int \<Rightarrow> int option" where
  "int64Op ADD a b = Some (if \<not> is63bit a \<or> \<not> is63bit b then a + b else int64 (a + b))"
| "int64Op SUB a b = Some (if \<not> is63bit a \<or> \<not> is63bit b then a - b else int64 (a - b))"
| "int64Op MUL a b = Some (if \<not> is32bit a \<or> \<not> is32bit b then a * b else int64 (a * b))"
| "int64Op QUO_ASSIGN a b = (if b = 0 then None else Some (int64 (a sdiv b)))"
| "int64Op REM a b = (if b = 0 then None else Some (int64 (a smod b)))"
| "int64Op BAND a b = Some (a AND b)"
| "int64Op BOR a b = Some (a OR b)"
| "int64Op BXOR a b = Some (a XOR b)"
| "int64Op AND_NOT a b = Some (a AND NOT b)"
| "int64Op _ a b = None"

fun bigOp :: "token \<Rightarrow> int \<Rightarrow> int \<Rightarrow> int option" where
  "bigOp ADD a b = Some (a + b)"
| "bigOp SUB a b = Some (a - b)"
| "bigOp MUL a b = Some (a * b)"
| "bigOp QUO_ASSIGN a b = (if b = 0 then None else Some (a sdiv b))"
| "bigOp REM a b = (if b = 0 then None else Some (a smod b))"
| "bigOp BAND a b = Some (a AND b)"
| "bigOp BOR a b = Some (a OR b)"
| "bigOp BXOR a b = Some (a XOR b)"
| "bigOp AND_NOT a b = Some (a AND NOT b)"
| "bigOp _ a b = None"

definition intOp :: "token \<Rightarrow> int \<Rightarrow> int \<Rightarrow> int option" where
  "intOp op a b = (if isInt64 a \<and> isInt64 b then int64Op op a b else bigOp op a b)"

section \<open>Operations\<close>

fun ord :: "'f cval \<Rightarrow> int" where
  "ord UnknownVal = 0"
| "ord (BoolV _) = 1"
| "ord (StringV _) = 1"
| "ord (IntV n) = (if isInt64 n then 2 else 3)"
| "ord (FloatV _) = 4"
| "ord _ = -1"

text \<open>\<^verbatim>\<open>match0\<close> when \<open>x\<close> has the smaller order: both integers stay, an integer becomes a float beside one,
  anything else takes both places.\<close>

fun match0 :: "'f floatOps \<Rightarrow> 'f cval \<Rightarrow> 'f cval \<Rightarrow> 'f cval \<times> 'f cval" where
  "match0 fo (IntV a) (IntV b) = (IntV a, IntV b)"
| "match0 fo (IntV a) (FloatV y) = (FloatV (foOfInt fo a), FloatV y)"
| "match0 fo x y = (x, x)"

definition match :: "'f floatOps \<Rightarrow> 'f cval \<Rightarrow> 'f cval \<Rightarrow> 'f cval \<times> 'f cval" where
  "match fo x y =
     (if ord x < ord y then match0 fo x y
      else if ord x > ord y then (case match0 fo y x of (y', x') \<Rightarrow> (x', y'))
      else (x, y))"

definition constBinaryOp :: "'f floatOps \<Rightarrow> 'f cval \<Rightarrow> token \<Rightarrow> 'f cval \<Rightarrow> 'f cval option" where
  "constBinaryOp fo x op y = (case match fo x y of
     (UnknownVal, _) \<Rightarrow> Some UnknownVal
   | (BoolV a, BoolV b) \<Rightarrow> (if op = LAND then Some (BoolV (a \<and> b)) else if op = LOR then Some (BoolV (a \<or> b)) else None)
   | (IntV a, IntV b) \<Rightarrow>
       (if op = QUO then (if b = 0 then None else Some (FloatV (foQuoInts fo a b)))
        else map_option IntV (intOp op a b))
   | (FloatV a, FloatV b) \<Rightarrow> map_option FloatV (foBin fo op a b)
   | (StringV a, StringV b) \<Rightarrow> (if op = ADD then Some (StringV (a @ b)) else None)
   | _ \<Rightarrow> None)"

fun ToInt :: "'f floatOps \<Rightarrow> 'f cval \<Rightarrow> 'f cval" where
  "ToInt fo (IntV n) = IntV n"
| "ToInt fo (FloatV x) = (case foToInt fo x of None \<Rightarrow> UnknownVal | Some n \<Rightarrow> IntV n)"
| "ToInt fo _ = UnknownVal"

fun ToFloat :: "'f floatOps \<Rightarrow> 'f cval \<Rightarrow> 'f cval" where
  "ToFloat fo (IntV n) = FloatV (foOfInt fo n)"
| "ToFloat fo (FloatV x) = FloatV x"
| "ToFloat fo _ = UnknownVal"

fun Sign :: "'f floatOps \<Rightarrow> 'f cval \<Rightarrow> int option" where
  "Sign fo (IntV n) = Some (sgn n)"
| "Sign fo (FloatV x) = Some (foSign fo x)"
| "Sign fo UnknownVal = Some 1"
| "Sign fo _ = None"

fun Shift :: "'f cval \<Rightarrow> token \<Rightarrow> nat \<Rightarrow> 'f cval option" where
  "Shift UnknownVal op s = Some UnknownVal"
| "Shift (IntV n) op s =
     (if s = 0 then Some (IntV n)
      else if op = SHL then Some (IntV (push_bit s n)) else if op = SHR then Some (IntV (drop_bit s n)) else None)"
| "Shift _ op s = None"

text \<open>\<^verbatim>\<open>Int64Val\<close> and \<^verbatim>\<open>Uint64Val\<close>: the value and whether it is exact.\<close>

fun Int64Val :: "'f cval \<Rightarrow> (int \<times> bool) option" where
  "Int64Val (IntV n) = Some (int64 n, isInt64 n)"
| "Int64Val UnknownVal = Some (0, False)"
| "Int64Val _ = None"

fun Uint64Val :: "'f cval \<Rightarrow> (int \<times> bool) option" where
  "Uint64Val (IntV n) = Some (take_bit 64 n, 0 \<le> n \<and> n < 2 ^ 64)"
| "Uint64Val UnknownVal = Some (0, False)"
| "Uint64Val _ = None"

section \<open>Exactness\<close>

lemma int64_id: "isInt64 n \<Longrightarrow> int64 n = n"
  by (simp add: isInt64_def int64_def signed_take_bit_int_eq_self)

lemma sdiv_abs: "\<bar>a sdiv b\<bar> \<le> \<bar>a\<bar> div \<bar>b\<bar>" for a b :: int
  by (simp add: signed_divide_int_def abs_mult abs_sgn_eq pos_imp_zdiv_nonneg_iff)

lemma sdiv_bound: "b \<noteq> 0 \<Longrightarrow> \<bar>a sdiv b\<bar> \<le> \<bar>a\<bar>" for a b :: int
proof -
  assume "b \<noteq> 0"
  then have "1 \<le> \<bar>b\<bar>" by linarith
  then show ?thesis using sdiv_abs [of a b] zdiv_mono2 [of "\<bar>a\<bar>" 1 "\<bar>b\<bar>"] by simp
qed

lemma sdiv_int64:
  assumes "isInt64 a" "isInt64 b" "b \<noteq> 0" "\<not> (a = - (2 ^ 63) \<and> b = -1)"
  shows "isInt64 (a sdiv b)"
proof (cases "a = - (2 ^ 63)")
  case False
  then have "\<bar>a\<bar> < 2 ^ 63" using assms(1) by (auto simp: isInt64_def)
  then show ?thesis using sdiv_bound [OF assms(3), of a] by (auto simp: isInt64_def)
next
  case True
  then consider "b = 1" | "2 \<le> \<bar>b\<bar>" using assms(3,4) by linarith
  then show ?thesis
  proof cases
    case 1
    then show ?thesis using True by (simp add: isInt64_def)
  next
    case 2
    have "\<bar>a\<bar> div \<bar>b\<bar> \<le> \<bar>a\<bar> div 2" using 2 by (intro zdiv_mono2) simp_all
    then show ?thesis using sdiv_abs [of a b] True by (auto simp: isInt64_def)
  qed
qed

lemma smod_int64:
  assumes "isInt64 b" "b \<noteq> 0"
  shows "isInt64 (a smod b)"
  using smod_int_range [OF assms(2), of a] assms(1) by (auto simp: isInt64_def)

lemma intOp_exact:
  "intOp op a b = (if op = QUO_ASSIGN \<and> a = - (2 ^ 63) \<and> b = -1 then Some (- (2 ^ 63)) else bigOp op a b)"
proof (cases "isInt64 a \<and> isInt64 b")
  case True
  have "is32bit a \<Longrightarrow> is32bit b \<Longrightarrow> isInt64 (a * b)"
  proof -
    assume "is32bit a" "is32bit b"
    then have "\<bar>a\<bar> \<le> 2 ^ 31" "\<bar>b\<bar> \<le> 2 ^ 31" by (auto simp: is32bit_def)
    then have "\<bar>a * b\<bar> \<le> 2 ^ 31 * 2 ^ 31" unfolding abs_mult by (intro mult_mono) auto
    then show ?thesis by (auto simp: isInt64_def)
  qed
  moreover have "is63bit a \<Longrightarrow> is63bit b \<Longrightarrow> isInt64 (a + b) \<and> isInt64 (a - b)"
    by (auto simp: is63bit_def isInt64_def)
  moreover have "int64 9223372036854775808 = - 9223372036854775808" by (simp add: int64_def)
  moreover have "\<not> (a = - (2 ^ 63) \<and> b = -1) \<Longrightarrow> b \<noteq> 0 \<Longrightarrow> int64 (a sdiv b) = a sdiv b"
    using True sdiv_int64 int64_id by blast
  moreover have "b \<noteq> 0 \<Longrightarrow> int64 (a smod b) = a smod b"
    using True smod_int64 int64_id by blast
  ultimately show ?thesis
    using True by (cases op) (auto simp: intOp_def int64_id)
qed (auto simp: intOp_def isInt64_def)


lemma constBinaryOp_int:
  "constBinaryOp fo (IntV a) op (IntV b) =
     (if op = QUO then (if b = 0 then None else Some (FloatV (foQuoInts fo a b))) else map_option IntV (intOp op a b))"
  by (simp add: constBinaryOp_def match_def)


section \<open>Properties\<close>

text \<open>
  C36: the machine arithmetic used for small integer constants, with its overflow guards, gives
  exactly what the arbitrary-precision path gives, for every operator and all operands but one
  pair: the quotient of the least int64 and -1 wraps around to the least int64.
\<close>

theorem constant_integers_exact:
  "intOp op a b = (if op = QUO_ASSIGN \<and> a = - (2 ^ 63) \<and> b = -1 then Some (- (2 ^ 63)) else bigOp op a b)"
  by (rule intOp_exact)

end
