(* ===== verification/GoStrings.thy ===== *)
theory GoStrings
  imports Prelude "HOL-Library.Sublist" "HOL-Library.Char_ord" "HOL-Library.List_Lexorder" "HOL-Library.Product_Lexorder"
begin

text \<open>
  The parts of Go's string library that the embedded file systems use: suffixes and prefixes,
  the last index of a byte, the validity of UTF-8 (\<^verbatim>\<open>src/src/unicode/utf8/utf8.go\<close>) and of the
  path names of \<^verbatim>\<open>src/src/io/fs/fs.go\<close>. A Go string is a list of bytes, a HOL \<open>string\<close>, compared
  lexicographically by byte.
\<close>

section \<open>Package strings\<close>

definition TrimSuffix :: "string \<Rightarrow> string \<Rightarrow> string" where
  "TrimSuffix s suf = (if suffix suf s then take (length s - length suf) s else s)"

definition CutSuffix :: "string \<Rightarrow> string \<Rightarrow> string \<times> bool" where
  "CutSuffix s suf = (if suffix suf s then (take (length s - length suf) s, True) else (s, False))"

definition HasPrefix :: "string \<Rightarrow> string \<Rightarrow> bool" where
  "HasPrefix s p = prefix p s"

definition LastIndexByte :: "string \<Rightarrow> char \<Rightarrow> int" where
  "LastIndexByte s c =
     (if c \<in> set s then int (length s) - 1 - int (length (takeWhile (\<lambda>x. x \<noteq> c) (rev s))) else -1)"

fun Join :: "string list \<Rightarrow> string \<Rightarrow> string" where
  "Join [] sep = []"
| "Join [s] sep = s"
| "Join (s # t # ss) sep = s @ sep @ Join (t # ss) sep"

section \<open>Package unicode/utf8\<close>

definition byte :: "char \<Rightarrow> nat" where
  "byte c = of_char c"

text \<open>The entries of the tables \<^verbatim>\<open>first\<close> and \<^verbatim>\<open>acceptRanges\<close>: size and range of the second byte.\<close>

definition utf8_first :: "nat \<Rightarrow> (nat \<times> nat \<times> nat) option" where
  "utf8_first b =
     (if 0xC2 \<le> b \<and> b \<le> 0xDF then Some (2, 0x80, 0xBF)
      else if b = 0xE0 then Some (3, 0xA0, 0xBF)
      else if b = 0xED then Some (3, 0x80, 0x9F)
      else if 0xE1 \<le> b \<and> b \<le> 0xEF then Some (3, 0x80, 0xBF)
      else if b = 0xF0 then Some (4, 0x90, 0xBF)
      else if 0xF1 \<le> b \<and> b \<le> 0xF3 then Some (4, 0x80, 0xBF)
      else if b = 0xF4 then Some (4, 0x80, 0x8F)
      else None)"

definition contByte :: "char \<Rightarrow> bool" where
  "contByte c = (0x80 \<le> byte c \<and> byte c \<le> 0xBF)"

function ValidString :: "string \<Rightarrow> bool" where
  "ValidString [] = True"
| "ValidString (c # s) =
     (if byte c < 0x80 then ValidString s
      else case utf8_first (byte c) of None \<Rightarrow> False
      | Some (sz, lo, hi) \<Rightarrow>
          Suc (length s) \<ge> sz \<and> lo \<le> byte (s ! 0) \<and> byte (s ! 0) \<le> hi \<and>
          (\<forall>i \<in> set [1..<sz - 1]. contByte (s ! i)) \<and> ValidString (drop (sz - 1) s))"
  by pat_completeness auto
termination
  by (relation "measure length") auto

section \<open>Package io/fs\<close>

function validElems :: "string \<Rightarrow> bool" where
  "validElems nm =
     (let e = takeWhile (\<lambda>c. c \<noteq> CHR ''/'') nm in
      if e = [] \<or> e = ''.'' \<or> e = ''..'' then False
      else if length e = length nm then True
      else validElems (drop (length e + 1) nm))"
  by pat_completeness auto
termination
proof (relation "measure length", simp, goal_cases)
  case (1 nm x)
  then show ?case by (cases nm) auto
qed

declare validElems.simps [simp del]

definition ValidPath :: "string \<Rightarrow> bool" where
  "ValidPath nm \<longleftrightarrow> ValidString nm \<and> (nm = ''.'' \<or> validElems nm)"

section \<open>Facts\<close>

lemma CutSuffix_TrimSuffix: "CutSuffix s suf = (TrimSuffix s suf, suffix suf s)"
  by (simp add: CutSuffix_def TrimSuffix_def)

lemma TrimSuffix_append [simp]: "TrimSuffix (s @ suf) suf = s"
  by (simp add: TrimSuffix_def suffix_def)

lemma TrimSuffix_none [simp]: "\<not> suffix suf s \<Longrightarrow> TrimSuffix s suf = s"
  by (simp add: TrimSuffix_def)

lemma takeWhile_absent: "c \<notin> set v \<Longrightarrow> takeWhile (\<lambda>x. x \<noteq> c) v = v"
  by (induction v) auto

lemma takeWhile_until: "c \<notin> set e \<Longrightarrow> takeWhile (\<lambda>x. x \<noteq> c) (e @ c # v) = e"
  by (induction e) auto

lemma LastIndexByte_split:
  "c \<notin> set v \<Longrightarrow> LastIndexByte (u @ c # v) c = int (length u)"
  using takeWhile_until [of c "rev v" "rev u"] by (simp add: LastIndexByte_def)

lemma split_last_byte:
  assumes "c \<in> set s"
  obtains u v where "s = u @ c # v" "c \<notin> set v"
  using split_list_last [OF assms] by blast


lemma LastIndexByte_none [simp]: "LastIndexByte s c < 0 \<longleftrightarrow> c \<notin> set s"
proof (cases "c \<in> set s")
  case True
  then obtain u v where "s = u @ c # v" "c \<notin> set v" by (rule split_last_byte)
  with True show ?thesis by (simp add: LastIndexByte_split)
qed (simp add: LastIndexByte_def)

lemma validElems_simple:
  "CHR ''/'' \<notin> set nm \<Longrightarrow> validElems nm \<longleftrightarrow> nm \<noteq> [] \<and> nm \<noteq> ''.'' \<and> nm \<noteq> ''..''"
  by (subst validElems.simps) (simp add: takeWhile_absent Let_def)

lemma validElems_append:
  "CHR ''/'' \<notin> set e \<Longrightarrow> validElems (e @ CHR ''/'' # nm) \<longleftrightarrow> e \<noteq> [] \<and> e \<noteq> ''.'' \<and> e \<noteq> ''..'' \<and> validElems nm"
  by (subst validElems.simps) (simp add: takeWhile_until Let_def)

text \<open>A valid name is a sequence of valid elements.\<close>

lemma validElems_last:
  "validElems (d @ CHR ''/'' # e) \<longleftrightarrow> validElems d \<and> validElems e"
proof (induction d rule: length_induct)
  case (1 d)
  show ?case
  proof (cases "CHR ''/'' \<in> set d")
    case True
    then obtain u v where d: "d = u @ CHR ''/'' # v" "CHR ''/'' \<notin> set u" by (auto dest: split_list_first)
    with 1 have "validElems (v @ CHR ''/'' # e) \<longleftrightarrow> validElems v \<and> validElems e" by simp
    with d show ?thesis by (simp add: validElems_append)
  next
    case False
    then show ?thesis by (auto simp: validElems_append validElems_simple)
  qed
qed

lemma validElems_no_slash_end: "validElems nm \<Longrightarrow> \<not> suffix ''/'' nm"
  using validElems_last [of _ "[]"] validElems_simple [of "[]"] by (auto simp: suffix_def)

lemma validElems_no_dot: "validElems nm \<Longrightarrow> \<not> prefix ''./'' nm \<and> nm \<noteq> ''.'' \<and> nm \<noteq> []"
  using validElems_append [of "''.''"] validElems_simple [of "''.''"] validElems_simple [of "[]"] by (auto simp: prefix_def)

end
