(* ===== verification/EmbedFS.thy ===== *)
theory EmbedFS
  imports GoStrings "HOL-Library.Multiset" "HOL-Library.Word"
begin

text \<open>
  \<^verbatim>\<open>src/src/comptime/embed/embed.go\<close>: the embedded file system. An \<open>FS\<close> is a list of files sorted by
  directory and element; \<open>lookup\<close> and \<open>readDir\<close> are binary searches in it, and open files and
  directories are cursors with an offset. Sizes and offsets of files are \<^verbatim>\<open>int64\<close> in the source and
  64-bit words here, compared as signed numbers. A pointer to an element of the list is the
  element.
\<close>

unbundle bit_operations_syntax

section \<open>Files and errors\<close>

record embedFile =
  file_name :: string
  file_data :: string

record FS =
  files :: "embedFile list"

datatype fsErr = ErrNotExist | ErrInvalid | NotADirectory | IsADirectory

datatype goError = PathError string string fsErr | IoEOF

type_synonym int64 = "64 word"

definition split :: "string \<Rightarrow> string \<times> string \<times> bool" where
  "split nm = (case CutSuffix nm ''/'' of (n, isDir) \<Rightarrow>
     let i = LastIndexByte n (CHR ''/'') in
     if i < 0 then (''.'', n, isDir) else (take (nat i) n, drop (nat i + 1) n, isDir))"

definition dirOf :: "string \<Rightarrow> string" where
  "dirOf nm = fst (split nm)"

definition elemOf :: "string \<Rightarrow> string" where
  "elemOf nm = fst (snd (split nm))"

definition file_Name :: "embedFile \<Rightarrow> string" where
  "file_Name f = (case split (file_name f) of (_, elem, _) \<Rightarrow> elem)"

definition file_Size :: "embedFile \<Rightarrow> int64" where
  "file_Size f = word_of_nat (length (file_data f))"

definition file_IsDir :: "embedFile \<Rightarrow> bool" where
  "file_IsDir f = (case split (file_name f) of (_, _, isDir) \<Rightarrow> isDir)"

definition ModeDir :: "32 word" where
  "ModeDir = push_bit 31 1"

definition file_Mode :: "embedFile \<Rightarrow> 32 word" where
  "file_Mode f = (if file_IsDir f then ModeDir OR 0x16D else 0x124)"

definition dotFile :: embedFile where
  "dotFile = \<lparr>file_name = ''./'', file_data = []\<rparr>"

section \<open>Binary search\<close>

function sortSearchLoop :: "nat \<Rightarrow> nat \<Rightarrow> (nat \<Rightarrow> bool) \<Rightarrow> nat" where
  "sortSearchLoop i j f =
     (if i < j
      then let h = (i + j) div 2 in if \<not> f h then sortSearchLoop (h + 1) j f else sortSearchLoop i h f
      else i)"
  by pat_completeness auto
termination
  by (relation "measure (\<lambda>(i, j, _). j - i)") auto

declare sortSearchLoop.simps [simp del]

definition sortSearch :: "nat \<Rightarrow> (nat \<Rightarrow> bool) \<Rightarrow> nat" where
  "sortSearch n f = sortSearchLoop 0 n f"

section \<open>Looking up names\<close>

definition lookup :: "FS \<Rightarrow> string \<Rightarrow> embedFile option" where
  "lookup f nm =
     (if \<not> ValidPath nm then None
      else if nm = ''.'' then Some dotFile
      else case split nm of (dir, elem, _) \<Rightarrow>
        let i = sortSearch (length (files f)) (\<lambda>i. case split (file_name (files f ! i)) of (idir, ielem, _) \<Rightarrow>
              idir > dir \<or> idir = dir \<and> ielem \<ge> elem)
        in if i < length (files f) \<and> TrimSuffix (file_name (files f ! i)) ''/'' = nm then Some (files f ! i) else None)"

definition readDir :: "FS \<Rightarrow> string \<Rightarrow> embedFile list" where
  "readDir f dir =
     (let i = sortSearch (length (files f)) (\<lambda>i. case split (file_name (files f ! i)) of (idir, _, _) \<Rightarrow> idir \<ge> dir);
          j = sortSearch (length (files f)) (\<lambda>j. case split (file_name (files f ! j)) of (jdir, _, _) \<Rightarrow> jdir > dir)
      in take (j - i) (drop i (files f)))"

record openFile =
  of_f :: embedFile
  of_offset :: int64

record openDir =
  od_f :: embedFile
  od_files :: "embedFile list"
  od_offset :: int

datatype fsFile = OpenFile openFile | OpenDir openDir

definition Open :: "FS \<Rightarrow> string \<Rightarrow> goError + fsFile" where
  "Open f nm = (case lookup f nm of
     None \<Rightarrow> Inl (PathError ''open'' nm ErrNotExist)
   | Some fl \<Rightarrow>
       if file_IsDir fl then Inr (OpenDir \<lparr>od_f = fl, od_files = readDir f nm, od_offset = 0\<rparr>)
       else Inr (OpenFile \<lparr>of_f = fl, of_offset = 0\<rparr>))"

definition FS_ReadDir :: "FS \<Rightarrow> string \<Rightarrow> goError + embedFile list" where
  "FS_ReadDir f nm = (case Open f nm of
     Inl e \<Rightarrow> Inl e
   | Inr (OpenDir d) \<Rightarrow> Inr (od_files d)
   | Inr (OpenFile _) \<Rightarrow> Inl (PathError ''read'' nm NotADirectory))"

definition FS_ReadFile :: "FS \<Rightarrow> string \<Rightarrow> goError + string" where
  "FS_ReadFile f nm = (case Open f nm of
     Inl e \<Rightarrow> Inl e
   | Inr (OpenFile o') \<Rightarrow> Inr (file_data (of_f o'))
   | Inr (OpenDir _) \<Rightarrow> Inl (PathError ''read'' nm IsADirectory))"

section \<open>Open files\<close>

text \<open>Go's \<^verbatim>\<open>copy(dst, src)\<close>: the new contents of \<open>dst\<close> and the number of bytes copied.\<close>

definition copy :: "'a list \<Rightarrow> 'a list \<Rightarrow> 'a list \<times> nat" where
  "copy dst src = (let n = min (length dst) (length src) in (take n src @ drop n dst, n))"

definition dataLen :: "openFile \<Rightarrow> int64" where
  "dataLen f = word_of_nat (length (file_data (of_f f)))"

definition openFile_Read :: "openFile \<Rightarrow> string \<Rightarrow> (string \<times> nat \<times> goError option) \<times> openFile" where
  "openFile_Read f b =
     (if sint (of_offset f) \<ge> sint (dataLen f) then ((b, 0, Some IoEOF), f)
      else if sint (of_offset f) < 0 then ((b, 0, Some (PathError ''read'' (file_name (of_f f)) ErrInvalid)), f)
      else case copy b (drop (nat (sint (of_offset f))) (file_data (of_f f))) of (b', n) \<Rightarrow>
        ((b', n, None), f\<lparr>of_offset := of_offset f + word_of_nat n\<rparr>))"

datatype whence = SeekStart | SeekCurrent | SeekEnd | SeekOther

definition openFile_Seek :: "openFile \<Rightarrow> int64 \<Rightarrow> whence \<Rightarrow> (int64 \<times> goError option) \<times> openFile" where
  "openFile_Seek f offset w =
     (let off = (case w of SeekStart \<Rightarrow> offset | SeekCurrent \<Rightarrow> offset + of_offset f | SeekEnd \<Rightarrow> offset + dataLen f | SeekOther \<Rightarrow> offset)
      in if sint off < 0 \<or> sint off > sint (dataLen f)
         then ((0, Some (PathError ''seek'' (file_name (of_f f)) ErrInvalid)), f)
         else ((off, None), f\<lparr>of_offset := off\<rparr>))"

definition openFile_ReadAt :: "openFile \<Rightarrow> string \<Rightarrow> int64 \<Rightarrow> string \<times> nat \<times> goError option" where
  "openFile_ReadAt f b offset =
     (if sint offset < 0 \<or> sint offset > sint (dataLen f)
      then (b, 0, Some (PathError ''read'' (file_name (of_f f)) ErrInvalid))
      else case copy b (drop (nat (sint offset)) (file_data (of_f f))) of (b', n) \<Rightarrow>
        (b', n, if n < length b then Some IoEOF else None))"

section \<open>Open directories\<close>

definition openDir_Read :: "openDir \<Rightarrow> nat \<times> goError option" where
  "openDir_Read d = (0, Some (PathError ''read'' (file_name (od_f d)) IsADirectory))"

text \<open>\<^verbatim>\<open>make\<close> panics on a negative length: \<open>None\<close>.\<close>

definition openDir_ReadDir :: "openDir \<Rightarrow> int \<Rightarrow> ((embedFile list \<times> goError option) \<times> openDir) option" where
  "openDir_ReadDir d cnt =
     (let n = int (length (od_files d)) - od_offset d in
      if n = 0 then Some (([], if cnt \<le> 0 then None else Some IoEOF), d)
      else
        (let n = (if cnt > 0 \<and> n > cnt then cnt else n) in
         if n < 0 then None
         else Some ((map (\<lambda>i. od_files d ! nat (od_offset d + int i)) [0..<nat n], None),
                d\<lparr>od_offset := od_offset d + n\<rparr>)))"

section \<open>Sorting\<close>

definition less_file :: "embedFile \<Rightarrow> embedFile \<Rightarrow> bool" where
  "less_file a b = (case split (file_name a) of (adir, aelem, _) \<Rightarrow>
     case split (file_name b) of (bdir, belem, _) \<Rightarrow>
       if adir \<noteq> bdir then adir < bdir else aelem < belem)"

fun sink :: "nat \<Rightarrow> embedFile list \<Rightarrow> embedFile list" where
  "sink 0 fs = fs"
| "sink (Suc j) fs =
     (if less_file (fs ! Suc j) (fs ! j) then sink j (fs[Suc j := fs ! j, j := fs ! Suc j]) else fs)"

definition insertionSortFiles :: "embedFile list \<Rightarrow> embedFile list" where
  "insertionSortFiles fs = fold sink [1..<length fs] fs"


section \<open>Splitting names\<close>

abbreviation trim :: "string \<Rightarrow> string" where
  "trim nm \<equiv> TrimSuffix nm ''/''"

definition nameKey :: "string \<Rightarrow> string \<times> string" where
  "nameKey nm = (dirOf nm, elemOf nm)"

abbreviation fileKey :: "embedFile \<Rightarrow> string \<times> string" where
  "fileKey f \<equiv> nameKey (file_name f)"

lemma split_trim: "split nm = (dirOf nm, elemOf nm, suffix ''/'' nm)"
  unfolding dirOf_def elemOf_def split_def CutSuffix_TrimSuffix Let_def by simp

lemma split_flat:
  assumes "CHR ''/'' \<notin> set (trim nm)"
  shows "dirOf nm = ''.''" "elemOf nm = trim nm"
  using assms by (simp_all add: dirOf_def elemOf_def split_def CutSuffix_TrimSuffix)

lemma split_deep:
  assumes "trim nm = d @ CHR ''/'' # e" "CHR ''/'' \<notin> set e"
  shows "dirOf nm = d" "elemOf nm = e"
  using assms by (simp_all add: dirOf_def elemOf_def split_def CutSuffix_TrimSuffix LastIndexByte_split)

lemma trim_cases:
  obtains "CHR ''/'' \<notin> set (trim nm)" "dirOf nm = ''.''" "elemOf nm = trim nm"
  | "trim nm = dirOf nm @ CHR ''/'' # elemOf nm" "CHR ''/'' \<notin> set (elemOf nm)"
  using split_flat split_deep split_last_byte by metis

lemma nameKey_trim: "trim a = trim b \<Longrightarrow> nameKey a = nameKey b"
  by (simp add: nameKey_def dirOf_def elemOf_def split_def CutSuffix_TrimSuffix Let_def)

text \<open>
  The key of a name determines it up to the trailing slash, but for names that begin with
  \<^verbatim>\<open>./\<close>: \<^verbatim>\<open>./x\<close> and \<^verbatim>\<open>x\<close> have the same key.
\<close>

lemma nameKey_inj:
  assumes "nameKey a = nameKey b" "\<not> prefix ''./'' (trim a)" "\<not> prefix ''./'' (trim b)"
  shows "trim a = trim b"
proof -
  have key: "dirOf a = dirOf b" "elemOf a = elemOf b" using assms(1) by (simp_all add: nameKey_def)
  show ?thesis
  proof (cases rule: trim_cases [of a])
    case 1
    then show ?thesis using key assms(3) by (cases rule: trim_cases [of b]) (auto simp: prefix_def)
  next
    case 2
    then show ?thesis using key assms(2) by (cases rule: trim_cases [of b]) (auto simp: prefix_def)
  qed
qed

section \<open>Binary search\<close>

lemma sortSearchLoop_spec:
  "\<forall>a b. a \<le> b \<longrightarrow> b < n \<longrightarrow> f a \<longrightarrow> f b \<Longrightarrow> i \<le> j \<Longrightarrow> j \<le> n \<Longrightarrow>
   \<forall>k<i. \<not> f k \<Longrightarrow> \<forall>k. j \<le> k \<and> k < n \<longrightarrow> f k \<Longrightarrow> r = sortSearchLoop i j f \<Longrightarrow>
   r \<le> n \<and> (\<forall>k<r. \<not> f k) \<and> (\<forall>k. r \<le> k \<and> k < n \<longrightarrow> f k)"
proof (induction i j f rule: sortSearchLoop.induct)
  case (1 i j f)
  note mono = 1(3)
  show ?case
  proof (cases "i < j")
    case True
    define h where "h = (i + j) div 2"
    have h: "i \<le> h" "h < j" using True by (auto simp: h_def)
    show ?thesis
    proof (cases "f h")
      case False
      have low: "\<forall>k<h + 1. \<not> f k"
      proof (intro allI impI notI)
        fix k assume "k < h + 1" "f k"
        moreover have "h < n" using h(2) 1(5) by simp
        ultimately show False using mono [rule_format, of k h] False by simp
      qed
      have r: "r = sortSearchLoop (h + 1) j f"
        using 1(8) True False by (simp add: sortSearchLoop.simps [of i j f] h_def Let_def)
      show ?thesis by (rule 1(1) [OF True h_def False mono _ 1(5) low 1(7) r]) (use h in simp)
    next
      case fh: True
      have high: "\<forall>k. h \<le> k \<and> k < n \<longrightarrow> f k" using mono fh by blast
      have r: "r = sortSearchLoop i h f"
        using 1(8) True fh by (simp add: sortSearchLoop.simps [of i j f] h_def Let_def)
      show ?thesis by (rule 1(2) [OF True h_def _ mono h(1) _ 1(6) high r]) (use h 1(5) fh in simp_all)
    qed
  next
    case False
    then have "i = j" using 1(4) by simp
    moreover from this have "r = j" using 1(8) by (simp add: sortSearchLoop.simps [of j j f])
    ultimately show ?thesis using 1(5-7) by simp
  qed
qed

lemma sortSearch_spec:
  assumes "\<forall>a b. a \<le> b \<longrightarrow> b < n \<longrightarrow> f a \<longrightarrow> f b"
  shows "sortSearch n f \<le> n" "k < sortSearch n f \<Longrightarrow> \<not> f k" "sortSearch n f \<le> k \<Longrightarrow> k < n \<Longrightarrow> f k"
proof -
  have "sortSearch n f \<le> n \<and> (\<forall>k. k < sortSearch n f \<longrightarrow> \<not> f k) \<and> (\<forall>k. sortSearch n f \<le> k \<and> k < n \<longrightarrow> f k)"
    by (rule sortSearchLoop_spec [OF assms _ _ _ _ sortSearch_def]) auto
  then show "sortSearch n f \<le> n" "k < sortSearch n f \<Longrightarrow> \<not> f k" "sortSearch n f \<le> k \<Longrightarrow> k < n \<Longrightarrow> f k"
    by blast+
qed

text \<open>The middle computed as \<^verbatim>\<open>int(uint(i+j) >> 1)\<close> on 64-bit integers is the mathematical one.\<close>

lemma midpoint_no_overflow:
  assumes "i \<le> j" "j < 2 ^ 63"
  shows "unat (drop_bit 1 (word_of_nat i + word_of_nat j :: 64 word)) = (i + j) div 2"
proof -
  have "unat (word_of_nat (i + j) :: 64 word) = i + j"
    using assms by (simp only: unat_of_nat) (simp add: take_bit_nat_eq_self)
  then have "unat (word_of_nat i + word_of_nat j :: 64 word) = i + j" by simp
  then show ?thesis by (simp add: unat_drop_bit_eq drop_bit_eq_div unat_div)
qed

section \<open>A list sorted by a key\<close>

text \<open>The two searches of the package, in any list sorted by a key.\<close>

locale sorted_index =
  fixes key :: "'a \<Rightarrow> 'k::linorder" and xs :: "'a list"
  assumes sorted_key: "sorted (map key xs)"
begin

lemma key_mono: "i \<le> j \<Longrightarrow> j < length xs \<Longrightarrow> key (xs ! i) \<le> key (xs ! j)"
  using sorted_nth_mono [OF sorted_key, of i j] by simp

lemma search:
  assumes up: "\<And>x y. key x \<le> key y \<Longrightarrow> p x \<Longrightarrow> p y" and i: "i = sortSearch (length xs) (\<lambda>i. p (xs ! i))"
  shows "take i xs = filter (\<lambda>x. \<not> p x) xs" "drop i xs = filter p xs" "i \<le> length xs"
proof -
  have m: "\<forall>a b. a \<le> b \<longrightarrow> b < length xs \<longrightarrow> p (xs ! a) \<longrightarrow> p (xs ! b)"
    using up key_mono by blast
  have "\<forall>x \<in> set (take i xs). \<not> p x"
    using sortSearch_spec(2) [OF m] unfolding i by (auto simp: in_set_conv_nth)
  moreover have "\<forall>x \<in> set (drop i xs). p x"
    using sortSearch_spec(3) [OF m] unfolding i by (force simp: in_set_conv_nth)
  ultimately have "filter (\<lambda>x. \<not> p x) (take i xs @ drop i xs) = take i xs" "filter p (take i xs @ drop i xs) = drop i xs"
    by (auto simp: filter_empty_conv simp del: append_take_drop_id)
  then show "take i xs = filter (\<lambda>x. \<not> p x) xs" "drop i xs = filter p xs" by simp_all
  show "i \<le> length xs" unfolding i by (rule sortSearch_spec(1) [OF m])
qed

lemma search_key:
  assumes "distinct (map key xs)" and i: "i = sortSearch (length xs) (\<lambda>i. k \<le> key (xs ! i))"
  shows "i < length xs \<and> key (xs ! i) = k \<and> xs ! i = x \<longleftrightarrow> x \<in> set xs \<and> key x = k"
proof
  assume x: "x \<in> set xs \<and> key x = k"
  note s = search [of "\<lambda>x. k \<le> key x", OF _ i]
  have "x \<in> set (drop i xs)" using s(2) x by auto
  then obtain j0 where "j0 < length xs - i" "x = xs ! (i + j0)"
    by (auto simp: in_set_conv_nth)
  then obtain j where j: "i \<le> j" "j < length xs" "x = xs ! j"
    by (intro that [of "i + j0"]) auto
  have "xs ! i \<in> set (drop i xs)" using j by (simp add: Cons_nth_drop_Suc [symmetric])
  then have "k \<le> key (xs ! i)" using s(2) by auto
  moreover have "key (xs ! i) \<le> k" using key_mono [OF j(1,2)] j(3) x by simp
  ultimately have "key (xs ! i) = key (xs ! j)" using j(3) x by simp
  then have "i = j" using assms(1) j by (simp add: distinct_conv_nth) (metis le_less_trans nth_map)
  then show "i < length xs \<and> key (xs ! i) = k \<and> xs ! i = x" using j x by simp
qed auto

lemma search_between:
  fixes g :: "'k \<Rightarrow> 'b::linorder"
  assumes g: "mono g" and i: "i = sortSearch (length xs) (\<lambda>i. k \<le> g (key (xs ! i)))"
    and j: "j = sortSearch (length xs) (\<lambda>i. k < g (key (xs ! i)))"
  shows "take (j - i) (drop i xs) = filter (\<lambda>x. g (key x) = k) xs"
proof -
  note si = search [of "\<lambda>x. k \<le> g (key x)", OF _ i] and sj = search [of "\<lambda>x. k < g (key x)", OF _ j]
  have up: "k \<le> g (key x) \<Longrightarrow> key x \<le> key y \<Longrightarrow> k \<le> g (key y)" "k < g (key x) \<Longrightarrow> key x \<le> key y \<Longrightarrow> k < g (key y)" for x y
    using monoD [OF g, of "key x" "key y"] by auto
  have "take j xs = filter (\<lambda>x. \<not> k < g (key x)) (take i xs @ drop i xs)"
    using sj(1) up(2) by simp
  also have "\<dots> = take i xs @ filter (\<lambda>x. \<not> k < g (key x)) (filter (\<lambda>x. k \<le> g (key x)) xs)"
    using si(1,2) up(1) by (simp del: append_take_drop_id) (auto intro!: filter_cong)
  finally have "drop i (take j xs) = filter (\<lambda>x. \<not> k < g (key x)) (filter (\<lambda>x. k \<le> g (key x)) xs)"
    using si(3) up(1) by simp
  then show ?thesis by (simp add: drop_take not_less) (metis (mono_tags, lifting) antisym order_refl)
qed

end

lemma mono_fst: "mono (fst :: 'a::linorder \<times> 'b::linorder \<Rightarrow> 'a)"
  by (auto simp: mono_def less_eq_prod_def)

lemma key_le: "idir > dir \<or> idir = dir \<and> ielem \<ge> elem \<longleftrightarrow> (dir, elem) \<le> (idir, ielem)"
  for dir idir elem ielem :: string
  by (auto simp: less_eq_prod_def)

lemma lookup_unfold:
  "ValidPath nm \<Longrightarrow> nm \<noteq> ''.'' \<Longrightarrow> lookup f nm =
     (let i = sortSearch (length (files f)) (\<lambda>i. nameKey nm \<le> fileKey (files f ! i)) in
      if i < length (files f) \<and> trim (file_name (files f ! i)) = nm then Some (files f ! i) else None)"
  by (simp only: lookup_def split_trim nameKey_def key_le prod.case) simp

lemma readDir_unfold:
  "readDir f dir =
     (let i = sortSearch (length (files f)) (\<lambda>i. dir \<le> fst (fileKey (files f ! i)));
          j = sortSearch (length (files f)) (\<lambda>i. dir < fst (fileKey (files f ! i)))
      in take (j - i) (drop i (files f)))"
  by (simp add: readDir_def split_trim nameKey_def)

lemma less_file_key: "less_file a b \<longleftrightarrow> fileKey a < fileKey b"
  by (auto simp: less_file_def split_trim nameKey_def less_prod_def)


section \<open>Insertion sort\<close>

text \<open>One round of the outer loop inserts an element into the reversed prefix before it.\<close>

fun insL :: "embedFile \<Rightarrow> embedFile list \<Rightarrow> embedFile list" where
  "insL x [] = [x]"
| "insL x (y # ys) = (if less_file x y then y # insL x ys else x # y # ys)"

lemma sink_insL: "sink (length ys) (ys @ x # zs) = rev (insL x (rev ys)) @ zs"
  by (induction ys arbitrary: x zs rule: rev_induct) (auto simp: nth_append list_update_append)

lemma insL_mset [simp]: "mset (insL x ys) = add_mset x (mset ys)"
  by (induction ys) auto

lemma insL_sorted: "sorted_wrt (\<lambda>a b. fileKey b \<le> fileKey a) ys \<Longrightarrow> sorted_wrt (\<lambda>a b. fileKey b \<le> fileKey a) (insL x ys)"
proof (induction ys)
  case (Cons y ys)
  have "set (insL x ys) = insert x (set ys)" by (metis insL_mset set_mset_add_mset_insert set_mset_mset)
  with Cons show ?case by (auto simp: less_file_key not_less)
qed simp

definition sortedKeys :: "embedFile list \<Rightarrow> bool" where
  "sortedKeys fs = sorted (map fileKey fs)"

lemma rev_insL_sorted: "sortedKeys ys \<Longrightarrow> sortedKeys (rev (insL x (rev ys)))"
  using insL_sorted [of "rev ys" x] by (simp add: sortedKeys_def sorted_wrt_rev sorted_map)

lemma insertionSort_prefix:
  "1 \<le> k \<Longrightarrow> k \<le> length fs \<Longrightarrow>
   \<exists>ts. fold sink [1..<k] fs = ts @ drop k fs \<and> mset ts = mset (take k fs) \<and> sortedKeys ts"
proof (induction k rule: nat_induct_at_least)
  case base
  then show ?case by (intro exI [of _ "take 1 fs"]) (cases fs, simp_all add: sortedKeys_def)
next
  case (Suc k)
  then obtain ts where ts: "fold sink [1..<k] fs = ts @ drop k fs" "mset ts = mset (take k fs)" "sortedKeys ts"
    by auto
  have len: "length ts = k" using ts(2) Suc.prems by (metis Suc_leD length_take min.absorb2 mset_eq_length)
  have d: "drop k fs = fs ! k # drop (Suc k) fs" using Suc.prems by (simp add: Cons_nth_drop_Suc)
  have "fold sink [1..<Suc k] fs = rev (insL (fs ! k) (rev ts)) @ drop (Suc k) fs"
    using sink_insL [of ts "fs ! k"] ts(1) len d Suc.hyps by simp
  moreover have "mset (rev (insL (fs ! k) (rev ts))) = mset (take (Suc k) fs)"
    using ts(2) Suc.prems by (simp add: take_Suc_conv_app_nth)
  ultimately show ?case using rev_insL_sorted [OF ts(3)] by blast
qed

lemma insertionSort_mset [simp]: "mset (insertionSortFiles fs) = mset fs"
  and insertionSort_sorted: "sortedKeys (insertionSortFiles fs)"
proof -
  have "mset (insertionSortFiles fs) = mset fs \<and> sortedKeys (insertionSortFiles fs)"
  proof (cases fs)
    case Nil
    then show ?thesis by (simp add: insertionSortFiles_def sortedKeys_def)
  next
    case (Cons x xs)
    then show ?thesis
      using insertionSort_prefix [of "length fs" fs] by (auto simp: insertionSortFiles_def)
  qed
  then show "mset (insertionSortFiles fs) = mset fs" "sortedKeys (insertionSortFiles fs)" by simp_all
qed

interpretation srt: sorted_index fileKey "insertionSortFiles fs" for fs
  using insertionSort_sorted by unfold_locales (simp add: sortedKeys_def)

section \<open>Looking up names\<close>

lemma sortedKeys_index: "sortedKeys fs \<Longrightarrow> sorted_index fileKey fs"
  by unfold_locales (simp add: sortedKeys_def)

lemma ValidPath_trim: "ValidPath nm \<Longrightarrow> nm \<noteq> ''.'' \<Longrightarrow> trim nm = nm"
  by (simp add: ValidPath_def validElems_no_slash_end)

lemma lookup_in:
  assumes "sortedKeys (files f)" "distinct (map fileKey (files f))" "ValidPath nm" "nm \<noteq> ''.''"
  shows "lookup f nm = Some x \<longleftrightarrow> x \<in> set (files f) \<and> trim (file_name x) = nm"
proof -
  define i where "i = sortSearch (length (files f)) (\<lambda>i. nameKey nm \<le> fileKey (files f ! i))"
  note key = sorted_index.search_key [OF sortedKeys_index [OF assms(1)] assms(2) i_def]
  have "trim (file_name x) = nm \<Longrightarrow> fileKey x = nameKey nm" for x
    using nameKey_trim [of "file_name x" nm] ValidPath_trim [OF assms(3,4)] by simp
  then show ?thesis
    unfolding lookup_unfold [OF assms(3,4)] i_def [symmetric] Let_def using key [of x] by auto
qed

lemma readDir_filter:
  assumes "sortedKeys (files f)"
  shows "readDir f dir = filter (\<lambda>x. dirOf (file_name x) = dir) (files f)"
  using sorted_index.search_between [OF sortedKeys_index [OF assms] mono_fst refl refl, of dir]
  unfolding readDir_unfold Let_def by (simp add: nameKey_def)

lemma lookup_dot: "lookup f ''.'' = Some dotFile"
  by (simp add: lookup_def ValidPath_def byte_def)

lemma lookup_invalid: "\<not> ValidPath nm \<Longrightarrow> lookup f nm = None"
  by (simp add: lookup_def)

section \<open>Cursors\<close>

text \<open>The invariant of an open file: the data fits an int64 and the offset lies in it.\<close>

definition openFile_ok :: "openFile \<Rightarrow> bool" where
  "openFile_ok f \<longleftrightarrow> length (file_data (of_f f)) < 2 ^ 63 \<and>
     0 \<le> sint (of_offset f) \<and> sint (of_offset f) \<le> int (length (file_data (of_f f)))"

lemma sint_word_of_int: "- (2 ^ 63) \<le> k \<Longrightarrow> k < 2 ^ 63 \<Longrightarrow> sint (word_of_int k :: int64) = k"
  by (simp add: signed_of_int signed_take_bit_int_eq_self)

lemma sint_word_of_nat: "n < 2 ^ 63 \<Longrightarrow> sint (word_of_nat n :: int64) = int n"
  using sint_word_of_int [of "int n"] by simp

lemma sint_dataLen: "length (file_data (of_f f)) < 2 ^ 63 \<Longrightarrow> sint (dataLen f) = int (length (file_data (of_f f)))"
  by (simp add: dataLen_def sint_word_of_nat)

lemma sint_add_range:
  assumes "- (2 ^ 63) \<le> sint v + sint w" "sint v + sint w < 2 ^ 63"
  shows "sint (v + w :: int64) = sint v + sint w"
proof -
  have "v + w = word_of_int (sint v + sint w)" by simp
  then show ?thesis using sint_word_of_int [OF assms] by simp
qed

lemma sint_add_wraps:
  assumes "2 ^ 63 \<le> sint v + sint w"
  shows "sint (v + w :: int64) < 0"
proof -
  have "sint v < 2 ^ 63" "sint w < 2 ^ 63" using sint_lt [of v] sint_lt [of w] by simp_all
  then have k: "- (2 ^ 63) \<le> sint v + sint w - 2 ^ 64" "sint v + sint w - 2 ^ 64 < 0" using assms by simp_all
  have eq: "v + w = word_of_int (sint v + sint w - 2 ^ 64)"
    by simp
  have "sint (v + w) = sint v + sint w - 2 ^ 64"
    by (subst eq, rule sint_word_of_int [OF k(1)]) (use k(2) in simp)
  with k(2) show ?thesis by linarith
qed


text \<open>The target of a seek, in mathematical integers.\<close>

definition seekTarget :: "openFile \<Rightarrow> int64 \<Rightarrow> whence \<Rightarrow> int" where
  "seekTarget f offset w = sint offset +
     (case w of SeekStart \<Rightarrow> 0 | SeekCurrent \<Rightarrow> sint (of_offset f) | SeekEnd \<Rightarrow> int (length (file_data (of_f f))) | SeekOther \<Rightarrow> 0)"

lemma seek_wrap:
  assumes "0 \<le> sint base" "sint base \<le> n" "n < 2 ^ 63"
  shows "sint (offset + base :: int64) < 0 \<or> n < sint (offset + base) \<longleftrightarrow> sint offset + sint base < 0 \<or> n < sint offset + sint base"
    and "0 \<le> sint offset + sint base \<Longrightarrow> sint offset + sint base \<le> n \<Longrightarrow> sint (offset + base) = sint offset + sint base"
proof -
  have lo: "- (2 ^ 63) \<le> sint offset + sint base"
    using sint_ge [of offset] assms(1) by simp
  show "sint (offset + base) < 0 \<or> n < sint (offset + base) \<longleftrightarrow> sint offset + sint base < 0 \<or> n < sint offset + sint base"
  proof (cases "sint offset + sint base < 2 ^ 63")
    case True
    then show ?thesis using sint_add_range [OF lo True] by simp
  next
    case False
    then show ?thesis using sint_add_wraps [of offset base] assms(3) by simp
  qed
  show "0 \<le> sint offset + sint base \<Longrightarrow> sint offset + sint base \<le> n \<Longrightarrow> sint (offset + base) = sint offset + sint base"
    using sint_add_range [OF lo] assms(3) by simp
qed

lemma seek_offset:
  assumes "openFile_ok f"
  defines "off \<equiv> (\<lambda>w offset. case w of SeekStart \<Rightarrow> offset | SeekCurrent \<Rightarrow> offset + of_offset f | SeekEnd \<Rightarrow> offset + dataLen f | SeekOther \<Rightarrow> offset)"
  shows "sint (off w offset) < 0 \<or> sint (off w offset) > sint (dataLen f) \<longleftrightarrow>
      seekTarget f offset w < 0 \<or> seekTarget f offset w > int (length (file_data (of_f f)))"
    and "0 \<le> seekTarget f offset w \<Longrightarrow> seekTarget f offset w \<le> int (length (file_data (of_f f))) \<Longrightarrow>
      sint (off w offset) = seekTarget f offset w"
proof -
  have ok: "length (file_data (of_f f)) < 2 ^ 63" "0 \<le> sint (of_offset f)" "sint (of_offset f) \<le> int (length (file_data (of_f f)))"
    using assms(1) by (simp_all add: openFile_ok_def)
  note len = sint_dataLen [OF ok(1)]
  have n: "int (length (file_data (of_f f))) < 2 ^ 63" using ok(1) by simp
  have 0: "(0::int) \<le> sint (0::int64)" "sint (0::int64) \<le> int (length (file_data (of_f f)))" by simp_all
  show "sint (off w offset) < 0 \<or> sint (off w offset) > sint (dataLen f) \<longleftrightarrow>
      seekTarget f offset w < 0 \<or> seekTarget f offset w > int (length (file_data (of_f f)))"
    using seek_wrap(1) [OF ok(2,3) n, of offset] seek_wrap(1) [of "dataLen f", OF _ _ n, of offset] len
    by (cases w) (simp_all add: off_def seekTarget_def)
  show "0 \<le> seekTarget f offset w \<Longrightarrow> seekTarget f offset w \<le> int (length (file_data (of_f f))) \<Longrightarrow>
      sint (off w offset) = seekTarget f offset w"
    using seek_wrap(2) [OF ok(2,3) n, of offset] seek_wrap(2) [of "dataLen f", OF _ _ n, of offset] len
    by (cases w) (simp_all add: off_def seekTarget_def)
qed

lemma openFile_Read_ok: "openFile_ok f \<Longrightarrow> openFile_ok (snd (openFile_Read f b))"
proof -
  assume ok: "openFile_ok f"
  show ?thesis
  proof (cases "sint (of_offset f) \<ge> sint (dataLen f)")
    case False
    let ?d = "file_data (of_f f)" and ?o = "sint (of_offset f)"
    let ?n = "min (length b) (length ?d - nat ?o)"
    have "?o + int ?n \<le> int (length ?d)"
      using ok by (auto simp: openFile_ok_def)
    moreover from this have "sint (of_offset f + word_of_nat ?n) = ?o + int ?n"
      using ok sint_add_range [of "of_offset f" "word_of_nat ?n"] sint_word_of_nat [of ?n]
      by (simp add: openFile_ok_def)
    ultimately show ?thesis
      using ok False by (simp add: openFile_Read_def copy_def openFile_ok_def Let_def)
  qed (use ok in \<open>simp add: openFile_Read_def\<close>)
qed


text \<open>The bytes a sequence of reads returns, for buffers of the given contents.\<close>

fun reads :: "openFile \<Rightarrow> string list \<Rightarrow> string \<times> openFile" where
  "reads f [] = ([], f)"
| "reads f (b # bs) = (case openFile_Read f b of ((b', n, _), f1) \<Rightarrow>
     case reads f1 bs of (s, f2) \<Rightarrow> (take n b' @ s, f2))"

definition remaining :: "openFile \<Rightarrow> string" where
  "remaining f = drop (nat (sint (of_offset f))) (file_data (of_f f))"

lemma openFile_Read_data:
  assumes ok: "openFile_ok f"
  shows "case openFile_Read f b of ((b', n, e), f1) \<Rightarrow>
     n = min (length b) (length (remaining f)) \<and> b' = take n (remaining f) @ drop n b \<and>
     (e = Some IoEOF \<longleftrightarrow> remaining f = []) \<and> (e = None \<longleftrightarrow> remaining f \<noteq> []) \<and>
     of_f f1 = of_f f \<and> remaining f1 = drop n (remaining f)"
proof (cases "sint (of_offset f) \<ge> sint (dataLen f)")
  case True
  then show ?thesis
    using ok sint_dataLen [of f] by (auto simp: openFile_Read_def openFile_ok_def remaining_def)
next
  case False
  define r n where "r = remaining f" and "n = min (length b) (length r)"
  have "sint (of_offset f) + int n \<le> int (length (file_data (of_f f)))"
    using ok by (auto simp: openFile_ok_def n_def r_def remaining_def)
  then have off: "nat (sint (of_offset f + word_of_nat n)) = n + nat (sint (of_offset f))"
    using ok sint_add_range [of "of_offset f" "word_of_nat n"] sint_word_of_nat [of n]
    by (simp add: openFile_ok_def nat_add_distrib)
  have "openFile_Read f b = ((take n r @ drop n b, n, None), f\<lparr>of_offset := of_offset f + word_of_nat n\<rparr>)"
    using ok False by (simp add: openFile_Read_def copy_def openFile_ok_def Let_def remaining_def n_def r_def)
  moreover have "r \<noteq> []"
    using ok False sint_dataLen [of f] by (auto simp: openFile_ok_def remaining_def r_def)
  moreover have "remaining (f\<lparr>of_offset := of_offset f + word_of_nat n\<rparr>) = drop n r"
    by (simp add: remaining_def off r_def)
  ultimately show ?thesis by (simp add: r_def [symmetric] n_def [symmetric])
qed

lemma reads_prefix:
  "openFile_ok f \<Longrightarrow> reads f bs = (s, f') \<Longrightarrow>
   s = take (sum_list (map length bs)) (remaining f) \<and> remaining f' = drop (sum_list (map length bs)) (remaining f)
   \<and> openFile_ok f' \<and> of_f f' = of_f f"
proof (induction bs arbitrary: f s)
  case (Cons b bs)
  obtain b' n e f1 where r: "openFile_Read f b = ((b', n, e), f1)" by (metis prod.collapse)
  obtain s2 where s2: "reads f1 bs = (s2, f')" "s = take n b' @ s2"
    using Cons.prems(2) r by (auto split: prod.splits)
  have n: "n = min (length b) (length (remaining f))" "b' = take n (remaining f) @ drop n b"
    "of_f f1 = of_f f" "remaining f1 = drop n (remaining f)"
    using openFile_Read_data [OF Cons.prems(1), of b] r by auto
  have "openFile_ok f1" using openFile_Read_ok [OF Cons.prems(1), of b] r by simp
  from Cons.IH [OF this s2(1)] s2(2) n show ?case
    by (auto simp: take_add min_def add.commute split: if_splits)
qed simp


text \<open>Open directories: the entries still to be listed, and what one call lists.\<close>

definition openDir_ok :: "openDir \<Rightarrow> bool" where
  "openDir_ok d \<longleftrightarrow> 0 \<le> od_offset d \<and> od_offset d \<le> int (length (od_files d))"

definition unlisted :: "openDir \<Rightarrow> embedFile list" where
  "unlisted d = drop (nat (od_offset d)) (od_files d)"

lemma map_nth_drop: "k + n \<le> length xs \<Longrightarrow> map (\<lambda>i. xs ! (k + i)) [0..<n] = take n (drop k xs)"
  by (rule nth_equalityI) auto

lemma openDir_ReadDir_step:
  fixes cnt :: int
  assumes ok: "openDir_ok d"
  defines "n \<equiv> (if 0 < cnt then min (nat cnt) (length (unlisted d)) else length (unlisted d))"
  shows "openDir_ReadDir d cnt =
     Some ((take n (unlisted d), if unlisted d = [] \<and> 0 < cnt then Some IoEOF else None),
       d\<lparr>od_offset := od_offset d + int n\<rparr>)"
proof -
  obtain k where k: "od_offset d = int k" "k \<le> length (od_files d)"
    using ok by (metis openDir_ok_def nonneg_int_cases of_nat_le_iff)
  have len: "length (unlisted d) = length (od_files d) - k" by (simp add: unlisted_def k)
  show ?thesis
  proof (cases "k = length (od_files d)")
    case True
    then show ?thesis using k by (simp add: openDir_ReadDir_def n_def unlisted_def)
  next
    case False
    have n: "(if cnt > 0 \<and> int (length (od_files d)) - od_offset d > cnt then cnt
        else int (length (od_files d)) - od_offset d) = int n"
      using k False len by (auto simp: n_def)
    have "k + n \<le> length (od_files d)" using len k(2) by (auto simp: n_def)
    then have "map (\<lambda>i. od_files d ! nat (od_offset d + int i)) [0..<n] = take n (unlisted d)"
      using map_nth_drop [of k n "od_files d"] k(1) by (simp add: unlisted_def nat_add_distrib)
    moreover have "unlisted d \<noteq> []" using False k len by auto
    ultimately show ?thesis
      using k False unfolding openDir_ReadDir_def Let_def n by simp
  qed
qed

lemma openDir_ReadDir_next:
  assumes "openDir_ok d" "n \<le> length (unlisted d)"
  shows "openDir_ok (d\<lparr>od_offset := od_offset d + int n\<rparr>)" "unlisted (d\<lparr>od_offset := od_offset d + int n\<rparr>) = drop n (unlisted d)"
  using assms by (auto simp: openDir_ok_def unlisted_def nat_add_distrib add.commute)

fun listings :: "openDir \<Rightarrow> int list \<Rightarrow> (embedFile list list \<times> openDir) option" where
  "listings d [] = Some ([], d)"
| "listings d (c # cs) = (case openDir_ReadDir d c of None \<Rightarrow> None
     | Some ((l, _), d1) \<Rightarrow> (case listings d1 cs of None \<Rightarrow> None | Some (ls, d2) \<Rightarrow> Some (l # ls, d2)))"

lemma listings_all:
  "openDir_ok d \<Longrightarrow> \<forall>c \<in> set cs. 0 < c \<Longrightarrow>
   \<exists>ls d'. listings d cs = Some (ls, d') \<and> concat ls = take (nat (sum_list cs)) (unlisted d)
     \<and> unlisted d' = drop (nat (sum_list cs)) (unlisted d) \<and> openDir_ok d'"
proof (induction cs arbitrary: d)
  case (Cons c cs)
  define n where "n = min (nat c) (length (unlisted d))"
  let ?d1 = "d\<lparr>od_offset := od_offset d + int n\<rparr>"
  have n: "n \<le> length (unlisted d)" by (simp add: n_def)
  note d1 = openDir_ReadDir_next [OF Cons.prems(1) n]
  from Cons.IH [OF d1(1)] Cons.prems(2) obtain ls d' where ls: "listings ?d1 cs = Some (ls, d')"
    "concat ls = take (nat (sum_list cs)) (unlisted ?d1)" "unlisted d' = drop (nat (sum_list cs)) (unlisted ?d1)" "openDir_ok d'"
    by auto
  have sum: "0 \<le> sum_list cs" using Cons.prems(2) by (intro sum_list_nonneg) auto
  have "openDir_ReadDir d c = Some ((take n (unlisted d), if unlisted d = [] then Some IoEOF else None), ?d1)"
    using openDir_ReadDir_step [OF Cons.prems(1), of c] Cons.prems(2) by (simp add: n_def)
  moreover have "take n (unlisted d) @ concat ls = take (nat (sum_list (c # cs))) (unlisted d)"
    "unlisted d' = drop (nat (sum_list (c # cs))) (unlisted d)"
    using ls d1(2) Cons.prems(2) sum by (auto simp: n_def take_add nat_add_distrib min_def add.commute)
  ultimately show ?case using ls by auto
qed simp


section \<open>Properties\<close>

text \<open>
  The in-place insertion sort of the package sorts by directory, then element, and keeps
  exactly the files it was given.
\<close>

theorem insertionSortFiles_sorts:
  "sortedKeys (insertionSortFiles fs) \<and> mset (insertionSortFiles fs) = mset fs"
  using insertionSort_sorted by simp

text \<open>
  C19: in a file system sorted that way, with no two files of the same key, the binary search of
  \<open>lookup\<close> finds exactly the file whose name, without the trailing slash of a directory, is the
  one asked for.
\<close>

theorem lookup_finds:
  assumes "sortedKeys (files f)" "distinct (map fileKey (files f))" "ValidPath nm" "nm \<noteq> ''.''"
  shows "lookup f nm = Some x \<longleftrightarrow> x \<in> set (files f) \<and> TrimSuffix (file_name x) ''/'' = nm"
  by (rule lookup_in [OF assms])

theorem lookup_finds_witness:
  "lookup \<lparr>files = [\<lparr>file_name = ''a'', file_data = ''x''\<rparr>, \<lparr>file_name = ''b/'', file_data = []\<rparr>,
        \<lparr>file_name = ''b/a'', file_data = ''y''\<rparr>]\<rparr> ''b/a'' = Some \<lparr>file_name = ''b/a'', file_data = ''y''\<rparr>"
proof -
  have "sortedKeys [\<lparr>file_name = ''a'', file_data = ''x''\<rparr>, \<lparr>file_name = ''b/'', file_data = []\<rparr>,
        \<lparr>file_name = ''b/a'', file_data = ''y''\<rparr>]"
    "distinct (map fileKey [\<lparr>file_name = ''a'', file_data = ''x''\<rparr>, \<lparr>file_name = ''b/'', file_data = []\<rparr>,
        \<lparr>file_name = ''b/a'', file_data = ''y''\<rparr>])"
    "ValidPath ''b/a''" "TrimSuffix ''b/a'' ''/'' = ''b/a''"
    by code_simp+
  from lookup_finds [of "\<lparr>files = [\<lparr>file_name = ''a'', file_data = ''x''\<rparr>, \<lparr>file_name = ''b/'', file_data = []\<rparr>,
        \<lparr>file_name = ''b/a'', file_data = ''y''\<rparr>]\<rparr>" "''b/a''" "\<lparr>file_name = ''b/a'', file_data = ''y''\<rparr>"] this
  show ?thesis by simp
qed

text \<open>
  In a sorted file system the two binary searches of \<open>readDir\<close> delimit exactly the entries of the
  directory, in order.
\<close>

theorem readDir_lists:
  assumes "sortedKeys (files f)"
  shows "readDir f dir = filter (\<lambda>x. dirOf (file_name x) = dir) (files f)"
  by (rule readDir_filter [OF assms])

theorem readDir_lists_witness:
  "readDir \<lparr>files = [\<lparr>file_name = ''a'', file_data = ''x''\<rparr>, \<lparr>file_name = ''b/'', file_data = []\<rparr>,
        \<lparr>file_name = ''b/a'', file_data = ''y''\<rparr>]\<rparr> ''b'' = [\<lparr>file_name = ''b/a'', file_data = ''y''\<rparr>]"
proof -
  have "sortedKeys [\<lparr>file_name = ''a'', file_data = ''x''\<rparr>, \<lparr>file_name = ''b/'', file_data = []\<rparr>,
        \<lparr>file_name = ''b/a'', file_data = ''y''\<rparr>]"
    "filter (\<lambda>x. dirOf (file_name x) = ''b'') [\<lparr>file_name = ''a'', file_data = ''x''\<rparr>, \<lparr>file_name = ''b/'', file_data = []\<rparr>,
        \<lparr>file_name = ''b/a'', file_data = ''y''\<rparr>] = [\<lparr>file_name = ''b/a'', file_data = ''y''\<rparr>]"
    by code_simp+
  then show ?thesis
    using readDir_lists [of "\<lparr>files = [\<lparr>file_name = ''a'', file_data = ''x''\<rparr>, \<lparr>file_name = ''b/'', file_data = []\<rparr>,
        \<lparr>file_name = ''b/a'', file_data = ''y''\<rparr>]\<rparr>" "''b''"] by simp
qed

text \<open>
  C18: seeking is exact although it adds 64-bit integers that may wrap around: a seek succeeds just
  when the mathematical target lies within the file, and the cursor then stands there; otherwise
  it reports \<open>ErrInvalid\<close> and leaves the cursor where it was. The invariant of open files is kept.
\<close>

theorem openFile_Seek_exact:
  assumes "openFile_ok f"
  shows "(if 0 \<le> seekTarget f offset w \<and> seekTarget f offset w \<le> int (length (file_data (of_f f)))
      then \<exists>off. openFile_Seek f offset w = ((off, None), f\<lparr>of_offset := off\<rparr>) \<and> sint off = seekTarget f offset w
        \<and> openFile_ok (f\<lparr>of_offset := off\<rparr>)
      else openFile_Seek f offset w = ((0, Some (PathError ''seek'' (file_name (of_f f)) ErrInvalid)), f))"
  using seek_offset(1) [OF assms, of offset w] seek_offset(2) [OF assms, of offset w] assms
  by (auto simp: openFile_Seek_def Let_def openFile_ok_def)

theorem openFile_Seek_exact_witness:
  "openFile_Seek \<lparr>of_f = \<lparr>file_name = ''a'', file_data = ''xyz''\<rparr>, of_offset = 2\<rparr> 0x7FFFFFFFFFFFFFFF SeekCurrent
     = ((0, Some (PathError ''seek'' ''a'' ErrInvalid)), \<lparr>of_f = \<lparr>file_name = ''a'', file_data = ''xyz''\<rparr>, of_offset = 2\<rparr>)"
  using openFile_Seek_exact [of "\<lparr>of_f = \<lparr>file_name = ''a'', file_data = ''xyz''\<rparr>, of_offset = 2\<rparr>" "0x7FFFFFFFFFFFFFFF" SeekCurrent]
  by (simp add: openFile_ok_def seekTarget_def)

text \<open>
  Reading makes progress and loses nothing: reads with any sequence of buffers return the data
  from the cursor on, as far as the buffers hold it; once they have held all of it, the next read
  reports the end of the file, and not before.
\<close>

theorem openFile_reads_all:
  assumes "openFile_ok f" "reads f bs = (s, f')"
  shows "s = take (sum_list (map length bs)) (remaining f) \<and>
     snd (snd (fst (openFile_Read f' b))) = (if length (remaining f) \<le> sum_list (map length bs) then Some IoEOF else None)"
proof -
  note r = reads_prefix [OF assms]
  then have "openFile_ok f'" by simp
  from openFile_Read_data [OF this, of b] r show ?thesis by (auto split: prod.splits)
qed

theorem openFile_reads_all_witness:
  "reads \<lparr>of_f = \<lparr>file_name = ''a'', file_data = ''xyz''\<rparr>, of_offset = 0\<rparr> [''..'', ''..'']
      = (''xyz'', \<lparr>of_f = \<lparr>file_name = ''a'', file_data = ''xyz''\<rparr>, of_offset = 3\<rparr>) \<and>
   snd (snd (fst (openFile_Read \<lparr>of_f = \<lparr>file_name = ''a'', file_data = ''xyz''\<rparr>, of_offset = 3\<rparr> ''.''))) = Some IoEOF"
proof -
  have r: "reads \<lparr>of_f = \<lparr>file_name = ''a'', file_data = ''xyz''\<rparr>, of_offset = 0\<rparr> [''..'', ''..'']
      = (''xyz'', \<lparr>of_f = \<lparr>file_name = ''a'', file_data = ''xyz''\<rparr>, of_offset = 3\<rparr>)"
    by (simp add: openFile_Read_def dataLen_def copy_def)
  with openFile_reads_all [OF _ r, of "''.''"] show ?thesis
    by (simp add: openFile_ok_def remaining_def)
qed

text \<open>
  Listing a directory in pieces, with any positive counts, never panics and gives each entry
  once, in order; when none is left, a positive count reports the end and a count of zero or less
  gives an empty list without error.
\<close>

theorem openDir_ReadDir_pages:
  assumes "openDir_ok d" "\<forall>c \<in> set cs. 0 < c"
  shows "\<exists>ls d'. listings d cs = Some (ls, d') \<and> concat ls = take (nat (sum_list cs)) (unlisted d) \<and>
     (int (length (unlisted d)) \<le> sum_list cs \<longrightarrow>
        openDir_ReadDir d' cnt = Some (([], if cnt \<le> 0 then None else Some IoEOF), d'))"
proof -
  obtain ls d' where ls: "listings d cs = Some (ls, d')" "concat ls = take (nat (sum_list cs)) (unlisted d)"
      "unlisted d' = drop (nat (sum_list cs)) (unlisted d)" "openDir_ok d'"
    using listings_all [OF assms] by blast
  have "openDir_ReadDir d' cnt = Some (([], if cnt \<le> 0 then None else Some IoEOF), d')"
    if "int (length (unlisted d)) \<le> sum_list cs"
    using openDir_ReadDir_step [OF ls(4), of cnt] ls(3) that by (simp add: not_less)
  with ls show ?thesis by blast
qed

theorem openDir_ReadDir_pages_witness:
  "\<exists>ls d'. listings \<lparr>od_f = dotFile, od_files = [dotFile], od_offset = 0\<rparr> [1] = Some (ls, d') \<and> concat ls = [dotFile] \<and>
     openDir_ReadDir d' 1 = Some (([], Some IoEOF), d')"
  using openDir_ReadDir_pages [of "\<lparr>od_f = dotFile, od_files = [dotFile], od_offset = 0\<rparr>" "[1]" 1]
  by (auto simp: openDir_ok_def unlisted_def)

end
