(* ===== verification/EmbedLoad.thy ===== *)
theory EmbedLoad
  imports EmbedFS
begin

text \<open>
  \<^verbatim>\<open>src/src/comptime/embed/embed.go\<close>: the functions that read the disk, \<open>Load\<close> with its helpers
  first. The disk is a parameter, \<open>disk\<close>: what \<^verbatim>\<open>os.Stat\<close>, \<^verbatim>\<open>os.ReadDir\<close> and \<^verbatim>\<open>os.ReadFile\<close> return for a
  path, \<open>None\<close> for an error. A panic is a value of \<open>loadError\<close>. \<open>loadDir\<close> recurses along the
  directories of the disk and takes fuel for their depth; \<open>Load_terminates\<close> says how much is
  enough.
\<close>

section \<open>Model\<close>

record disk =
  dStat :: "string \<Rightarrow> bool option"
  dReadDir :: "string \<Rightarrow> (string \<times> bool) list option"
  dReadFile :: "string \<Rightarrow> string option"

datatype loadError = OsError | OutOfBounds | OutOfFuel

type_synonym loadState = "embedFile list \<times> string set"

definition ReadFile :: "disk \<Rightarrow> string \<Rightarrow> loadError + string" where
  "ReadFile d path = (case dReadFile d path of None \<Rightarrow> Inl OsError | Some s \<Rightarrow> Inr s)"

text \<open>Slicing \<^verbatim>\<open>data[lo:hi]\<close> panics when the bounds are not in order within the data.\<close>

definition slice :: "'a list \<Rightarrow> int \<Rightarrow> int \<Rightarrow> 'a list option" where
  "slice s lo hi = (if 0 \<le> lo \<and> lo \<le> hi \<and> hi \<le> int (length s) then Some (take (nat (hi - lo)) (drop (nat lo) s)) else None)"

definition ReadFileRange :: "disk \<Rightarrow> string \<Rightarrow> int64 \<Rightarrow> int64 \<Rightarrow> loadError + string" where
  "ReadFileRange d path offset len = (case dReadFile d path of None \<Rightarrow> Inl OsError
   | Some s \<Rightarrow>
       if sint offset < 0 \<or> sint len < 0 \<or> sint (offset + len) > int (length s) then Inl OutOfBounds
       else (case slice s (sint offset) (sint (offset + len)) of None \<Rightarrow> Inl OutOfBounds | Some t \<Rightarrow> Inr t))"

definition Exists :: "disk \<Rightarrow> string \<Rightarrow> bool" where
  "Exists d path = (dStat d path \<noteq> None)"

definition IsDir :: "disk \<Rightarrow> string \<Rightarrow> loadError + bool" where
  "IsDir d path = (case dStat d path of None \<Rightarrow> Inl OsError | Some b \<Rightarrow> Inr b)"

definition ReadDir :: "disk \<Rightarrow> string \<Rightarrow> loadError + string" where
  "ReadDir d path = (case dReadDir d path of None \<Rightarrow> Inl OsError | Some es \<Rightarrow> Inr (Join (map fst es) [CHR 0x0A]))"

definition loadFile :: "disk \<Rightarrow> string \<Rightarrow> string \<Rightarrow> loadState \<Rightarrow> loadError + loadState" where
  "loadFile d fsPath diskPath st = (case st of (fs, seen) \<Rightarrow>
     if fsPath \<in> seen then Inr st
     else case dReadFile d diskPath of None \<Rightarrow> Inl OsError
     | Some s \<Rightarrow> Inr (fs @ [\<lparr>file_name = fsPath, file_data = s\<rparr>], insert fsPath seen))"

definition hiddenName :: "string \<Rightarrow> bool" where
  "hiddenName nm \<longleftrightarrow> HasPrefix nm ''.'' \<or> HasPrefix nm ''_''"

function (sequential) loadDir :: "nat \<Rightarrow> disk \<Rightarrow> string \<Rightarrow> string \<Rightarrow> loadState \<Rightarrow> loadError + loadState"
and loadEntries :: "nat \<Rightarrow> disk \<Rightarrow> string \<Rightarrow> string \<Rightarrow> (string \<times> bool) list \<Rightarrow> loadState \<Rightarrow> loadError + loadState"
where
  "loadDir 0 d diskDir fsDir st = Inl OutOfFuel"
| "loadDir (Suc n) d diskDir fsDir st = (case dReadDir d diskDir of None \<Rightarrow> Inl OsError
     | Some es \<Rightarrow> loadEntries n d diskDir fsDir es st)"
| "loadEntries n d diskDir fsDir [] st = Inr st"
| "loadEntries n d diskDir fsDir ((nm, isDir) # es) st =
     (if hiddenName nm then loadEntries n d diskDir fsDir es st
      else let diskPath = diskDir @ ''/'' @ nm; fsPath = fsDir @ ''/'' @ nm in
        case (if isDir then loadDir n d diskPath fsPath st else loadFile d fsPath diskPath st) of
          Inl e \<Rightarrow> Inl e
        | Inr st' \<Rightarrow> loadEntries n d diskDir fsDir es st')"
  by pat_completeness auto
termination
  by (relation "inv_image (less_than <*lex*> less_than) (case_sum (\<lambda>(n, _). (n, 0)) (\<lambda>(n, _, _, _, es, _). (n, Suc (length es))))") auto

fun loadPatterns :: "nat \<Rightarrow> disk \<Rightarrow> string list \<Rightarrow> loadState \<Rightarrow> loadError + loadState" where
  "loadPatterns n d [] st = Inr st"
| "loadPatterns n d (p # ps) st = (case dStat d p of None \<Rightarrow> Inl OsError
     | Some isDir \<Rightarrow>
         (case (if isDir then loadDir n d p p st else loadFile d p p st) of
            Inl e \<Rightarrow> Inl e
          | Inr st' \<Rightarrow> loadPatterns n d ps st'))"

lemma dirOf_shorter: "nm \<noteq> ''.'' \<Longrightarrow> dirOf nm = ''.'' \<or> length (dirOf nm) < length nm"
proof (cases rule: trim_cases [of nm])
  case 2
  have "length (trim nm) \<le> length nm" by (simp add: TrimSuffix_def)
  with 2(1) show ?thesis by simp
qed simp

function addDirsOf :: "string \<Rightarrow> string set \<times> embedFile list \<Rightarrow> string set \<times> embedFile list" where
  "addDirsOf dir st =
     (if dir = ''.'' then st
      else addDirsOf (dirOf dir)
        (case st of (seen, dirs) \<Rightarrow> if dir \<in> seen then st
           else (insert dir seen, dirs @ [\<lparr>file_name = dir @ ''/'', file_data = []\<rparr>])))"
  by pat_completeness auto
termination
proof (relation "measure (\<lambda>(dir, _). if dir = ''.'' then 0 else Suc (length dir))", simp, goal_cases)
  case (1 dir st)
  then show ?case using dirOf_shorter [of dir] by auto
qed

declare addDirsOf.simps [simp del]

definition addDirEntries :: "embedFile list \<Rightarrow> embedFile list" where
  "addDirEntries fs = fs @ snd (fold (\<lambda>f. addDirsOf (dirOf (file_name f))) fs ({}, []))"

definition Load :: "nat \<Rightarrow> disk \<Rightarrow> string list \<Rightarrow> loadError + FS" where
  "Load n d patterns = (case loadPatterns n d patterns ([], {}) of
     Inl e \<Rightarrow> Inl e
   | Inr (fs, _) \<Rightarrow> Inr \<lparr>files = insertionSortFiles (addDirEntries fs)\<rparr>)"

section \<open>Which files are loaded\<close>

text \<open>The rule of the package's documentation: a directory stands for the files below it whose
  path has no hidden element.\<close>

inductive subtree :: "disk \<Rightarrow> string \<Rightarrow> string \<Rightarrow> bool" for d where
  entry: "dReadDir d dir = Some es \<Longrightarrow> (nm, False) \<in> set es \<Longrightarrow> \<not> hiddenName nm \<Longrightarrow> subtree d dir (dir @ CHR ''/'' # nm)"
| below: "dReadDir d dir = Some es \<Longrightarrow> (nm, True) \<in> set es \<Longrightarrow> \<not> hiddenName nm \<Longrightarrow> subtree d (dir @ CHR ''/'' # nm) path \<Longrightarrow>
     subtree d dir path"

definition embedded :: "disk \<Rightarrow> string \<Rightarrow> string \<Rightarrow> bool" where
  "embedded d p path = (case dStat d p of None \<Rightarrow> False | Some isDir \<Rightarrow> if isDir then subtree d p path else path = p)"

text \<open>What holds of the files collected so far.\<close>

definition loaded :: "disk \<Rightarrow> loadState \<Rightarrow> string set \<Rightarrow> bool" where
  "loaded d st names \<longleftrightarrow> snd st = names \<and> file_name ` set (fst st) = names \<and> distinct (map file_name (fst st)) \<and>
     (\<forall>f \<in> set (fst st). dReadFile d (file_name f) = Some (file_data f))"

lemma loadFile_loaded:
  "loadFile d p p st = Inr st' \<Longrightarrow> loaded d st N \<Longrightarrow> loaded d st' (insert p N)"
  by (auto simp: loadFile_def loaded_def split: prod.splits if_splits option.splits)

definition entryPaths :: "disk \<Rightarrow> string \<Rightarrow> (string \<times> bool) list \<Rightarrow> string set" where
  "entryPaths d dir es = {path. \<exists>nm isDir. (nm, isDir) \<in> set es \<and> \<not> hiddenName nm \<and>
     (if isDir then subtree d (dir @ CHR ''/'' # nm) path else path = dir @ CHR ''/'' # nm)}"

lemma entryPaths_Nil [simp]: "entryPaths d dir [] = {}"
  by (simp add: entryPaths_def)

lemma entryPaths_Cons:
  "entryPaths d dir ((nm, isDir) # es) =
     (if hiddenName nm then {} else if isDir then {path. subtree d (dir @ CHR ''/'' # nm) path} else {dir @ CHR ''/'' # nm}) \<union> entryPaths d dir es"
  by (auto simp: entryPaths_def)

lemma under_entries: "dReadDir d dir = Some es \<Longrightarrow> {path. subtree d dir path} = entryPaths d dir es"
proof (intro set_eqI iffI; unfold mem_Collect_eq)
  fix path assume es: "dReadDir d dir = Some es" and sub: "subtree d dir path"
  show "path \<in> entryPaths d dir es" using sub
  proof cases
    case (entry es' nm)
    then show ?thesis using es by (auto simp: entryPaths_def)
  next
    case (below es' nm)
    then show ?thesis using es by (auto simp: entryPaths_def)
  qed
next
  fix path assume "dReadDir d dir = Some es" "path \<in> entryPaths d dir es"
  then show "subtree d dir path" by (auto simp: entryPaths_def intro: subtree.intros split: if_splits)
qed

lemma loadDir_loaded:
  "loadDir n d dir fsDir st = Inr st' \<Longrightarrow> fsDir = dir \<Longrightarrow> loaded d st N \<Longrightarrow> loaded d st' (N \<union> {path. subtree d dir path})"
  "loadEntries n d dir fsDir es st = Inr st' \<Longrightarrow> fsDir = dir \<Longrightarrow> loaded d st N \<Longrightarrow> loaded d st' (N \<union> entryPaths d dir es)"
proof (induction n d dir fsDir st and n d dir fsDir es st arbitrary: N st' and N st' rule: loadDir_loadEntries.induct)
  case (4 n d dir fsDir nm isDir es st)
  show ?case
  proof (cases "hiddenName nm")
    case True
    then show ?thesis using 4 by (simp add: entryPaths_Cons)
  next
    case False
    define path where "path = dir @ CHR ''/'' # nm"
    let ?r = "if isDir then loadDir n d path path st else loadFile d path path st"
    have "(case ?r of Inl e \<Rightarrow> Inl e | Inr st1 \<Rightarrow> loadEntries n d dir dir es st1) = Inr st'"
      using False 4(4,5) by (cases isDir) (simp_all add: path_def Let_def)
    then obtain st1 where st1: "?r = Inr st1" "loadEntries n d dir dir es st1 = Inr st'"
      by (cases ?r) auto
    have "loaded d st1 (N \<union> (if isDir then {x. subtree d path x} else {path}))"
      using st1(1) 4(2) [OF False refl refl] 4(5,6) loadFile_loaded [of d path st st1 N]
      by (simp add: path_def split: if_splits)
    moreover have "(if isDir then loadDir n d (dir @ ''/'' @ nm) (fsDir @ ''/'' @ nm) st
        else loadFile d (fsDir @ ''/'' @ nm) (dir @ ''/'' @ nm) st) = Inr st1"
      using st1(1) 4(5) by (cases isDir) (simp_all add: path_def)
    moreover have "loadEntries n d dir fsDir es st1 = Inr st'" using st1(2) 4(5) by simp
    ultimately have "loaded d st' (N \<union> (if isDir then {x. subtree d path x} else {path}) \<union> entryPaths d dir es)"
      using 4(3) [OF False refl refl _ _ 4(5)] by blast
    then show ?thesis using False by (cases isDir) (simp_all add: entryPaths_Cons path_def Un_assoc)
  qed
qed (auto simp: under_entries split: option.splits)


lemma loadPatterns_loaded:
  "loadPatterns n d ps st = Inr st' \<Longrightarrow> loaded d st N \<Longrightarrow> loaded d st' (N \<union> {path. \<exists>p \<in> set ps. embedded d p path})"
proof (induction n d ps st arbitrary: N rule: loadPatterns.induct)
  case (2 n d p ps st)
  obtain isDir where stat: "dStat d p = Some isDir" using 2(2) by (cases "dStat d p") auto
  let ?r = "if isDir then loadDir n d p p st else loadFile d p p st"
  obtain st1 where st1: "?r = Inr st1" "loadPatterns n d ps st1 = Inr st'"
    using 2(2) stat by (cases ?r; cases isDir) auto
  have "loaded d st1 (N \<union> {path. embedded d p path})"
    using st1(1) stat 2(3) loadDir_loaded(1) [of n d p p st st1 N] loadFile_loaded [of d p st st1 N]
    by (cases isDir) (simp_all add: embedded_def)
  from 2(1) [OF stat st1 this]
  have "loaded d st' (N \<union> {path. embedded d p path} \<union> {path. \<exists>q \<in> set ps. embedded d q path})" .
  moreover have "{path. \<exists>q \<in> set (p # ps). embedded d q path} = {path. embedded d p path} \<union> {path. \<exists>q \<in> set ps. embedded d q path}"
    by auto
  ultimately show ?case by (simp only: Un_assoc)
qed simp

section \<open>Directory entries\<close>

function ancestors :: "string \<Rightarrow> string list" where
  "ancestors dir = (if dir = ''.'' then [] else dir # ancestors (dirOf dir))"
  by pat_completeness auto
termination
proof (relation "measure (\<lambda>dir. if dir = ''.'' then 0 else Suc (length dir))", simp, goal_cases)
  case (1 dir)
  then show ?case using dirOf_shorter [of dir] by auto
qed

declare ancestors.simps [simp del]

abbreviation dirEntry :: "string \<Rightarrow> embedFile" where
  "dirEntry dir \<equiv> \<lparr>file_name = dir @ ''/'', file_data = []\<rparr>"

lemma addDirsOf_spec:
  "\<exists>ds. addDirsOf dir (set dirs, map dirEntry dirs) = (set (dirs @ ds), map dirEntry (dirs @ ds)) \<and>
     (distinct dirs \<longrightarrow> distinct (dirs @ ds)) \<and> set (dirs @ ds) = set dirs \<union> set (ancestors dir)"
proof (induction dir arbitrary: dirs rule: ancestors.induct)
  case (1 dir)
  show ?case
  proof (cases "dir = ''.''")
    case True
    then show ?thesis by (intro exI [of _ "[]"]) (simp add: addDirsOf.simps ancestors.simps)
  next
    case False
    define ds0 where "ds0 = (if dir \<in> set dirs then [] else [dir])"
    obtain ds where ds: "addDirsOf (dirOf dir) (set (dirs @ ds0), map dirEntry (dirs @ ds0)) =
        (set ((dirs @ ds0) @ ds), map dirEntry ((dirs @ ds0) @ ds))"
      "distinct (dirs @ ds0) \<longrightarrow> distinct ((dirs @ ds0) @ ds)"
      "set ((dirs @ ds0) @ ds) = set (dirs @ ds0) \<union> set (ancestors (dirOf dir))"
      using 1 [OF False, of "dirs @ ds0"] by blast
    have "addDirsOf dir (set dirs, map dirEntry dirs) = addDirsOf (dirOf dir) (set (dirs @ ds0), map dirEntry (dirs @ ds0))"
      using False by (simp add: addDirsOf.simps [of dir] ds0_def insert_absorb)
    moreover have "distinct dirs \<longrightarrow> distinct (dirs @ ds0)" "insert dir (set dirs) = set (dirs @ ds0)"
      by (auto simp: ds0_def)
    ultimately show ?thesis
      using ds False by (intro exI [of _ "ds0 @ ds"]) (auto simp: ancestors.simps [of dir])
  qed
qed

lemma addDirEntries_fold:
  "\<exists>ds. fold (\<lambda>f. addDirsOf (dirOf (file_name f))) fs (set dirs, map dirEntry dirs) = (set ds, map dirEntry ds) \<and>
     (distinct dirs \<longrightarrow> distinct ds) \<and> set ds = set dirs \<union> (\<Union>f \<in> set fs. set (ancestors (dirOf (file_name f))))"
proof (induction fs arbitrary: dirs)
  case (Cons f fs)
  obtain ds where "addDirsOf (dirOf (file_name f)) (set dirs, map dirEntry dirs) = (set (dirs @ ds), map dirEntry (dirs @ ds))"
    "distinct dirs \<longrightarrow> distinct (dirs @ ds)" "set (dirs @ ds) = set dirs \<union> set (ancestors (dirOf (file_name f)))"
    using addDirsOf_spec by blast
  then show ?case using Cons.IH [of "dirs @ ds"] by (simp add: Un_assoc) (metis Un_assoc)
qed (use exI in \<open>fastforce\<close>)

lemma addDirEntries_spec:
  obtains ds where "addDirEntries fs = fs @ map dirEntry ds" "distinct ds"
    "set ds = (\<Union>f \<in> set fs. set (ancestors (dirOf (file_name f))))"
  using addDirEntries_fold [of fs "[]"] by (auto simp: addDirEntries_def)


lemma validElems_dirOf:
  assumes "validElems nm"
  shows "dirOf nm = ''.'' \<or> validElems (dirOf nm) \<and> nm = dirOf nm @ CHR ''/'' # elemOf nm"
proof (cases rule: trim_cases [of nm])
  case 2
  have "trim nm = nm" using assms by (simp add: validElems_no_slash_end)
  with 2(1) have "nm = dirOf nm @ CHR ''/'' # elemOf nm" by simp
  moreover from this assms have "validElems (dirOf nm)" by (metis validElems_last)
  ultimately show ?thesis by simp
qed simp

lemma ancestors_valid:
  "validElems nm \<Longrightarrow> a \<in> set (ancestors (dirOf nm)) \<Longrightarrow> validElems a \<and> (\<exists>rest. nm = a @ CHR ''/'' # rest)"
proof (induction "length nm" arbitrary: nm rule: less_induct)
  case less
  show ?case
  proof (cases "dirOf nm = ''.''")
    case True
    then show ?thesis using less.prems(2) by (simp add: ancestors.simps)
  next
    case False
    then have v: "validElems (dirOf nm)" "nm = dirOf nm @ CHR ''/'' # elemOf nm"
      using validElems_dirOf [OF less.prems(1)] by simp_all
    have "length nm = length (dirOf nm @ CHR ''/'' # elemOf nm)" by (rule arg_cong [OF v(2)])
    then have len: "length (dirOf nm) < length nm" by simp
    from less.prems(2) False consider "a = dirOf nm" | "a \<in> set (ancestors (dirOf (dirOf nm)))"
      by (auto simp: ancestors.simps [of "dirOf nm"])
    then show ?thesis
    proof cases
      case 1
      then show ?thesis using v by blast
    next
      case 2
      from less.hyps [OF len v(1) 2] obtain rest where "validElems a" "dirOf nm = a @ CHR ''/'' # rest" by blast
      moreover from this v(2) have "nm = a @ CHR ''/'' # (rest @ CHR ''/'' # elemOf nm)" by simp
      ultimately show ?thesis by blast
    qed
  qed
qed

definition saneDisk :: "disk \<Rightarrow> bool" where
  "saneDisk d \<longleftrightarrow>
     (\<forall>dir es nm isDir. dReadDir d dir = Some es \<longrightarrow> (nm, isDir) \<in> set es \<longrightarrow> ValidPath nm \<and> nm \<noteq> ''.'') \<and>
     (\<forall>p q. dReadFile d p \<noteq> None \<longrightarrow> dReadFile d (p @ CHR ''/'' # q) = None)"

lemma trim_dirEntry [simp]: "trim (a @ ''/'') = a"
  by (rule TrimSuffix_append)

lemma keys_distinct:
  assumes "distinct (map (\<lambda>f. trim (file_name f)) fs)" "\<forall>f \<in> set fs. validElems (trim (file_name f))"
  shows "distinct (map fileKey fs)"
proof -
  have "inj_on fileKey (set fs)"
  proof (rule inj_onI)
    fix a b assume ab: "a \<in> set fs" "b \<in> set fs" "fileKey a = fileKey b"
    then have "trim (file_name a) = trim (file_name b)"
      using nameKey_inj [of "file_name a" "file_name b"] assms(2) validElems_no_dot by blast
    then show "a = b" using assms(1) ab by (auto simp: distinct_map inj_on_def)
  qed
  then show ?thesis using assms(1) by (simp add: distinct_map)
qed

lemma ValidString_append: "ValidString a \<Longrightarrow> ValidString b \<Longrightarrow> ValidString (a @ b)"
proof (induction a rule: ValidString.induct)
  case (2 c s)
  show ?case
  proof (cases "byte c < 0x80")
    case True
    then show ?thesis using 2 by simp
  next
    case False
    then obtain sz lo hi where f: "utf8_first (byte c) = Some (sz, lo, hi)" using 2 by (auto split: option.splits)
    then have sz: "2 \<le> sz" by (auto simp: utf8_first_def split: if_splits)
    have s: "sz \<le> Suc (length s)" "lo \<le> byte (s ! 0)" "byte (s ! 0) \<le> hi" "\<forall>i \<in> set [1..<sz - 1]. contByte (s ! i)"
      "ValidString (drop (sz - 1) s)" using 2(3) False f by auto
    have "ValidString (drop (sz - 1) s @ b)"
      using 2(2) [OF False f refl refl s(5) 2(4)] .
    then show ?thesis using False f s sz by (auto simp: nth_append)
  qed
qed simp

lemma ValidString_slash: "ValidString a \<Longrightarrow> ValidString b \<Longrightarrow> ValidString (a @ CHR ''/'' # b)"
  by (rule ValidString_append) (simp_all add: byte_def)

lemma ValidPath_join:
  "ValidPath a \<Longrightarrow> a \<noteq> ''.'' \<Longrightarrow> ValidPath b \<Longrightarrow> b \<noteq> ''.'' \<Longrightarrow>
   ValidPath (a @ CHR ''/'' # b) \<and> a @ CHR ''/'' # b \<noteq> ''.''"
  by (auto simp: ValidPath_def ValidString_slash validElems_last Cons_eq_append_conv append_eq_Cons_conv)

lemma subtree_valid:
  assumes "saneDisk d"
  shows "subtree d dir path \<Longrightarrow> ValidPath dir \<Longrightarrow> dir \<noteq> ''.'' \<Longrightarrow> ValidPath path \<and> path \<noteq> ''.''"
proof (induction rule: subtree.induct)
  case (entry dir es nm)
  then have "ValidPath nm" "nm \<noteq> ''.''" using assms unfolding saneDisk_def by blast+
  with entry.prems show ?case by (intro ValidPath_join)
next
  case (below dir es nm path)
  then have "ValidPath nm" "nm \<noteq> ''.''" using assms unfolding saneDisk_def by blast+
  with below.prems ValidPath_join below.IH show ?case by blast
qed

lemma embedded_valid:
  "saneDisk d \<Longrightarrow> embedded d p path \<Longrightarrow> ValidPath p \<Longrightarrow> p \<noteq> ''.'' \<Longrightarrow> ValidPath path \<and> path \<noteq> ''.''"
  using subtree_valid by (auto simp: embedded_def split: option.splits if_splits)

lemma loaded_keys:
  assumes "loaded d (fs, seen) N" "\<forall>nm \<in> N. ValidPath nm \<and> nm \<noteq> ''.''" "saneDisk d"
  shows "distinct (map fileKey (addDirEntries fs)) \<and> (\<forall>f \<in> set (addDirEntries fs) - set fs. suffix ''/'' (file_name f))"
proof -
  obtain ds where ds: "addDirEntries fs = fs @ map dirEntry ds" "distinct ds"
    "set ds = (\<Union>f \<in> set fs. set (ancestors (dirOf (file_name f))))" by (rule addDirEntries_spec)
  have v: "validElems (file_name f) \<and> trim (file_name f) = file_name f" if "f \<in> set fs" for f
  proof -
    have "file_name f \<in> N" using assms(1) that by (auto simp: loaded_def)
    then have "ValidPath (file_name f)" "file_name f \<noteq> ''.''" using assms(2) by simp_all
    then show ?thesis using ValidPath_trim by (simp add: ValidPath_def)
  qed
  have dv: "validElems a" if "a \<in> set ds" for a
    using that ancestors_valid [OF conjunct1 [OF v]] unfolding ds(3) by (elim UN_E) simp
  have "file_name f \<noteq> a" if fa: "f \<in> set fs" "a \<in> set ds" for f a
  proof
    assume a: "file_name f = a"
    obtain g where g: "g \<in> set fs" "a \<in> set (ancestors (dirOf (file_name g)))" using fa(2) unfolding ds(3) by (elim UN_E)
    obtain rest where rest: "file_name g = file_name f @ CHR ''/'' # rest"
      using ancestors_valid [OF conjunct1 [OF v [OF g(1)]] g(2)] unfolding a by (elim conjE exE)
    have "dReadFile d (file_name f) \<noteq> None" "dReadFile d (file_name g) \<noteq> None"
      using assms(1) fa(1) g(1) by (simp_all add: loaded_def)
    then show False using assms(3) rest by (simp add: saneDisk_def)
  qed
  then have "distinct (map (\<lambda>f. trim (file_name f)) (addDirEntries fs))"
    using ds(1,2) assms(1) v by (auto simp: distinct_map loaded_def inj_on_def comp_def)
  moreover have "\<forall>f \<in> set (addDirEntries fs). validElems (trim (file_name f))"
    using ds(1) v dv by auto
  ultimately have "distinct (map fileKey (addDirEntries fs))" by (rule keys_distinct)
  moreover have "suffix ''/'' (file_name f)" if "f \<in> set (addDirEntries fs) - set fs" for f
    using that ds(1) by auto
  ultimately show ?thesis by blast
qed


lemma Load_cases:
  assumes "Load n d pats = Inr fs"
  obtains raw where "loaded d (raw, {path. \<exists>p \<in> set pats. embedded d p path}) {path. \<exists>p \<in> set pats. embedded d p path}"
    "files fs = insertionSortFiles (addDirEntries raw)"
proof -
  obtain raw seen where r: "loadPatterns n d pats ([], {}) = Inr (raw, seen)" "fs = \<lparr>files = insertionSortFiles (addDirEntries raw)\<rparr>"
    using assms by (auto simp: Load_def split: sum.splits)
  have "loaded d ([], {}) {}" by (simp add: loaded_def)
  from loadPatterns_loaded [OF r(1) this] have "loaded d (raw, seen) {path. \<exists>p \<in> set pats. embedded d p path}" by simp
  moreover from this have "seen = {path. \<exists>p \<in> set pats. embedded d p path}" by (simp add: loaded_def)
  ultimately show ?thesis using that [of raw] r(2) by simp
qed

lemma insertionSort_set: "set (insertionSortFiles fs) = set fs"
  by (rule mset_eq_setD) simp

lemma FS_ReadFile_lookup:
  "FS_ReadFile f nm = Inr s \<longleftrightarrow> (\<exists>x. lookup f nm = Some x \<and> \<not> suffix ''/'' (file_name x) \<and> file_data x = s)"
  by (auto simp: FS_ReadFile_def Open_def file_IsDir_def split_trim split: option.splits)

lemma loaded_data:
  assumes "loaded d (raw, seen) N"
  shows "(\<exists>x \<in> set raw. file_name x = nm \<and> file_data x = s) \<longleftrightarrow> nm \<in> N \<and> dReadFile d nm = Some s"
proof -
  have N: "file_name ` set raw = N" and data: "\<And>x. x \<in> set raw \<Longrightarrow> dReadFile d (file_name x) = Some (file_data x)"
    using assms by (simp_all add: loaded_def)
  show ?thesis using data unfolding N [symmetric] by (auto simp: image_iff)
qed

lemma load_lookup:
  assumes load: "Load n d pats = Inr fs" and pats: "\<forall>p \<in> set pats. ValidPath p \<and> p \<noteq> ''.''" and sane: "saneDisk d"
  obtains raw where "loaded d (raw, {path. \<exists>p \<in> set pats. embedded d p path}) {path. \<exists>p \<in> set pats. embedded d p path}"
    "\<forall>nm x. ValidPath nm \<longrightarrow> nm \<noteq> ''.'' \<longrightarrow> (lookup fs nm = Some x \<longleftrightarrow> x \<in> set (addDirEntries raw) \<and> trim (file_name x) = nm)"
    "\<forall>f \<in> set (addDirEntries raw) - set raw. suffix ''/'' (file_name f)"
proof -
  let ?N = "{path. \<exists>p \<in> set pats. embedded d p path}"
  obtain raw where raw: "loaded d (raw, ?N) ?N" "files fs = insertionSortFiles (addDirEntries raw)"
    by (rule Load_cases [OF load])
  have "\<forall>nm \<in> ?N. ValidPath nm \<and> nm \<noteq> ''.''" using embedded_valid [OF sane] pats by blast
  note keys = loaded_keys [OF raw(1) this sane]
  have "mset (map fileKey (files fs)) = mset (map fileKey (addDirEntries raw))" using raw(2) by (simp only: mset_map insertionSort_mset)
  then have "distinct (map fileKey (files fs))" using keys mset_eq_imp_distinct_iff by blast
  moreover have "sortedKeys (files fs)" using raw(2) insertionSort_sorted by simp
  moreover have "set (files fs) = set (addDirEntries raw)" using raw(2) insertionSort_set by simp
  ultimately show ?thesis using that [OF raw(1)] lookup_in [of fs] keys by simp
qed

section \<open>Properties\<close>

text \<open>
  C12: \<open>Load\<close> and \<open>ReadFile\<close> round-trip: after loading valid patterns from a disk whose directory
  entries have valid names and whose files have nothing below them, reading a name from the
  embedded file system succeeds just for the files the patterns stand for, and gives what the
  disk has for that path.
\<close>

theorem Load_ReadFile_roundtrip:
  assumes "Load n d pats = Inr fs" "\<forall>p \<in> set pats. ValidPath p \<and> p \<noteq> ''.''" "saneDisk d"
  shows "FS_ReadFile fs nm = Inr s \<longleftrightarrow> (\<exists>p \<in> set pats. embedded d p nm) \<and> dReadFile d nm = Some s"
proof -
  let ?N = "{path. \<exists>p \<in> set pats. embedded d p path}"
  obtain raw where raw: "loaded d (raw, ?N) ?N"
    "\<forall>nm x. ValidPath nm \<longrightarrow> nm \<noteq> ''.'' \<longrightarrow> (lookup fs nm = Some x \<longleftrightarrow> x \<in> set (addDirEntries raw) \<and> trim (file_name x) = nm)"
    "\<forall>f \<in> set (addDirEntries raw) - set raw. suffix ''/'' (file_name f)"
    by (rule load_lookup [OF assms])
  have valid: "\<forall>nm \<in> ?N. ValidPath nm \<and> nm \<noteq> ''.''" using embedded_valid [OF assms(3)] assms(2) by blast
  show ?thesis
  proof (cases "ValidPath nm \<and> nm \<noteq> ''.''")
    case False
    then have "nm \<notin> ?N" using valid by blast
    moreover have "FS_ReadFile fs nm \<noteq> Inr s"
      using False lookup_dot [of fs] lookup_invalid [of nm fs] by (auto simp: FS_ReadFile_lookup dotFile_def suffix_def)
    ultimately show ?thesis by simp
  next
    case True
    have "x \<in> set (addDirEntries raw) \<and> trim (file_name x) = nm \<and> \<not> suffix ''/'' (file_name x) \<longleftrightarrow>
        x \<in> set raw \<and> file_name x = nm" for x
    proof
      assume "x \<in> set raw \<and> file_name x = nm"
      moreover have "\<not> suffix ''/'' nm" using True validElems_no_slash_end by (auto simp: ValidPath_def)
      ultimately show "x \<in> set (addDirEntries raw) \<and> trim (file_name x) = nm \<and> \<not> suffix ''/'' (file_name x)"
        by (simp add: addDirEntries_def)
    qed (use raw(3) in auto)
    then have "FS_ReadFile fs nm = Inr s \<longleftrightarrow> (\<exists>x \<in> set raw. file_name x = nm \<and> file_data x = s)"
      unfolding FS_ReadFile_lookup raw(2) [rule_format, OF conjunct1 [OF True] conjunct2 [OF True]] by blast
    also have "\<dots> \<longleftrightarrow> nm \<in> ?N \<and> dReadFile d nm = Some s"
      using loaded_data [OF raw(1)] by simp
    finally show ?thesis by simp
  qed
qed


definition demoDisk :: disk where
  "demoDisk = \<lparr>dStat = (\<lambda>p. if p = ''a'' then Some True else if p = ''a/x'' then Some False else None),
     dReadDir = (\<lambda>p. if p = ''a'' then Some [(''.h'', False), (''x'', False)] else None),
     dReadFile = (\<lambda>p. if p = ''a/x'' then Some ''data'' else None)\<rparr>"

lemma demoDisk_sane: "saneDisk demoDisk"
proof -
  have "ValidPath ''.h'' \<and> ValidPath ''x''" by code_simp
  moreover have "(''a/x'' :: string) \<noteq> p @ CHR ''/'' # q" if "p = ''a/x''" for p q using that by simp
  ultimately show ?thesis by (auto simp: saneDisk_def demoDisk_def split: if_splits)
qed

theorem Load_ReadFile_roundtrip_witness:
  "\<exists>fs. Load 2 demoDisk [''a''] = Inr fs \<and> FS_ReadFile fs ''a/x'' = Inr ''data''"
proof -
  obtain fs where l: "Load 2 demoDisk [''a''] = Inr fs"
    by (simp add: Load_def demoDisk_def numeral_2_eq_2 hiddenName_def HasPrefix_def Let_def loadFile_def)
  have "\<forall>p \<in> set [''a'']. ValidPath p \<and> p \<noteq> ''.''" by code_simp
  moreover have "\<exists>p \<in> set [''a'']. embedded demoDisk p ''a/x''"
    using subtree.entry [of demoDisk "''a''" _ "''x''"] by (simp add: embedded_def demoDisk_def hiddenName_def HasPrefix_def)
  ultimately show ?thesis
    using l Load_ReadFile_roundtrip [OF l _ demoDisk_sane, of "''a/x''" "''data''"] by (simp add: demoDisk_def)
qed

lemma loadFile_no_fuel: "loadFile d p q st \<noteq> Inl OutOfFuel"
  by (auto simp: loadFile_def split: prod.splits option.splits)

text \<open>A disk without endless directories: some number decreases along its subdirectories.\<close>

definition ranked :: "disk \<Rightarrow> (string \<Rightarrow> nat) \<Rightarrow> bool" where
  "ranked d rank \<longleftrightarrow> (\<forall>dir es nm. dReadDir d dir = Some es \<longrightarrow> (nm, True) \<in> set es \<longrightarrow> rank (dir @ CHR ''/'' # nm) < rank dir)"

lemma loadDir_fuel:
  "ranked d rank \<Longrightarrow> rank dir < n \<Longrightarrow> loadDir n d dir fsDir st \<noteq> Inl OutOfFuel"
  "ranked d rank \<Longrightarrow> \<forall>nm. (nm, True) \<in> set es \<longrightarrow> rank (dir @ CHR ''/'' # nm) < n \<Longrightarrow> loadEntries n d dir fsDir es st \<noteq> Inl OutOfFuel"
proof (induction n d dir fsDir st and n d dir fsDir es st rule: loadDir_loadEntries.induct)
  case (2 n d dir fsDir st)
  show ?case
  proof (cases "dReadDir d dir")
    case (Some es)
    then have "\<forall>nm. (nm, True) \<in> set es \<longrightarrow> rank (dir @ CHR ''/'' # nm) < n"
      using 2(2,3) unfolding ranked_def by (meson less_Suc_eq_le order.strict_trans2)
    with 2(1) [OF Some 2(2)] Some show ?thesis by simp
  qed simp
next
  case (4 n d dir fsDir nm isDir es st)
  let ?r = "if isDir then loadDir n d (dir @ ''/'' @ nm) (fsDir @ ''/'' @ nm) st else loadFile d (fsDir @ ''/'' @ nm) (dir @ ''/'' @ nm) st"
  show ?case
  proof (cases "hiddenName nm")
    case False
    have "?r \<noteq> Inl OutOfFuel"
      using 4(2) [OF False refl refl] 4(4,5) loadFile_no_fuel by (cases isDir) simp_all
    moreover have "loadEntries n d dir fsDir es st' \<noteq> Inl OutOfFuel" if "?r = Inr st'" for st'
      using 4(3) [OF False refl refl that 4(4)] 4(5) by simp
    ultimately show ?thesis
      using False by (cases ?r; cases isDir) (auto simp: Let_def)
  qed (use 4 in simp)
qed simp_all

lemma loadDir_more_fuel:
  "loadDir n d dir fsDir st \<noteq> Inl OutOfFuel \<Longrightarrow> n \<le> m \<Longrightarrow> loadDir m d dir fsDir st = loadDir n d dir fsDir st"
  "loadEntries n d dir fsDir es st \<noteq> Inl OutOfFuel \<Longrightarrow> n \<le> m \<Longrightarrow> loadEntries m d dir fsDir es st = loadEntries n d dir fsDir es st"
proof (induction n d dir fsDir st and n d dir fsDir es st arbitrary: m and m rule: loadDir_loadEntries.induct)
  case (2 n d dir fsDir st)
  obtain m' where m: "m = Suc m'" "n \<le> m'" using 2(3) by (cases m) auto
  show ?case
    using 2(1) [OF _ _ m(2)] 2(2) m(1) by (cases "dReadDir d dir") auto
next
  case (4 n d dir fsDir nm isDir es st)
  let ?r = "\<lambda>n. if isDir then loadDir n d (dir @ ''/'' @ nm) (fsDir @ ''/'' @ nm) st else loadFile d (fsDir @ ''/'' @ nm) (dir @ ''/'' @ nm) st"
  show ?case
  proof (cases "hiddenName nm")
    case False
    have step: "loadEntries k d dir fsDir ((nm, isDir) # es) st = (case ?r k of Inl e \<Rightarrow> Inl e | Inr st' \<Rightarrow> loadEntries k d dir fsDir es st')" for k
      using False by (simp only: loadEntries.simps Let_def if_False)
    have r: "?r m = ?r n"
    proof (cases isDir)
      case True
      have "?r n \<noteq> Inl OutOfFuel" using 4(4) unfolding step by (auto split: sum.splits)
      then show ?thesis using 4(2) [OF False refl refl True _ 4(5)] True by simp
    qed simp
    show ?thesis
    proof (cases "?r n")
      case (Inr st')
      then have "loadEntries n d dir fsDir es st' \<noteq> Inl OutOfFuel" using 4(4) unfolding step by simp
      then show ?thesis unfolding step r using 4(3) [OF False refl refl Inr _ 4(5)] Inr by simp
    qed (simp add: step r del: loadEntries.simps)
  next
    case True
    then show ?thesis using 4(1) [OF True _ 4(5)] 4(4) by simp
  qed
qed simp_all

lemma loadPatterns_fuel:
  assumes "ranked d rank"
  shows "\<forall>p \<in> set ps. rank p < n \<Longrightarrow> n \<le> m \<Longrightarrow>
    loadPatterns n d ps st \<noteq> Inl OutOfFuel \<and> loadPatterns m d ps st = loadPatterns n d ps st"
proof (induction ps arbitrary: st)
  case (Cons p ps)
  have "loadDir n d p p st \<noteq> Inl OutOfFuel" using loadDir_fuel(1) [OF assms] Cons.prems(1) by simp
  with loadDir_more_fuel(1) [OF this Cons.prems(2)] loadFile_no_fuel [of d p p st] Cons show ?case
    by (auto split: option.splits sum.splits)
qed simp

text \<open>
  C34: \<open>Load\<close> returns: on a disk whose directories do not nest for ever, fuel above the nesting depth
  of the patterns is never used up, and any more of it gives the same result.
\<close>

theorem Load_terminates:
  assumes "ranked d rank" "\<forall>p \<in> set pats. rank p < n" "n \<le> m"
  shows "Load n d pats \<noteq> Inl OutOfFuel \<and> Load m d pats = Load n d pats"
  using loadPatterns_fuel [OF assms(1), of pats n m "([], {})"] assms(2,3)
  by (auto simp: Load_def split: sum.splits)

theorem Load_terminates_witness:
  "Load 1 demoDisk [''a''] \<noteq> Inl OutOfFuel \<and> Load 7 demoDisk [''a''] = Load 1 demoDisk [''a'']"
  by (rule Load_terminates [where rank = "\<lambda>_. 0"]) (auto simp: ranked_def demoDisk_def split: if_splits)


lemma utf8_first_lo: "utf8_first b = Some (sz, lo, hi) \<Longrightarrow> 2 \<le> sz \<and> 0x80 \<le> lo"
  by (auto simp: utf8_first_def split: if_splits)

lemma ValidString_prefix: "byte c < 0x80 \<Longrightarrow> ValidString (a @ c # b) \<Longrightarrow> ValidString a"
proof (induction a rule: ValidString.induct)
  case (2 x s)
  show ?case
  proof (cases "byte x < 0x80")
    case True
    then show ?thesis using 2 by simp
  next
    case False
    then obtain sz lo hi where f: "utf8_first (byte x) = Some (sz, lo, hi)" using 2(4) by (auto split: option.splits)
    note lo = utf8_first_lo [OF f]
    have s: "lo \<le> byte ((s @ c # b) ! 0)" "byte ((s @ c # b) ! 0) \<le> hi"
      "\<forall>i \<in> set [1..<sz - 1]. contByte ((s @ c # b) ! i)" "ValidString (drop (sz - 1) (s @ c # b))"
      using 2(4) False f by auto
    have len: "sz - 1 \<le> length s"
    proof (rule ccontr)
      assume "\<not> sz - 1 \<le> length s"
      then have "length s < sz - 1" by simp
      show False
      proof (cases "s = []")
        case True
        then show ?thesis using s(1) lo 2(3) by simp
      next
        case s0: False
        then have "length s \<in> set [1..<sz - 1]" using \<open>length s < sz - 1\<close> by (simp add: Suc_le_eq)
        with s(3) have "contByte ((s @ c # b) ! length s)" by blast
        then show ?thesis using 2(3) by (simp add: contByte_def)
      qed
    qed
    then have "ValidString (drop (sz - 1) s)" using 2(2) [OF False f refl refl 2(3)] s(4) by simp
    moreover have "(s @ c # b) ! i = s ! i" if "i < sz - 1" for i using that len by (simp add: nth_append)
    ultimately show ?thesis using False f s(1-3) len lo by simp
  qed
qed simp

lemma ValidPath_dirOf:
  assumes "ValidPath nm" "nm \<noteq> ''.''" "dirOf nm \<noteq> ''.''"
  shows "ValidPath (dirOf nm)"
proof -
  have v: "validElems nm" "ValidString nm" using assms by (auto simp: ValidPath_def)
  then have "validElems (dirOf nm)" "nm = dirOf nm @ CHR ''/'' # elemOf nm"
    using validElems_dirOf [OF v(1)] assms(3) by simp_all
  moreover from this(2) v(2) have "ValidString (dirOf nm)"
    using ValidString_prefix [of "CHR ''/''" "dirOf nm" "elemOf nm"] by (simp add: byte_def)
  ultimately show ?thesis by (simp add: ValidPath_def)
qed

lemma FS_ReadDir_lookup:
  "lookup f nm = Some x \<Longrightarrow> suffix ''/'' (file_name x) \<Longrightarrow> FS_ReadDir f nm = Inr (readDir f nm)"
  by (simp add: FS_ReadDir_def Open_def file_IsDir_def split_trim)

text \<open>
  C35: every directory of an embedded file can be listed, and the listing has the file: \<open>Load\<close> adds the
  entries for the directories the binary search needs.
\<close>

theorem Load_ReadDir_lists:
  assumes "Load n d pats = Inr fs" "\<forall>p \<in> set pats. ValidPath p \<and> p \<noteq> ''.''" "saneDisk d" "p \<in> set pats" "embedded d p nm"
  shows "\<exists>l x. FS_ReadDir fs (dirOf nm) = Inr l \<and> x \<in> set l \<and> file_name x = nm"
proof -
  let ?N = "{path. \<exists>p \<in> set pats. embedded d p path}"
  obtain raw where raw: "loaded d (raw, ?N) ?N"
    "\<forall>nm x. ValidPath nm \<longrightarrow> nm \<noteq> ''.'' \<longrightarrow> (lookup fs nm = Some x \<longleftrightarrow> x \<in> set (addDirEntries raw) \<and> trim (file_name x) = nm)"
    by (rule load_lookup [OF assms(1-3)])
  obtain raw' where raw': "loaded d (raw', ?N) ?N" "files fs = insertionSortFiles (addDirEntries raw')"
    by (rule Load_cases [OF assms(1)])
  have nm: "ValidPath nm" "nm \<noteq> ''.''" using embedded_valid [OF assms(3,5)] assms(2,4) by blast+
  have "nm \<in> ?N" using assms(4,5) by blast
  then have "nm \<in> file_name ` set raw" "nm \<in> file_name ` set raw'"
    using raw(1) raw'(1) unfolding loaded_def by simp_all
  then obtain x x' where x: "x \<in> set raw" "file_name x = nm" and x': "x' \<in> set raw'" "file_name x' = nm"
    by (elim imageE) simp
  have "x' \<in> set (files fs)" using x' raw'(2) by (simp add: insertionSort_set addDirEntries_def)
  then have in_dir: "x' \<in> set (readDir fs (dirOf nm))"
    using readDir_filter [of fs "dirOf nm"] x'(2) raw'(2) insertionSort_sorted by simp
  have "FS_ReadDir fs (dirOf nm) = Inr (readDir fs (dirOf nm))"
  proof (cases "dirOf nm = ''.''")
    case True
    then show ?thesis using FS_ReadDir_lookup [OF lookup_dot] by (simp add: dotFile_def suffix_def)
  next
    case False
    obtain ds where ds: "addDirEntries raw = raw @ map dirEntry ds"
      "set ds = (\<Union>f \<in> set raw. set (ancestors (dirOf (file_name f))))" by (rule addDirEntries_spec)
    have "dirOf nm \<in> set (ancestors (dirOf (file_name x)))"
      using x False by (simp add: ancestors.simps [of "dirOf nm"])
    with x(1) have "dirOf nm \<in> set ds" unfolding ds(2) by blast
    then have "lookup fs (dirOf nm) = Some (dirEntry (dirOf nm))"
      using raw(2) ValidPath_dirOf [OF nm False] False ds(1) by simp
    from FS_ReadDir_lookup [OF this] show ?thesis by (simp add: suffix_def)
  qed
  with in_dir x'(2) show ?thesis by blast
qed

theorem Load_ReadDir_lists_witness:
  "\<exists>fs l x. Load 2 demoDisk [''a''] = Inr fs \<and> FS_ReadDir fs (dirOf ''a/x'') = Inr l \<and> x \<in> set l \<and> file_name x = ''a/x''"
proof -
  obtain fs where l: "Load 2 demoDisk [''a''] = Inr fs"
    by (simp add: Load_def demoDisk_def numeral_2_eq_2 hiddenName_def HasPrefix_def Let_def loadFile_def)
  have "\<forall>p \<in> set [''a'']. ValidPath p \<and> p \<noteq> ''.''" by code_simp
  moreover have "embedded demoDisk ''a'' ''a/x''"
    using subtree.entry [of demoDisk "''a''" _ "''x''"] by (simp add: embedded_def demoDisk_def hiddenName_def HasPrefix_def)
  ultimately show ?thesis
    using l Load_ReadDir_lists [OF l _ demoDisk_sane, of "''a''" "''a/x''"] by auto
qed

text \<open>
  The key of \<^verbatim>\<open>./x\<close> is the key of \<^verbatim>\<open>x\<close>. Loading the current directory and a file of it by name gives
  a file system in which that file cannot be read: the search finds the entry \<^verbatim>\<open>./x\<close> first, whose
  name is another.
\<close>

definition dotDisk :: disk where
  "dotDisk = \<lparr>dStat = (\<lambda>p. if p = ''.'' then Some True else if p = ''x'' then Some False else None),
     dReadDir = (\<lambda>p. if p = ''.'' then Some [(''x'', False)] else None),
     dReadFile = (\<lambda>p. if p = ''x'' \<or> p = ''./x'' then Some ''data'' else None)\<rparr>"

theorem Load_dot_hides_file:
  "case Load 1 dotDisk [''.'', ''x''] of Inl _ \<Rightarrow> False
   | Inr fs \<Rightarrow> map file_name (files fs) = [''./x'', ''x''] \<and>
       FS_ReadFile fs ''x'' = Inl (PathError ''open'' ''x'' ErrNotExist) \<and>
       FS_ReadFile fs ''./x'' = Inl (PathError ''open'' ''./x'' ErrNotExist)"
  by code_simp

end
