(* ===== verification/Fgoeval.thy ===== *)
theory Fgoeval
  imports GoConstant EmbedLoad
begin

text \<open>
  \<^verbatim>\<open>src/src/internal/fgoeval/fgoeval.go\<close>: what the compile-time interpreters share. Values, the
  operations on constants of a basic type, the library calls that are evaluated natively and
  the conversion of results.

  Parameters, gathered in the record \<open>evalEnv\<close>: the disk and the working directory, \<^verbatim>\<open>filepath.Join\<close>,
  \<^verbatim>\<open>sort.Slice\<close>, \<^verbatim>\<open>fmt.Sprintf\<close>, and encoding/json for scalars and for decoding. \<^verbatim>\<open>Fail\<close> is the
  error \<open>Fail\<close> with the fixed part of its message; any other panic is \<open>GoPanic\<close>.
\<close>

section \<open>Values\<close>

datatype 'f Value = Const "'f cval"
  | ObjectVal "string list" "(string \<times> 'f Value) list"
  | ArrayVal "'f Value list"
  | OtherVal

datatype 'f native = NBool bool | NString string | NInt int | NFloat 'f

datatype 'f json = JNull | JBool bool | JNum 'f | JStr string | JArr "'f json list" | JObj "(string \<times> 'f json) list"

datatype evalError = Fail string | GoPanic

record 'f evalEnv =
  eFloat :: "'f floatOps"
  eDisk :: disk
  eGetwd :: "string option"
  eJoin :: "string \<Rightarrow> string \<Rightarrow> string"
  eSort :: "(embedFile \<Rightarrow> embedFile \<Rightarrow> bool) \<Rightarrow> embedFile list \<Rightarrow> embedFile list"
  eSprintf :: "string \<Rightarrow> 'f native list \<Rightarrow> string"
  eMarshal :: "'f native \<Rightarrow> string option"
  eDecode :: "string \<Rightarrow> 'f json option"
  eFuel :: nat

definition orPanic :: "'a option \<Rightarrow> evalError + 'a" where
  "orPanic x = (case x of None \<Rightarrow> Inl GoPanic | Some y \<Rightarrow> Inr y)"

section \<open>Basic types\<close>

definition basicInts :: "string \<Rightarrow> (nat \<times> bool) option" where
  "basicInts t = map_of
     [(''int'', 64, True), (''int8'', 8, True), (''int16'', 16, True), (''int32'', 32, True), (''int64'', 64, True), (''rune'', 32, True),
      (''uint'', 64, False), (''uint8'', 8, False), (''uint16'', 16, False), (''uint32'', 32, False), (''uint64'', 64, False),
      (''uintptr'', 64, False), (''byte'', 8, False)] t"

definition IsIntType :: "string \<Rightarrow> bool" where
  "IsIntType t = (basicInts t \<noteq> None)"

definition IsFloatType :: "string \<Rightarrow> bool" where
  "IsFloatType t = (t = ''float32'' \<or> t = ''float64'')"

definition IsBasicType :: "string \<Rightarrow> bool" where
  "IsBasicType t = (IsIntType t \<or> IsFloatType t \<or> t = ''string'' \<or> t = ''bool'')"

text \<open>\<^verbatim>\<open>string(rune(n))\<close>: the UTF-8 encoding of a code point, U+FFFD for what is none.\<close>

definition encodeRune :: "int \<Rightarrow> string" where
  "encodeRune r =
     (if 0 \<le> r \<and> r < 0x80 then [char_of r]
      else if 0 \<le> r \<and> r < 0x800 then [char_of (0xC0 + r div 64), char_of (0x80 + r mod 64)]
      else if r < 0 \<or> r > 0x10FFFF \<or> (0xD800 \<le> r \<and> r \<le> 0xDFFF) then [CHR 0xEF, CHR 0xBF, CHR 0xBD]
      else if r < 0x10000 then [char_of (0xE0 + r div 4096), char_of (0x80 + r div 64 mod 64), char_of (0x80 + r mod 64)]
      else [char_of (0xF0 + r div 262144), char_of (0x80 + r div 4096 mod 64), char_of (0x80 + r div 64 mod 64), char_of (0x80 + r mod 64)])"

definition rune :: "int \<Rightarrow> int" where
  "rune n = signed_take_bit 31 n"

definition Convert :: "'f floatOps \<Rightarrow> 'f cval \<Rightarrow> string \<Rightarrow> evalError + 'f cval" where
  "Convert fo v t =
     (case basicInts t of
        Some (bits, sgnd) \<Rightarrow>
          (if Kind v \<noteq> KFloat \<and> Kind v \<noteq> KInt then Inr v
           else
            (let v1 = (case v of FloatV x \<Rightarrow> (case foTrunc64 fo x of None \<Rightarrow> UnknownVal | Some n \<Rightarrow> IntV n) | _ \<Rightarrow> v) in
             case Shift (IntV 1) SHL bits of None \<Rightarrow> Inl GoPanic
             | Some md \<Rightarrow>
                 (case constBinaryOp fo md SUB (IntV 1) of None \<Rightarrow> Inl GoPanic
                  | Some msk \<Rightarrow>
                      (case constBinaryOp fo v1 BAND msk of None \<Rightarrow> Inl GoPanic
                       | Some v2 \<Rightarrow>
                           (if sgnd \<and> (case v2 of IntV n \<Rightarrow> n \<ge> push_bit (bits - 1) 1 | _ \<Rightarrow> False)
                            then orPanic (constBinaryOp fo v2 SUB md) else Inr v2)))))
      | None \<Rightarrow>
          if IsFloatType t then Inr (if Kind v = KInt \<or> Kind v = KFloat then ToFloat fo v else v)
          else if t = ''string'' then
            (case v of IntV n \<Rightarrow> Inr (StringV (encodeRune (rune (int64 n)))) | _ \<Rightarrow> Inr v)
          else Inr v)"

definition DefaultType :: "'f cval \<Rightarrow> string" where
  "DefaultType v = (case Kind v of KInt \<Rightarrow> ''int'' | KFloat \<Rightarrow> ''float64'' | KString \<Rightarrow> ''string'' | KBool \<Rightarrow> ''bool'' | _ \<Rightarrow> [])"

definition ValueType :: "'f Value \<Rightarrow> string" where
  "ValueType v = (case v of Const c \<Rightarrow> DefaultType c | _ \<Rightarrow> [])"

section \<open>Operators\<close>

definition BinaryOp :: "'f floatOps \<Rightarrow> 'f cval \<Rightarrow> token \<Rightarrow> 'f cval \<Rightarrow> string \<Rightarrow> evalError + 'f cval" where
  "BinaryOp fo x op y t =
     (if op = SHL \<or> op = SHR then
        (case Uint64Val (ToInt fo y) of None \<Rightarrow> Inl GoPanic
         | Some (n, ok) \<Rightarrow>
             if \<not> ok \<or> n > 65536 then Inl (Fail ''invalid shift count'')
             else (case Shift (ToInt fo x) op (nat n) of None \<Rightarrow> Inl GoPanic | Some v \<Rightarrow> Convert fo v t))
      else
        (if op = QUO \<or> op = REM then
           (case Sign fo y of None \<Rightarrow> Inl GoPanic
            | Some s \<Rightarrow>
                if s = 0 then Inl (Fail ''division by zero'')
                else if op = QUO \<and> (Kind x = KInt \<and> Kind y = KInt \<or> IsIntType t)
                then (case constBinaryOp fo (ToInt fo x) QUO_ASSIGN (ToInt fo y) of None \<Rightarrow> Inl GoPanic | Some v \<Rightarrow> Convert fo v t)
                else (case constBinaryOp fo x op y of None \<Rightarrow> Inl GoPanic | Some v \<Rightarrow> Convert fo v t))
         else (case constBinaryOp fo x op y of None \<Rightarrow> Inl GoPanic | Some v \<Rightarrow> Convert fo v t)))"

section \<open>Scalars\<close>

definition Native :: "'f floatOps \<Rightarrow> 'f cval \<Rightarrow> evalError + 'f native" where
  "Native fo v = (case v of
     BoolV b \<Rightarrow> Inr (NBool b)
   | StringV s \<Rightarrow> Inr (NString s)
   | IntV n \<Rightarrow> (if isInt64 n then Inr (NInt n) else Inl (Fail ''integer constant too large''))
   | FloatV x \<Rightarrow> Inr (NFloat (foRound64 fo x))
   | _ \<Rightarrow> Inl (Fail ''unsupported constant kind''))"

definition Scalar :: "'f Value \<Rightarrow> evalError + 'f cval" where
  "Scalar v = (case v of Const c \<Rightarrow> Inr c | _ \<Rightarrow> Inl (Fail ''must be a scalar''))"

definition ScalarString :: "'f floatOps \<Rightarrow> 'f Value \<Rightarrow> evalError + string" where
  "ScalarString fo v = (case Scalar v of Inl e \<Rightarrow> Inl e | Inr c \<Rightarrow>
     (case Native fo c of Inl e \<Rightarrow> Inl e | Inr (NString s) \<Rightarrow> Inr s | Inr _ \<Rightarrow> Inl (Fail ''requires a string argument'')))"

definition ScalarInt :: "'f floatOps \<Rightarrow> 'f Value \<Rightarrow> evalError + int" where
  "ScalarInt fo v = (case Scalar v of Inl e \<Rightarrow> Inl e | Inr c \<Rightarrow>
     (case Native fo c of Inl e \<Rightarrow> Inl e | Inr (NInt n) \<Rightarrow> Inr n | Inr _ \<Rightarrow> Inl (Fail ''requires an integer argument'')))"

fun ToConstant :: "'f Value \<Rightarrow> 'f cval option"
and toConstants :: "'f Value list \<Rightarrow> 'f cval list option"
and toConstantFields :: "(string \<times> 'f Value) list \<Rightarrow> (string \<times> 'f cval) list option"
where
  "ToConstant (Const c) = Some c"
| "ToConstant (ObjectVal keys flds) = map_option (CompositeStruct keys) (toConstantFields flds)"
| "ToConstant (ArrayVal elems) = map_option CompositeArray (toConstants elems)"
| "ToConstant OtherVal = None"
| "toConstants [] = Some []"
| "toConstants (v # vs) = (case ToConstant v of None \<Rightarrow> None | Some c \<Rightarrow> map_option ((#) c) (toConstants vs))"
| "toConstantFields [] = Some []"
| "toConstantFields ((k, v) # fs) = (case ToConstant v of None \<Rightarrow> None | Some c \<Rightarrow> map_option ((#) (k, c)) (toConstantFields fs))"


section \<open>JSON\<close>

fun marshalJSON :: "'f evalEnv \<Rightarrow> 'f Value \<Rightarrow> evalError + string option"
and marshalList :: "'f evalEnv \<Rightarrow> 'f Value list \<Rightarrow> evalError + string list option"
and marshalFields :: "'f evalEnv \<Rightarrow> (string \<times> 'f Value) list \<Rightarrow> (string \<times> (evalError + string option)) list"
where
  "marshalJSON env (Const c) = map_sum id (eMarshal env) (Native (eFloat env) c)"
| "marshalJSON env (ObjectVal keys flds) =
     map_sum id (map_option (\<lambda>ss. ''{'' @ Join ss '','' @ ''}''))
       (let fs = marshalFields env flds in
        foldr (\<lambda>k acc. case eMarshal env (NString k) of None \<Rightarrow> Inr None
          | Some kb \<Rightarrow> (case map_of fs k of None \<Rightarrow> Inr None
             | Some (Inl e) \<Rightarrow> Inl e
             | Some (Inr None) \<Rightarrow> Inr None
             | Some (Inr (Some t)) \<Rightarrow> map_sum id (map_option ((#) (kb @ '':'' @ t))) acc)) keys (Inr (Some [])))"
| "marshalJSON env (ArrayVal elems) = map_sum id (map_option (\<lambda>ss. ''['' @ Join ss '','' @ '']'')) (marshalList env elems)"
| "marshalJSON env OtherVal = Inr None"
| "marshalList env [] = Inr (Some [])"
| "marshalList env (v # vs) = (case marshalJSON env v of Inl e \<Rightarrow> Inl e | Inr None \<Rightarrow> Inr None
     | Inr (Some s) \<Rightarrow> map_sum id (map_option ((#) s)) (marshalList env vs))"
| "marshalFields env [] = []"
| "marshalFields env ((k, v) # fs) = (k, marshalJSON env v) # marshalFields env fs"

fun fromJSON :: "'f floatOps \<Rightarrow> 'f json \<Rightarrow> 'f Value"
where
  "fromJSON fo JNull = Const UnknownVal"
| "fromJSON fo (JBool b) = Const (BoolV b)"
| "fromJSON fo (JNum x) = Const (case foExact64 fo x of Some n \<Rightarrow> IntV n | None \<Rightarrow> FloatV x)"
| "fromJSON fo (JStr s) = Const (StringV s)"
| "fromJSON fo (JArr xs) = ArrayVal (map (fromJSON fo) xs)"
| "fromJSON fo (JObj kvs) = ObjectVal (sort (map fst kvs)) (map (\<lambda>(k, v). (k, fromJSON fo v)) kvs)"

section \<open>Embedded files\<close>

definition IsAbs :: "string \<Rightarrow> bool" where
  "IsAbs path = HasPrefix path ''/''"

definition resolveEmbedPath :: "'f evalEnv \<Rightarrow> string \<Rightarrow> string \<Rightarrow> string" where
  "resolveEmbedPath env dir path = (if IsAbs path then path else eJoin env (if dir = [] then ''.'' else dir) path)"

definition splitEmbedName :: "string \<Rightarrow> string \<times> string \<times> bool" where
  "splitEmbedName nm = (case CutSuffix nm ''/'' of (n, isDir) \<Rightarrow>
     let i = LastIndexByte n (CHR ''/'') in
     if i < 0 then (''.'', n, isDir) else (take (nat i) n, drop (nat i + 1) n, isDir))"

definition addFile :: "disk \<Rightarrow> string \<Rightarrow> string \<Rightarrow> loadState \<Rightarrow> loadError + loadState" where
  "addFile d fsPath diskPath st = (case st of (fs, seen) \<Rightarrow>
     if fsPath \<in> seen then Inr st
     else case dReadFile d diskPath of None \<Rightarrow> Inl OsError
     | Some s \<Rightarrow> Inr (fs @ [\<lparr>file_name = fsPath, file_data = s\<rparr>], insert fsPath seen))"

function (sequential) walkDir :: "nat \<Rightarrow> 'f evalEnv \<Rightarrow> string \<Rightarrow> string \<Rightarrow> loadState \<Rightarrow> loadError + loadState"
and walkEntries :: "nat \<Rightarrow> 'f evalEnv \<Rightarrow> string \<Rightarrow> string \<Rightarrow> (string \<times> bool) list \<Rightarrow> loadState \<Rightarrow> loadError + loadState"
where
  "walkDir 0 env diskDir fsDir st = Inl OutOfFuel"
| "walkDir (Suc n) env diskDir fsDir st = (case dReadDir (eDisk env) diskDir of None \<Rightarrow> Inl OsError
     | Some es \<Rightarrow> walkEntries n env diskDir fsDir es st)"
| "walkEntries n env diskDir fsDir [] st = Inr st"
| "walkEntries n env diskDir fsDir ((nm, isDir) # es) st =
     (if HasPrefix nm ''.'' \<or> HasPrefix nm ''_'' then walkEntries n env diskDir fsDir es st
      else let diskPath = eJoin env diskDir nm; fsPath = fsDir @ ''/'' @ nm in
        case (if isDir then walkDir n env diskPath fsPath st else addFile (eDisk env) fsPath diskPath st) of
          Inl e \<Rightarrow> Inl e
        | Inr st' \<Rightarrow> walkEntries n env diskDir fsDir es st')"
  by pat_completeness auto
termination
  by (relation "inv_image (less_than <*lex*> less_than) (case_sum (\<lambda>(n, _). (n, 0)) (\<lambda>(n, _, _, _, es, _). (n, Suc (length es))))") auto

fun walkPatterns :: "'f evalEnv \<Rightarrow> string \<Rightarrow> string list \<Rightarrow> loadState \<Rightarrow> loadError + loadState" where
  "walkPatterns env dir [] st = Inr st"
| "walkPatterns env dir (p # ps) st =
     (let diskPath = resolveEmbedPath env dir p in
      case dStat (eDisk env) diskPath of None \<Rightarrow> Inl OsError
      | Some isDir \<Rightarrow>
          (case (if isDir then walkDir (eFuel env) env diskPath p st else addFile (eDisk env) p diskPath st) of
             Inl e \<Rightarrow> Inl e
           | Inr st' \<Rightarrow> walkPatterns env dir ps st'))"

definition embedLess :: "embedFile \<Rightarrow> embedFile \<Rightarrow> bool" where
  "embedLess a b = (case splitEmbedName (file_name a) of (idir, ielem, _) \<Rightarrow>
     case splitEmbedName (file_name b) of (jdir, jelem, _) \<Rightarrow>
       if idir \<noteq> jdir then idir < jdir else ielem < jelem)"

function embedDirsOf :: "string \<Rightarrow> string set \<times> embedFile list \<Rightarrow> string set \<times> embedFile list" where
  "embedDirsOf dir st =
     (if dir = ''.'' then st
      else embedDirsOf (fst (splitEmbedName dir))
        (case st of (seen, dirs) \<Rightarrow> if dir \<in> seen then st
           else (insert dir seen, dirs @ [\<lparr>file_name = dir @ ''/'', file_data = []\<rparr>])))"
  by pat_completeness auto
termination
proof (relation "measure (\<lambda>(dir, _). if dir = ''.'' then 0 else Suc (length dir))", simp, goal_cases)
  case (1 dir st)
  have "fst (splitEmbedName dir) = dirOf dir" by (simp add: splitEmbedName_def dirOf_def split_def)
  then show ?case using 1 dirOf_shorter [of dir] by auto
qed

declare embedDirsOf.simps [simp del]

definition fileValue :: "embedFile \<Rightarrow> 'f Value" where
  "fileValue f = ObjectVal [''name'', ''data''] [(''name'', Const (StringV (file_name f))), (''data'', Const (StringV (file_data f)))]"

definition filesValue :: "embedFile list \<Rightarrow> 'f Value" where
  "filesValue fs = ObjectVal [''files''] [(''files'', ArrayVal (map fileValue fs))]"

definition loadEmbedFS :: "'f evalEnv \<Rightarrow> string \<Rightarrow> string list \<Rightarrow> loadError + 'f Value" where
  "loadEmbedFS env dir patterns = (case walkPatterns env dir patterns ([], {}) of
     Inl e \<Rightarrow> Inl e
   | Inr (fs, _) \<Rightarrow>
       (let dirs = snd (fold (\<lambda>f. embedDirsOf (fst (splitEmbedName (file_name f)))) fs ({}, []))
        in Inr (filesValue (eSort env embedLess (fs @ dirs)))))"

section \<open>Native calls\<close>

definition qualName :: "string \<Rightarrow> string \<Rightarrow> string" where
  "qualName pkg fn = pkg @ ''.'' @ fn"

definition nativeNames :: "string list" where
  "nativeNames = [''fmt.Sprintf'', ''strconv.Itoa'', ''embed.ReadFile'', ''embed.ReadFileRange'', ''embed.Exists'',
     ''embed.IsDir'', ''embed.ReadDir'', ''embed.Getwd'', ''embed.Load'', ''json.Marshal'', ''json.Unmarshal'']"

definition HasNative :: "string \<Rightarrow> string \<Rightarrow> bool" where
  "HasNative pkg fn = (qualName pkg fn \<in> set nativeNames)"

definition Itoa :: "int \<Rightarrow> string" where
  "Itoa n = (if n < 0 then CHR ''-'' # digits (nat (- n)) else digits (nat n))"

text \<open>\<^verbatim>\<open>args[i]\<close>: out of range is a panic.\<close>

definition arg :: "'a list \<Rightarrow> nat \<Rightarrow> evalError + 'a" where
  "arg args i = (if i < length args then Inr (args ! i) else Inl GoPanic)"

definition bindE :: "evalError + 'a \<Rightarrow> ('a \<Rightarrow> evalError + 'b) \<Rightarrow> evalError + 'b" where
  "bindE x f = (case x of Inl e \<Rightarrow> Inl e | Inr y \<Rightarrow> f y)"

fun mapE :: "('a \<Rightarrow> evalError + 'b) \<Rightarrow> 'a list \<Rightarrow> evalError + 'b list" where
  "mapE f [] = Inr []"
| "mapE f (x # xs) = bindE (f x) (\<lambda>y. bindE (mapE f xs) (\<lambda>ys. Inr (y # ys)))"

definition stringArg :: "'f evalEnv \<Rightarrow> 'f Value list \<Rightarrow> nat \<Rightarrow> evalError + string" where
  "stringArg env args i = bindE (arg args i) (ScalarString (eFloat env))"

definition intArg :: "'f evalEnv \<Rightarrow> 'f Value list \<Rightarrow> nat \<Rightarrow> evalError + int" where
  "intArg env args i = bindE (arg args i) (ScalarInt (eFloat env))"

definition strResult :: "string \<Rightarrow> evalError + 'f Value" where
  "strResult s = Inr (Const (StringV s))"

definition callSprintf :: "'f evalEnv \<Rightarrow> 'f Value list \<Rightarrow> evalError + 'f Value" where
  "callSprintf env args =
     (if args = [] then Inl (Fail ''fmt.Sprintf requires a format string'')
      else bindE (stringArg env args 0) (\<lambda>fmt.
        bindE (mapE (\<lambda>a. bindE (Scalar a) (Native (eFloat env))) (tl args)) (\<lambda>rest. strResult (eSprintf env fmt rest))))"

definition callReadFileRange :: "'f evalEnv \<Rightarrow> string \<Rightarrow> 'f Value list \<Rightarrow> evalError + 'f Value" where
  "callReadFileRange env dir args =
     (if length args \<noteq> 3 then Inl (Fail ''embed.ReadFileRange takes exactly 3 arguments'')
      else bindE (stringArg env args 0) (\<lambda>path. bindE (intArg env args 1) (\<lambda>offset. bindE (intArg env args 2) (\<lambda>len.
        case dReadFile (eDisk env) (resolveEmbedPath env dir path) of None \<Rightarrow> Inl (Fail ''embed.ReadFileRange'')
        | Some s \<Rightarrow>
            if offset < 0 \<or> len < 0 \<or> int64 (offset + len) > int (length s) then Inl (Fail ''out of bounds'')
            else (case slice s offset (int64 (offset + len)) of None \<Rightarrow> Inl GoPanic | Some t \<Rightarrow> strResult t)))))"

definition callLoad :: "'f evalEnv \<Rightarrow> string \<Rightarrow> 'f Value list \<Rightarrow> evalError + 'f Value" where
  "callLoad env dir args =
     (if args = [] then Inl (Fail ''embed.Load requires at least one pattern'')
      else bindE (mapE (ScalarString (eFloat env)) args) (\<lambda>patterns.
        case loadEmbedFS env dir patterns of Inl _ \<Rightarrow> Inl (Fail ''embed.Load'') | Inr v \<Rightarrow> Inr v))"

definition callMarshal :: "'f evalEnv \<Rightarrow> 'f Value list \<Rightarrow> evalError + 'f Value" where
  "callMarshal env args =
     (if length args \<noteq> 1 then Inl (Fail ''json.Marshal takes exactly one argument'')
      else bindE (marshalJSON env (hd args)) (\<lambda>r. case r of None \<Rightarrow> Inl (Fail ''json.Marshal'') | Some s \<Rightarrow> strResult s))"

definition callUnmarshal :: "'f evalEnv \<Rightarrow> 'f Value list \<Rightarrow> evalError + 'f Value" where
  "callUnmarshal env args =
     (if length args \<noteq> 1 then Inl (Fail ''json.Unmarshal takes exactly one argument'')
      else bindE (stringArg env args 0) (\<lambda>s. case eDecode env s of None \<Rightarrow> Inl (Fail ''json.Unmarshal'')
        | Some raw \<Rightarrow> Inr (fromJSON (eFloat env) raw)))"

definition NativeCall :: "'f evalEnv \<Rightarrow> string \<Rightarrow> string \<Rightarrow> string \<Rightarrow> 'f Value list \<Rightarrow> evalError + 'f Value option" where
  "NativeCall env dir pkg fn args =
     (let q = qualName pkg fn; path = (\<lambda>i. bindE (stringArg env args i) (\<lambda>p. Inr (resolveEmbedPath env dir p))); d = eDisk env;
          failed = (\<lambda>msg r. case r of None \<Rightarrow> Inl (Fail msg) | Some y \<Rightarrow> Inr y) in
      if q = ''fmt.Sprintf'' then map_sum id Some (callSprintf env args)
      else if q = ''strconv.Itoa'' then
        (if length args \<noteq> 1 then Inl (Fail ''strconv.Itoa takes exactly one argument'')
         else map_sum id Some (bindE (intArg env args 0) (\<lambda>n. strResult (Itoa n))))
      else if q = ''embed.ReadFile'' then map_sum id Some (bindE (path 0) (\<lambda>p. bindE (failed ''embed.ReadFile'' (dReadFile d p)) strResult))
      else if q = ''embed.ReadFileRange'' then map_sum id Some (callReadFileRange env dir args)
      else if q = ''embed.Exists'' then bindE (path 0) (\<lambda>p. Inr (Some (Const (BoolV (dStat d p \<noteq> None)))))
      else if q = ''embed.IsDir'' then bindE (path 0) (\<lambda>p. case dStat d p of None \<Rightarrow> Inl (Fail ''embed.IsDir'') | Some b \<Rightarrow> Inr (Some (Const (BoolV b))))
      else if q = ''embed.ReadDir'' then
        bindE (path 0) (\<lambda>p. case dReadDir d p of None \<Rightarrow> Inl (Fail ''embed.ReadDir'') | Some es \<Rightarrow> map_sum id Some (strResult (Join (map fst es) [CHR 0x0A])))
      else if q = ''embed.Getwd'' then
        (if args \<noteq> [] then Inl (Fail ''embed.Getwd takes no arguments'')
         else map_sum id Some (bindE (failed ''embed.Getwd'' (eGetwd env)) strResult))
      else if q = ''embed.Load'' then map_sum id Some (callLoad env dir args)
      else if q = ''json.Marshal'' then map_sum id Some (callMarshal env args)
      else if q = ''json.Unmarshal'' then map_sum id Some (callUnmarshal env args)
      else Inr None)"


section \<open>Conversion wraps around\<close>

definition wrap :: "nat \<Rightarrow> bool \<Rightarrow> int \<Rightarrow> int" where
  "wrap bits sgnd n = (if sgnd then signed_take_bit (bits - 1) n else take_bit bits n)"

lemma basicInts_bits: "basicInts t = Some (bits, sgnd) \<Longrightarrow> 8 \<le> bits \<and> bits \<le> 64"
  by (auto simp: basicInts_def split: if_splits dest!: map_of_SomeD)

lemma signed_take_bit_step:
  "signed_take_bit m n = (if 2 ^ m \<le> take_bit (Suc m) n then take_bit (Suc m) n - 2 ^ Suc m else take_bit (Suc m) n)"
  for n :: int
proof -
  have "bit (take_bit (Suc m) n) m \<longleftrightarrow> 2 ^ m \<le> take_bit (Suc m) n"
  proof -
    have r: "0 \<le> take_bit (Suc m) n" "take_bit (Suc m) n < 2 * 2 ^ m"
      using take_bit_int_less_exp [of "Suc m" n] by simp_all
    have "take_bit (Suc m) n div 2 ^ m = (if 2 ^ m \<le> take_bit (Suc m) n then 1 else 0)"
    proof (cases "2 ^ m \<le> take_bit (Suc m) n")
      case True
      have "take_bit (Suc m) n div 2 ^ m = (take_bit (Suc m) n - 2 ^ m) div 2 ^ m + 1"
        using div_add_self2 [of "2 ^ m" "take_bit (Suc m) n - 2 ^ m"] by simp
      also have "(take_bit (Suc m) n - 2 ^ m) div 2 ^ m = 0"
        using True r(2) by (intro div_pos_pos_trivial) simp_all
      finally show ?thesis using True by simp
    next
      case False
      then show ?thesis using r(1) by (simp add: div_pos_pos_trivial)
    qed
    then show ?thesis by (simp add: bit_iff_odd)
  qed
  then show ?thesis unfolding signed_take_bit_code Let_def by (simp add: push_bit_eq_mult)
qed

lemma Convert_int:
  assumes "basicInts t = Some (bits, sgnd)"
  shows "Convert fo (IntV n) t = Inr (IntV (wrap bits sgnd n))"
proof -
  obtain m where m: "bits = Suc m" using basicInts_bits [OF assms] by (cases bits) auto
  have "n AND (2 ^ bits - 1) = take_bit bits n" by (simp add: take_bit_eq_mask mask_eq_exp_minus_1)
  then show ?thesis
    using assms m signed_take_bit_step [of m n]
    by (simp add: Convert_def constBinaryOp_int intOp_exact push_bit_eq_mult wrap_def orPanic_def)
qed


section \<open>Machine arithmetic\<close>

text \<open>Go's operators on 64-bit integers; \<open>None\<close> is a division by zero.\<close>

fun goInt64Op :: "token \<Rightarrow> int64 \<Rightarrow> int64 \<Rightarrow> int64 option" where
  "goInt64Op ADD a b = Some (a + b)"
| "goInt64Op SUB a b = Some (a - b)"
| "goInt64Op MUL a b = Some (a * b)"
| "goInt64Op QUO a b = (if b = 0 then None else Some (word_of_int (sint a sdiv sint b)))"
| "goInt64Op REM a b = (if b = 0 then None else Some (word_of_int (sint a smod sint b)))"
| "goInt64Op BAND a b = Some (a AND b)"
| "goInt64Op BOR a b = Some (a OR b)"
| "goInt64Op BXOR a b = Some (a XOR b)"
| "goInt64Op AND_NOT a b = Some (a AND NOT b)"
| "goInt64Op _ a b = None"

lemma sint_of_int: "sint (word_of_int k :: int64) = signed_take_bit 63 k"
  by (simp add: signed_of_int)

lemma word_ops_int:
  fixes a b :: int64
  shows "a + b = word_of_int (sint a + sint b)" "a - b = word_of_int (sint a - sint b)" "a * b = word_of_int (sint a * sint b)"
    "a AND b = word_of_int (sint a AND sint b)" "a OR b = word_of_int (sint a OR sint b)"
    "a XOR b = word_of_int (sint a XOR sint b)" "a AND NOT b = word_of_int (sint a AND NOT (sint b))"
  by (simp_all add: of_int_and_eq of_int_or_eq of_int_xor_eq of_int_not_eq)

lemma sint_eq_0: "sint a = 0 \<longleftrightarrow> a = 0" for a :: int64
proof
  assume "sint a = 0"
  then have "(word_of_int (sint a) :: int64) = word_of_int 0" by (rule arg_cong)
  then show "a = 0" by simp
qed simp

lemma BinaryOp_int64:
  assumes t: "basicInts t = Some (64, True)" and op: "op \<in> {ADD, SUB, MUL, QUO, REM, BAND, BOR, BXOR, AND_NOT}"
  shows "BinaryOp fo (IntV (sint a)) op (IntV (sint b)) t =
     (case goInt64Op op a b of None \<Rightarrow> Inl (Fail ''division by zero'') | Some w \<Rightarrow> Inr (IntV (sint w)))"
proof -
  have conv: "Convert fo (IntV n) t = Inr (IntV (sint (word_of_int n :: int64)))" for n
    using Convert_int [OF t] by (simp add: wrap_def sint_of_int)
  have ops: "sint (a + b) = sint (word_of_int (sint a + sint b) :: int64)" "sint (a - b) = sint (word_of_int (sint a - sint b) :: int64)"
    "sint (a * b) = sint (word_of_int (sint a * sint b) :: int64)" "sint (a AND b) = sint (word_of_int (sint a AND sint b) :: int64)"
    "sint (a OR b) = sint (word_of_int (sint a OR sint b) :: int64)" "sint (a XOR b) = sint (word_of_int (sint a XOR sint b) :: int64)"
    "sint (a AND NOT b) = sint (word_of_int (sint a AND NOT (sint b)) :: int64)"
    by (subst word_ops_int [of a b], rule refl)+
  have quo: "sint (word_of_int (- (2 ^ 63)) :: int64) = sint (word_of_int (- (2 ^ 63) sdiv - 1) :: int64)"
    by (simp add: signed_divide_int_def sint_of_int)
  have int: "Kind (IntV n :: 'a cval) = KInt" "IsIntType t" for n using t by (simp_all add: IsIntType_def)
  have zero: "sgn (sint b) = 0 \<longleftrightarrow> b = 0" using sint_eq_0 [of b] by (simp add: sgn_eq_0_iff)
  note [simp del] = of_int_sint sint_word_ariths
  show ?thesis
    using op
  proof (elim insertE emptyE)
    assume "op = QUO"
    then show ?thesis
      using zero quo sint_eq_0 [of b] by (auto simp: BinaryOp_def constBinaryOp_int intOp_exact conv int)
  next
    assume "op = REM"
    then show ?thesis
      using zero sint_eq_0 [of b] by (auto simp: BinaryOp_def constBinaryOp_int intOp_exact conv int)
  qed (simp_all add: BinaryOp_def constBinaryOp_int intOp_exact conv ops)
qed


section \<open>Native calls\<close>

lemma map_sum_Some: "map_sum id Some x \<noteq> Inr None"
  by (cases x) auto

lemma bindE_Some: "(\<And>y. f y \<noteq> Inr None) \<Longrightarrow> bindE x f \<noteq> Inr None"
  by (cases x) (auto simp: bindE_def)

lemma NativeCall_handled:
  "NativeCall env dir pkg fn args = Inr None \<longleftrightarrow> \<not> HasNative pkg fn"
proof (cases "HasNative pkg fn")
  case False
  then show ?thesis by (simp add: HasNative_def nativeNames_def NativeCall_def)
next
  case True
  have read: "(case dStat (eDisk env) p of None \<Rightarrow> Inl (Fail ''embed.IsDir'') | Some b \<Rightarrow> Inr (Some (Const (BoolV b)))) \<noteq> (Inr None :: evalError + 'a Value option)"
    "(case dReadDir (eDisk env) p of None \<Rightarrow> Inl (Fail ''embed.ReadDir'') | Some es \<Rightarrow> map_sum id Some (strResult (Join (map fst es) [CHR 0x0A]))) \<noteq> (Inr None :: evalError + 'a Value option)"
    for p
    by (auto split: option.splits simp: map_sum_Some)
  from True have "qualName pkg fn \<in> set nativeNames" by (simp add: HasNative_def)
  then have "NativeCall env dir pkg fn args \<noteq> Inr None"
    unfolding nativeNames_def list.set
    by (elim insertE emptyE) (simp_all add: NativeCall_def map_sum_Some bindE_Some read)
  with True show ?thesis by simp
qed

section \<open>Loading at compile time\<close>

text \<open>
  The compiler's disk shows, at the resolved path, what the program's disk shows at the path
  itself: \<open>R\<close> relates the two.
\<close>

definition sameDisk :: "'f evalEnv \<Rightarrow> disk \<Rightarrow> (string \<Rightarrow> string \<Rightarrow> bool) \<Rightarrow> bool" where
  "sameDisk env d R \<longleftrightarrow> (\<forall>p q. R p q \<longrightarrow>
     dStat (eDisk env) p = dStat d q \<and> dReadDir (eDisk env) p = dReadDir d q \<and> dReadFile (eDisk env) p = dReadFile d q \<and>
     (\<forall>nm. R (eJoin env p nm) (q @ CHR ''/'' # nm)))"

lemma splitEmbedName_split: "splitEmbedName = split"
  by (rule ext) (simp add: splitEmbedName_def split_def)

lemma embedLess_less: "embedLess = less_file"
  by (intro ext) (simp add: embedLess_def less_file_def splitEmbedName_split)

lemma embedDirsOf_addDirsOf: "embedDirsOf dir st = addDirsOf dir st"
proof (induction dir st rule: addDirsOf.induct)
  case (1 dir st)
  then show ?case
    by (simp add: embedDirsOf.simps [of dir st] addDirsOf.simps [of dir st] splitEmbedName_split dirOf_def)
qed

lemma addFile_loadFile: "dReadFile d p = dReadFile d' q \<Longrightarrow> addFile d fsPath p st = loadFile d' fsPath q st"
  by (cases st) (simp add: addFile_def loadFile_def)

lemma sameDiskD:
  assumes "sameDisk env d R" "R p q"
  shows "dStat (eDisk env) p = dStat d q" "dReadDir (eDisk env) p = dReadDir d q" "dReadFile (eDisk env) p = dReadFile d q"
    "R (eJoin env p nm) (q @ CHR ''/'' # nm)"
  using assms unfolding sameDisk_def by blast+

lemma walk_load:
  "sameDisk env d R \<Longrightarrow> R p q \<Longrightarrow> walkDir n env p fsDir st = loadDir n d q fsDir st"
  "sameDisk env d R \<Longrightarrow> R p q \<Longrightarrow> walkEntries n env p fsDir es st = loadEntries n d q fsDir es st"
proof (induction n d q fsDir st and n d q fsDir es st arbitrary: p and p rule: loadDir_loadEntries.induct)
  case (2 n d q fsDir st)
  then show ?case using sameDiskD(2) [OF 2(2,3)] by (cases "dReadDir d q") simp_all
next
  case (4 n d q fsDir nm isDir es st)
  have hid: "HasPrefix nm ''.'' \<or> HasPrefix nm ''_'' \<longleftrightarrow> hiddenName nm" by (simp add: hiddenName_def)
  show ?case
  proof (cases "hiddenName nm")
    case True
    then show ?thesis using 4(1) [OF True 4(4,5)] hid by simp
  next
    case False
    note R = sameDiskD(4) [OF 4(4,5), of nm]
    let ?l = "if isDir then loadDir n d (q @ ''/'' @ nm) (fsDir @ ''/'' @ nm) st else loadFile d (fsDir @ ''/'' @ nm) (q @ ''/'' @ nm) st"
    let ?w = "if isDir then walkDir n env (eJoin env p nm) (fsDir @ ''/'' @ nm) st else addFile (eDisk env) (fsDir @ ''/'' @ nm) (eJoin env p nm) st"
    have eq: "?w = ?l"
      using 4(2) [OF False refl refl _ 4(4)] R sameDiskD(3) [OF 4(4) R] addFile_loadFile [of "eDisk env" "eJoin env p nm" d] by simp
    have "walkEntries n env p fsDir ((nm, isDir) # es) st = (case ?w of Inl e \<Rightarrow> Inl e | Inr st' \<Rightarrow> walkEntries n env p fsDir es st')"
      using False unfolding hid [symmetric] by (simp only: walkEntries.simps Let_def if_False)
    also have "\<dots> = (case ?l of Inl e \<Rightarrow> Inl e | Inr st' \<Rightarrow> loadEntries n d q fsDir es st')"
    proof (cases ?l)
      case (Inr st')
      from 4(3) [OF False refl refl Inr 4(4,5)] show ?thesis unfolding eq Inr by simp
    qed (simp only: eq sum.case)
    also have "\<dots> = loadEntries n d q fsDir ((nm, isDir) # es) st"
      using False by (simp only: loadEntries.simps Let_def if_False)
    finally show ?thesis .
  qed
qed simp_all

lemma walkPatterns_load:
  "sameDisk env d R \<Longrightarrow> \<forall>p \<in> set ps. R (resolveEmbedPath env dir p) p \<Longrightarrow>
   walkPatterns env dir ps st = loadPatterns (eFuel env) d ps st"
proof (induction ps arbitrary: st)
  case (Cons p ps)
  have R: "R (resolveEmbedPath env dir p) p" using Cons.prems(2) by simp
  let ?p = "resolveEmbedPath env dir p"
  show ?case
    using Cons.IH [OF Cons.prems(1)] Cons.prems(2) sameDiskD(1,3) [OF Cons.prems(1) R] walk_load(1) [OF Cons.prems(1) R]
      addFile_loadFile [of "eDisk env" ?p d p]
    by (simp add: Let_def split: option.splits sum.splits)
qed simp

lemma sort_unique:
  assumes "mset xs = mset ys" "sortedKeys xs" "sortedKeys ys" "distinct (map fileKey xs)"
  shows "xs = ys"
proof -
  have "mset (map fileKey xs) = mset (map fileKey ys)" using assms(1) by (simp only: mset_map)
  then have "map fileKey xs = map fileKey ys"
    using assms(2,3) unfolding sortedKeys_def by (metis properties_for_sort)
  moreover have "inj_on fileKey (set xs \<union> set ys)"
    using assms(1,4) by (simp add: distinct_map mset_eq_setD [OF assms(1)])
  ultimately show ?thesis by (simp add: inj_on_map_eq_map)
qed

text \<open>What \<^verbatim>\<open>sort.Slice\<close> promises.\<close>

definition sorts :: "((embedFile \<Rightarrow> embedFile \<Rightarrow> bool) \<Rightarrow> embedFile list \<Rightarrow> embedFile list) \<Rightarrow> bool" where
  "sorts srt \<longleftrightarrow> (\<forall>fs. mset (srt less_file fs) = mset fs \<and> sorted_wrt (\<lambda>a b. \<not> less_file b a) (srt less_file fs))"

lemma loadEmbedFS_Load:
  assumes same: "sameDisk env d R" "\<forall>p \<in> set pats. R (resolveEmbedPath env dir p) p"
    and srt: "sorts (eSort env)" and pats: "\<forall>p \<in> set pats. ValidPath p \<and> p \<noteq> ''.''" and sane: "saneDisk d"
  shows "loadEmbedFS env dir pats = map_sum id (\<lambda>fs. filesValue (files fs)) (Load (eFuel env) d pats)"
proof (cases "loadPatterns (eFuel env) d pats ([], {})")
  case (Inl e)
  then show ?thesis by (simp add: loadEmbedFS_def Load_def walkPatterns_load [OF same])
next
  case (Inr st)
  obtain raw seen where st: "st = (raw, seen)" by (cases st)
  let ?N = "{path. \<exists>p \<in> set pats. embedded d p path}"
  have "loaded d ([], {}) {}" by (simp add: loaded_def)
  from loadPatterns_loaded [OF Inr this] have raw: "loaded d (raw, seen) ?N" unfolding st by simp
  have "\<forall>nm \<in> ?N. ValidPath nm \<and> nm \<noteq> ''.''" using embedded_valid [OF sane] pats by blast
  from conjunct1 [OF loaded_keys [OF raw this sane]]
  have keys: "distinct (map fileKey (addDirEntries raw))" .
  have s: "mset (eSort env less_file (addDirEntries raw)) = mset (addDirEntries raw)"
    "sortedKeys (eSort env less_file (addDirEntries raw))"
    using srt by (simp_all add: sorts_def sortedKeys_def sorted_map less_file_key not_less)
  have "mset (map fileKey (eSort env less_file (addDirEntries raw))) = mset (map fileKey (addDirEntries raw))"
    by (simp only: mset_map s(1))
  from mset_eq_imp_distinct_iff [OF this] keys
  have "distinct (map fileKey (eSort env less_file (addDirEntries raw)))" by simp
  then have "eSort env less_file (addDirEntries raw) = insertionSortFiles (addDirEntries raw)"
    using s insertionSort_sorted by (intro sort_unique) simp_all
  moreover have "raw @ snd (fold (\<lambda>f. embedDirsOf (fst (splitEmbedName (file_name f)))) raw ({}, [])) = addDirEntries raw"
    by (simp add: addDirEntries_def embedDirsOf_addDirsOf [abs_def] splitEmbedName_split dirOf_def)
  ultimately show ?thesis
    using Inr st by (simp add: loadEmbedFS_def Load_def walkPatterns_load [OF same] embedLess_less Let_def)
qed


section \<open>Properties\<close>

text \<open>An environment for the examples: the disk \<open>demoDisk\<close>, seen from its parent as \<^verbatim>\<open>./\<close>.\<close>

definition demoEnv :: "nat evalEnv" where
  "demoEnv = \<lparr>eFloat = \<lparr>foOfInt = nat, foToInt = (\<lambda>n. Some (int n)), foQuoInts = (\<lambda>a b. nat (a div b)), foBin = (\<lambda>_ a b. Some (a + b)),
       foSign = int, foTrunc64 = (\<lambda>n. Some (int n)), foRound64 = id, foExact64 = (\<lambda>n. Some (int n))\<rparr>,
     eDisk = \<lparr>dStat = (\<lambda>p. if take 2 p = ''./'' then dStat demoDisk (drop 2 p) else None),
       dReadDir = (\<lambda>p. if take 2 p = ''./'' then dReadDir demoDisk (drop 2 p) else None),
       dReadFile = (\<lambda>p. if take 2 p = ''./'' then dReadFile demoDisk (drop 2 p) else None)\<rparr>,
     eGetwd = None, eJoin = (\<lambda>a b. a @ ''/'' @ b), eSort = (\<lambda>_. insertionSortFiles), eSprintf = (\<lambda>s _. s),
     eMarshal = (\<lambda>_. None), eDecode = (\<lambda>_. None), eFuel = 2\<rparr>"

text \<open>
  C26: converting an integer constant to an integer type gives the value of the type's range that
  is congruent to it modulo the type's size, for each of the thirteen integer types.
\<close>

theorem Convert_integer_bounds:
  assumes "basicInts t = Some (bits, sgnd)"
  shows "\<exists>m. Convert fo (IntV n) t = Inr (IntV m) \<and> m mod 2 ^ bits = n mod 2 ^ bits \<and>
     (if sgnd then - (2 ^ (bits - 1)) \<le> m \<and> m < 2 ^ (bits - 1) else 0 \<le> m \<and> m < 2 ^ bits)"
proof -
  obtain k where k: "bits = Suc k" using basicInts_bits [OF assms] by (cases bits) auto
  have "take_bit bits (wrap bits sgnd n) = take_bit bits n"
    by (simp add: wrap_def k take_bit_signed_take_bit)
  then have "wrap bits sgnd n mod 2 ^ bits = n mod 2 ^ bits" by (simp add: take_bit_eq_mod)
  moreover have "if sgnd then - (2 ^ (bits - 1)) \<le> wrap bits sgnd n \<and> wrap bits sgnd n < 2 ^ (bits - 1)
      else 0 \<le> wrap bits sgnd n \<and> wrap bits sgnd n < 2 ^ bits"
    using signed_take_bit_int_greater_eq_minus_exp [of k n] signed_take_bit_int_less_exp [of k n] take_bit_int_less_exp [of "Suc k" n]
    by (simp add: wrap_def k)
  ultimately show ?thesis using Convert_int [OF assms, of fo n] by blast
qed

theorem Convert_integer_bounds_witness:
  "\<exists>m. Convert (eFloat demoEnv) (IntV 200) ''int8'' = Inr (IntV m) \<and> m mod 2 ^ 8 = (200::int) mod 2 ^ 8 \<and> - (2 ^ 7) \<le> m \<and> m < 2 ^ 7"
  using Convert_integer_bounds [of "''int8''" 8 True "eFloat demoEnv" 200] by (simp add: basicInts_def)

text \<open>
  C17: at type \<^verbatim>\<open>int\<close> or \<^verbatim>\<open>int64\<close> the interpreter's operators are Go's 64-bit machine operators: sums,
  differences and products wrap around, division truncates, and a division by zero is reported
  instead of evaluated.
\<close>

theorem BinaryOp_is_machine:
  assumes "basicInts t = Some (64, True)" and "op \<in> {ADD, SUB, MUL, QUO, REM, BAND, BOR, BXOR, AND_NOT}"
  shows "BinaryOp fo (IntV (sint a)) op (IntV (sint b)) t =
     (case goInt64Op op a b of None \<Rightarrow> Inl (Fail ''division by zero'') | Some w \<Rightarrow> Inr (IntV (sint w)))"
  by (rule BinaryOp_int64 [OF assms])

theorem BinaryOp_is_machine_witness:
  "BinaryOp (eFloat demoEnv) (IntV (sint (0x7FFFFFFFFFFFFFFF :: int64))) ADD (IntV (sint (1 :: int64))) ''int''
     = Inr (IntV (- (2 ^ 63)))"
  using BinaryOp_is_machine [of "''int''" ADD "eFloat demoEnv" "0x7FFFFFFFFFFFFFFF" 1]
  by (simp add: basicInts_def)

text \<open>
  \<open>HasNative\<close>, by which callers decide whether to evaluate a call at all, names exactly the
  functions \<open>NativeCall\<close> handles, whatever the arguments.
\<close>

theorem HasNative_agrees:
  "HasNative pkg fn \<longleftrightarrow> NativeCall env dir pkg fn args \<noteq> Inr None"
  using NativeCall_handled [of env dir pkg fn args] by blast

text \<open>
  C6: \<^verbatim>\<open>embed.Load\<close> folded by the compiler is \<^verbatim>\<open>embed.Load\<close> run by the program: where the disk shows the
  compiler, at the resolved paths, what it shows the program, and \<^verbatim>\<open>sort.Slice\<close> sorts, the constant
  holds exactly the files of the file system the program builds, in the same order, and the two
  fail alike.
\<close>

theorem loadEmbedFS_refines_Load:
  assumes "sameDisk env d R" "\<forall>p \<in> set pats. R (resolveEmbedPath env dir p) p" "sorts (eSort env)"
    "\<forall>p \<in> set pats. ValidPath p \<and> p \<noteq> ''.''" "saneDisk d"
  shows "loadEmbedFS env dir pats = map_sum id (\<lambda>fs. filesValue (files fs)) (Load (eFuel env) d pats)"
  by (rule loadEmbedFS_Load [OF assms])

lemma insertionSort_sorts: "sorts (\<lambda>_. insertionSortFiles)"
  using insertionSort_sorted by (simp add: sorts_def sortedKeys_def sorted_map less_file_key not_less)

theorem loadEmbedFS_refines_Load_witness:
  "loadEmbedFS demoEnv [] [''a''] = map_sum id (\<lambda>fs. filesValue (files fs)) (Load 2 demoDisk [''a''])"
proof -
  have "sameDisk demoEnv demoDisk (\<lambda>p q. p = ''./'' @ q)" by (simp add: sameDisk_def demoEnv_def)
  moreover have "\<forall>p \<in> set [''a'']. ValidPath p \<and> p \<noteq> ''.''" by code_simp
  moreover have "resolveEmbedPath demoEnv [] ''a'' = ''./'' @ ''a''"
    by (simp add: resolveEmbedPath_def IsAbs_def HasPrefix_def demoEnv_def)
  ultimately show ?thesis
    using loadEmbedFS_refines_Load [of demoEnv demoDisk "\<lambda>p q. p = ''./'' @ q" "[''a'']" "[]"] demoDisk_sane insertionSort_sorts
    by (simp add: demoEnv_def)
qed

text \<open>
  The bounds check of \<^verbatim>\<open>embed.ReadFileRange\<close> adds offset and length in 64 bits: where the sum
  wraps around it passes the check, and the compiler panics on the slice instead of reporting a
  range error.
\<close>

theorem ReadFileRange_overflow_panics:
  assumes "dReadFile (eDisk env) (resolveEmbedPath env dir path) = Some s"
  shows "NativeCall env dir ''embed'' ''ReadFileRange'' [Const (StringV path), Const (IntV (2 ^ 62)), Const (IntV (2 ^ 62))] = Inl GoPanic"
  using assms
  by (simp add: NativeCall_def qualName_def callReadFileRange_def stringArg_def intArg_def arg_def bindE_def ScalarString_def
      ScalarInt_def Scalar_def Native_def isInt64_def int64_def slice_def)

theorem ReadFileRange_overflow_panics_witness:
  "NativeCall demoEnv [] ''embed'' ''ReadFileRange'' [Const (StringV ''a/x''), Const (IntV (2 ^ 62)), Const (IntV (2 ^ 62))] = Inl GoPanic"
  by (rule ReadFileRange_overflow_panics [where s = "''data''"])
    (simp add: resolveEmbedPath_def IsAbs_def HasPrefix_def demoEnv_def demoDisk_def)

text \<open>
  Converting an integer to a string first truncates it to 32 bits, so that an integer that is
  no code point can come out as a letter, where Go's conversion gives U+FFFD.
\<close>

theorem Convert_string_truncates:
  "Convert fo (IntV (2 ^ 32 + 65)) ''string'' = Inr (StringV ''A'') \<and>
   Convert fo (IntV (2 ^ 31)) ''string'' = Inr (StringV [CHR 0xEF, CHR 0xBF, CHR 0xBD])"
proof -
  have "Convert fo (IntV n) ''string'' = Inr (StringV (encodeRune (rune (int64 n))))" for n
    by (simp add: Convert_def basicInts_def IsFloatType_def)
  moreover have "encodeRune (rune (int64 (2 ^ 32 + 65))) = ''A''" "encodeRune (rune (int64 (2 ^ 31))) = [CHR 0xEF, CHR 0xBF, CHR 0xBD]"
    by code_simp+
  ultimately show ?thesis by simp
qed

end
