(* ===== verification/Branches.thy ===== *)
theory Branches
  imports Control "HOL-Library.Sublist"
begin

text \<open>
  \<^verbatim>\<open>src/src/cmd/compile/internal/syntax/branches.go\<close>: the parser's check of labels and branch
  statements in a function body, which also fills in the targets of break and continue.

  Pointers are modelled by what tells the nodes apart: a block is known by a number, a label
  statement by the node with its address, a goto by the number of the goto. The chain of
  parents of a block is the list of the enclosing blocks, innermost first. The target of a goto,
  which no other pass reads, and the positions in the diagnostics are left out. The error
  handler collects the diagnostics; a panic of the code is a flag, and the result is then
  \<open>None\<close>. Go visits \<^verbatim>\<open>ls.labels\<close> in any order at the end; the model takes the order of declaration.
\<close>

section \<open>State\<close>

datatype branchError =
    LabelRedefined string
  | GotoJumpsOver string expr
  | GotoJumpsInto string
  | LabelUndefined string
  | LabelUnused string
  | BreakOutside
  | ContinueOutside
  | FallthroughMisplaced
  | FallthroughTypeSwitch
  | FallthroughFinal
  | InvalidBreak string
  | BreakUndefined string
  | InvalidContinue string
  | ContinueUndefined string

type_synonym labelStmt = "addr \<times> string \<times> stmt"

record label =
  lParent :: nat
  lStmt :: labelStmt
  lUsed :: bool

record labelBlock =
  bId :: nat
  bLabel :: "labelStmt option"

record targets =
  breaks :: "stmt option"
  continues :: "stmt option"
  caseIndex :: int

text \<open>The state: the labels, the diagnostics, how many blocks and gotos there were, and the local
  variables of the block being checked.\<close>

record labelScope =
  lsLabels :: "label list"
  lsErrs :: "branchError list"
  lsPanic :: bool
  lsBlocks :: nat
  lsGotos :: nat
  varName :: "expr option"
  fwdGotos :: "(nat \<times> string) list"
  badGotos :: "(nat \<times> string) list"

definition branchErrorf :: "branchError \<Rightarrow> labelScope \<Rightarrow> labelScope" where
  "branchErrorf e st = st\<lparr>lsErrs := lsErrs st @ [e]\<rparr>"

definition labelName :: "label \<Rightarrow> string" where
  "labelName l = fst (snd (lStmt l))"

definition findLabel :: "string \<Rightarrow> labelScope \<Rightarrow> label option" where
  "findLabel n st = find (\<lambda>l. labelName l = n) (lsLabels st)"

definition markUsed :: "string \<Rightarrow> labelScope \<Rightarrow> labelScope" where
  "markUsed n st = st\<lparr>lsLabels := map (\<lambda>l. if labelName l = n then l\<lparr>lUsed := True\<rparr> else l) (lsLabels st)\<rparr>"

section \<open>Labels\<close>

definition declareLabel :: "labelBlock list \<Rightarrow> labelStmt \<Rightarrow> labelScope \<Rightarrow> labelScope" where
  "declareLabel b s st =
     (case findLabel (fst (snd s)) st of
        Some _ \<Rightarrow> branchErrorf (LabelRedefined (fst (snd s))) st
      | None \<Rightarrow> st\<lparr>lsLabels := lsLabels st @ [\<lparr>lParent = bId (hd b), lStmt = s, lUsed = False\<rparr>]\<rparr>)"

definition gotoTarget :: "labelBlock list \<Rightarrow> string \<Rightarrow> labelScope \<Rightarrow> labelStmt option \<times> labelScope" where
  "gotoTarget b n st =
     (case findLabel n st of
        None \<Rightarrow> (None, st)
      | Some l \<Rightarrow> (if list_ex (\<lambda>p. bId p = lParent l) b then Some (lStmt l) else None, markUsed n st))"

text \<open>The target is \<open>None\<close> when the label is not defined, \<open>Some None\<close> is the invalid target.\<close>

definition enclosingTarget ::
  "labelBlock list \<Rightarrow> string \<Rightarrow> labelScope \<Rightarrow> labelStmt option option \<times> labelScope" where
  "enclosingTarget b n st =
     (case findLabel n st of
        None \<Rightarrow> (None, st)
      | Some l \<Rightarrow> (Some (if list_ex (\<lambda>p. bLabel p = Some (lStmt l)) b then Some (lStmt l) else None), markUsed n st))"

section \<open>Statements\<close>

definition recordVarDecl :: "expr \<Rightarrow> labelScope \<Rightarrow> labelScope" where
  "recordVarDecl x st = st\<lparr>varName := Some x, badGotos := fwdGotos st\<rparr>"

text \<open>Resolving the forward gotos to a label just declared.\<close>

definition jumpsOverVarDecl :: "labelScope \<Rightarrow> nat \<times> string \<Rightarrow> bool" where
  "jumpsOverVarDecl st g = (varName st \<noteq> None \<and> g \<in> set (badGotos st))"

definition resolveGotos :: "string \<Rightarrow> labelScope \<Rightarrow> labelScope" where
  "resolveGotos n st =
     (let hits = filter (\<lambda>g. snd g = n) (fwdGotos st);
          st1 = (if hits = [] then st else markUsed n st);
          st2 = fold (\<lambda>g st. if jumpsOverVarDecl st g then branchErrorf (GotoJumpsOver n (the (varName st))) st else st) hits st1
      in st2\<lparr>fwdGotos := filter (\<lambda>g. snd g \<noteq> n) (fwdGotos st2)\<rparr>)"

fun firstVarNames :: "decl list \<Rightarrow> string list option" where
  "firstVarNames [] = None"
| "firstVarNames (VarDecl ns _ _ # ds) = Some ns"
| "firstVarNames (_ # ds) = firstVarNames ds"

definition declBranches :: "decl list \<Rightarrow> labelScope \<Rightarrow> labelScope" where
  "declBranches ds st =
     (case firstVarNames ds of
        None \<Rightarrow> st
      | Some [] \<Rightarrow> st\<lparr>lsPanic := True\<rparr>
      | Some (n # _) \<Rightarrow> recordVarDecl (Name n) st)"

fun stmtAddr :: "stmt \<Rightarrow> addr option" where
  "stmtAddr (ForStmt a _ _ _ _) = Some a"
| "stmtAddr (SwitchStmt a _ _ _) = Some a"
| "stmtAddr (SelectStmt a _) = Some a"
| "stmtAddr _ = None"

fun isTypeSwitchGuard :: "expr option \<Rightarrow> bool" where
  "isTypeSwitchGuard (Some (TypeSwitchGuard _ _)) = True"
| "isTypeSwitchGuard _ = False"

text \<open>Why a fallthrough is refused, if it is; \<open>isLast\<close> tells whether it ends the statement list.\<close>

definition fallthroughError :: "targets \<Rightarrow> bool \<Rightarrow> branchError option" where
  "fallthroughError ctxt isLast =
     (case breaks ctxt of
        Some (SwitchStmt _ _ tag cs) \<Rightarrow>
          (if isTypeSwitchGuard tag then Some FallthroughTypeSwitch
           else if caseIndex ctxt < 0 \<or> \<not> isLast then Some FallthroughMisplaced
           else if caseIndex ctxt + 1 = int (length cs) then Some FallthroughFinal
           else None)
      | _ \<Rightarrow> Some FallthroughMisplaced)"

definition orErrorf :: "branchError \<Rightarrow> stmt option \<Rightarrow> labelScope \<Rightarrow> addr option \<times> labelScope" where
  "orErrorf e t st = (case t of Some s \<Rightarrow> (stmtAddr s, st) | None \<Rightarrow> (None, branchErrorf e st))"

definition unlabeledBranch :: "targets \<Rightarrow> bool \<Rightarrow> branchTok \<Rightarrow> labelScope \<Rightarrow> addr option \<times> labelScope" where
  "unlabeledBranch ctxt isLast tok st =
     (case tok of
        Break \<Rightarrow> orErrorf BreakOutside (breaks ctxt) st
      | Continue \<Rightarrow> orErrorf ContinueOutside (continues ctxt) st
      | Fallthrough \<Rightarrow> (None, case fallthroughError ctxt isLast of None \<Rightarrow> st | Some e \<Rightarrow> branchErrorf e st)
      | Goto \<Rightarrow> (None, st\<lparr>lsPanic := True\<rparr>))"

fun isFor :: "stmt \<Rightarrow> bool" where
  "isFor (ForStmt _ _ _ _ _) = True"
| "isFor _ = False"

definition labeledTarget ::
  "branchError \<Rightarrow> branchError \<Rightarrow> (stmt \<Rightarrow> bool) \<Rightarrow> labelBlock list \<Rightarrow> string \<Rightarrow> labelScope \<Rightarrow> addr option \<times> labelScope" where
  "labeledTarget invalid undefd good b n st =
     (case enclosingTarget b n st of (t, st1) \<Rightarrow>
        case t of
          None \<Rightarrow> (None, branchErrorf undefd st1)
        | Some (Some (_, _, s)) \<Rightarrow> (if good s then (stmtAddr s, st1) else (None, branchErrorf invalid st1))
        | Some None \<Rightarrow> (None, branchErrorf invalid st1))"

definition labeledBranch :: "labelBlock list \<Rightarrow> branchTok \<Rightarrow> string \<Rightarrow> labelScope \<Rightarrow> addr option \<times> labelScope" where
  "labeledBranch b tok n st =
     (case tok of
        Break \<Rightarrow> labeledTarget (InvalidBreak n) (BreakUndefined n) (\<lambda>s. stmtAddr s \<noteq> None) b n st
      | Continue \<Rightarrow> labeledTarget (InvalidContinue n) (ContinueUndefined n) isFor b n st
      | Goto \<Rightarrow> (None, case gotoTarget b n st of
            (Some _, st1) \<Rightarrow> st1
          | (None, st1) \<Rightarrow> st1\<lparr>lsGotos := lsGotos st1 + 1, fwdGotos := fwdGotos st1 @ [(lsGotos st1, n)]\<rparr>)
      | Fallthrough \<Rightarrow> (None, st\<lparr>lsPanic := True\<rparr>))"

section \<open>Blocks\<close>

fun trimTrailingEmptyStmts :: "stmt list \<Rightarrow> stmt list" where
  "trimTrailingEmptyStmts [] = []"
| "trimTrailingEmptyStmts (s # ss) =
     (case trimTrailingEmptyStmts ss of [] \<Rightarrow> (if s = EmptyStmt then [] else [s]) | ts \<Rightarrow> s # ts)"

text \<open>\<open>inBlock\<close> runs \<open>f\<close> in a new block below \<open>parent\<close>, with local variables of its own; the forward
  gotos it leaves are added to those of the enclosing block.\<close>

definition enterBlock :: "labelScope \<Rightarrow> labelScope" where
  "enterBlock st = st\<lparr>lsBlocks := lsBlocks st + 1, varName := None, fwdGotos := [], badGotos := []\<rparr>"

definition leaveBlock :: "labelScope \<Rightarrow> labelScope \<Rightarrow> labelScope" where
  "leaveBlock st st1 = st1\<lparr>varName := varName st, fwdGotos := fwdGotos st @ fwdGotos st1, badGotos := badGotos st\<rparr>"

definition inBlock ::
  "labelBlock list \<Rightarrow> labelStmt option \<Rightarrow> (labelBlock list \<Rightarrow> labelScope \<Rightarrow> 'a \<times> labelScope) \<Rightarrow> labelScope \<Rightarrow> 'a \<times> labelScope" where
  "inBlock parent lstmt f st =
     (case f (\<lparr>bId = lsBlocks st, bLabel = lstmt\<rparr> # parent) (enterBlock st) of
        (x, st1) \<Rightarrow> (x, leaveBlock st st1))"

abbreviation nested :: "targets \<Rightarrow> targets" where
  "nested ctxt \<equiv> ctxt\<lparr>caseIndex := -1\<rparr>"

text \<open>
  \<open>listBranches\<close> is the loop over the statements of a block, \<open>stmtBranches\<close> the switch in it.
  The loop of the code runs over the list without its trailing empty statements; these change
  nothing, so the model goes on over them, and a statement is last when nothing but empty
  statements follow.
\<close>

function (sequential) listBranches :: "labelBlock list \<Rightarrow> targets \<Rightarrow> stmt list \<Rightarrow> labelScope \<Rightarrow> stmt list \<times> labelScope"
and stmtBranches :: "labelBlock list \<Rightarrow> targets \<Rightarrow> bool \<Rightarrow> labelStmt option \<Rightarrow> stmt \<Rightarrow> labelScope \<Rightarrow> stmt \<times> labelScope"
and caseBranches :: "labelBlock list \<Rightarrow> targets \<Rightarrow> labelStmt option \<Rightarrow> int \<Rightarrow> caseClause list \<Rightarrow> labelScope \<Rightarrow> caseClause list \<times> labelScope"
and commBranches :: "labelBlock list \<Rightarrow> targets \<Rightarrow> labelStmt option \<Rightarrow> commClause list \<Rightarrow> labelScope \<Rightarrow> commClause list \<times> labelScope"
where
  "listBranches b ctxt [] st = ([], st)"
| "listBranches b ctxt (s # ss) st =
     (case stmtBranches b ctxt (trimTrailingEmptyStmts ss = []) None s st of (s', st1) \<Rightarrow>
      case listBranches b ctxt ss st1 of (ss', st2) \<Rightarrow> (s' # ss', st2))"
| "stmtBranches b ctxt isLast lstmt (DeclStmt ds) st = (DeclStmt ds, declBranches ds st)"
| "stmtBranches b ctxt isLast lstmt (LabeledStmt a n s) st =
     (let blank = (n = ''_'');
          st1 = (if blank then st else resolveGotos n (declareLabel b (a, n, s) st))
      in case stmtBranches b ctxt isLast (if blank then lstmt else Some (a, n, s)) s st1 of
           (s', st2) \<Rightarrow> (LabeledStmt a n s', st2))"
| "stmtBranches b ctxt isLast lstmt (BranchStmt tok None t) st =
     (case unlabeledBranch ctxt isLast tok st of (t', st1) \<Rightarrow> (BranchStmt tok None t', st1))"
| "stmtBranches b ctxt isLast lstmt (BranchStmt tok (Some n) t) st =
     (case labeledBranch b tok n st of (t', st1) \<Rightarrow> (BranchStmt tok (Some n) t', st1))"
| "stmtBranches b ctxt isLast lstmt (AssignStmt op l r) st =
     (AssignStmt op l r, if op = Some Def then recordVarDecl l st else st)"
| "stmtBranches b ctxt isLast lstmt (BlockS (BlockStmt a ss)) st =
     (case inBlock b lstmt (\<lambda>b' st'. listBranches b' (nested ctxt) ss st') st of
        (ss', st1) \<Rightarrow> (BlockS (BlockStmt a ss'), st1))"
| "stmtBranches b ctxt isLast lstmt (WithStmt x v (BlockStmt a ss)) st =
     (case inBlock b lstmt (\<lambda>b' st'. listBranches b' (nested ctxt) ss st') st of
        (ss', st1) \<Rightarrow> (WithStmt x v (BlockStmt a ss'), st1))"
| "stmtBranches b ctxt isLast lstmt (PostfixIfStmt s c) st =
     (case inBlock b lstmt (\<lambda>b' st'. stmtBranches b' (nested ctxt) True None s st') st of
        (s', st1) \<Rightarrow> (PostfixIfStmt s' c, st1))"
| "stmtBranches b ctxt isLast lstmt (IfStmt i c (BlockStmt a ss) e) st =
     (case inBlock b lstmt (\<lambda>b' st'. listBranches b' (nested ctxt) ss st') st of (ss', st1) \<Rightarrow>
      case e of
        None \<Rightarrow> (IfStmt i c (BlockStmt a ss') None, st1)
      | Some s \<Rightarrow>
          (case inBlock b lstmt (\<lambda>b' st'. stmtBranches b' (nested ctxt) True None s st') st1 of
             (s', st2) \<Rightarrow> (IfStmt i c (BlockStmt a ss') (Some s'), st2)))"
| "stmtBranches b ctxt isLast lstmt (ForStmt f i c p (BlockStmt a ss)) st =
     (let s = ForStmt f i c p (BlockStmt a ss) in
      case inBlock b lstmt (\<lambda>b' st'. listBranches b' \<lparr>breaks = Some s, continues = Some s, caseIndex = -1\<rparr> ss st') st of
        (ss', st1) \<Rightarrow> (ForStmt f i c p (BlockStmt a ss'), st1))"
| "stmtBranches b ctxt isLast lstmt (SwitchStmt a i t cs) st =
     (case caseBranches b \<lparr>breaks = Some (SwitchStmt a i t cs), continues = continues ctxt, caseIndex = -1\<rparr> lstmt 0 cs st of
        (cs', st1) \<Rightarrow> (SwitchStmt a i t cs', st1))"
| "stmtBranches b ctxt isLast lstmt (SelectStmt a cs) st =
     (case commBranches b \<lparr>breaks = Some (SelectStmt a cs), continues = continues ctxt, caseIndex = -1\<rparr> lstmt cs st of
        (cs', st1) \<Rightarrow> (SelectStmt a cs', st1))"
| "stmtBranches b ctxt isLast lstmt s st = (s, st)"
| "caseBranches b inner lstmt k [] st = ([], st)"
| "caseBranches b inner lstmt k (CaseClause c ss # cs) st =
     (case inBlock b lstmt (\<lambda>b' st'. listBranches b' (inner\<lparr>caseIndex := k\<rparr>) ss st') st of (ss', st1) \<Rightarrow>
      case caseBranches b inner lstmt (k + 1) cs st1 of (cs', st2) \<Rightarrow> (CaseClause c ss' # cs', st2))"
| "commBranches b inner lstmt [] st = ([], st)"
| "commBranches b inner lstmt (CommClause c ss # cs) st =
     (case inBlock b lstmt (\<lambda>b' st'. listBranches b' inner ss st') st of (ss', st1) \<Rightarrow>
      case commBranches b inner lstmt cs st1 of (cs', st2) \<Rightarrow> (CommClause c ss' # cs', st2))"
  by pat_completeness auto
termination
  by (relation "measure (case_sum (case_sum (\<lambda>(_, _, ss, _). size_list size ss) (\<lambda>(_, _, _, _, s, _). size s))
        (case_sum (\<lambda>(_, _, _, _, cs, _). size_list size cs) (\<lambda>(_, _, _, cs, _). size_list size cs)))") auto

section \<open>The check of a body\<close>

definition reportForward :: "nat \<times> string \<Rightarrow> labelScope \<Rightarrow> labelScope" where
  "reportForward g st =
     (case findLabel (snd g) st of
        Some _ \<Rightarrow> branchErrorf (GotoJumpsInto (snd g)) (markUsed (snd g) st)
      | None \<Rightarrow> branchErrorf (LabelUndefined (snd g)) st)"

definition reportUnused :: "label \<Rightarrow> labelScope \<Rightarrow> labelScope" where
  "reportUnused l st = (if lUsed l then st else branchErrorf (LabelUnused (labelName l)) st)"

definition newScope :: labelScope where
  "newScope = \<lparr>lsLabels = [], lsErrs = [], lsPanic = False, lsBlocks = 0, lsGotos = 0,
     varName = None, fwdGotos = [], badGotos = []\<rparr>"

definition bodyBranches :: "stmt list \<Rightarrow> stmt list \<times> labelScope" where
  "bodyBranches ss =
     inBlock [] None (\<lambda>b. listBranches b \<lparr>breaks = None, continues = None, caseIndex = 0\<rparr> ss) newScope"

definition finishBranches :: "labelScope \<Rightarrow> labelScope" where
  "finishBranches st = (let st1 = fold reportForward (fwdGotos st) st in fold reportUnused (lsLabels st1) st1)"

definition checkBranches :: "blockStmt option \<Rightarrow> (blockStmt option \<times> branchError list) option" where
  "checkBranches body =
     (case body of
        None \<Rightarrow> Some (None, [])
      | Some (BlockStmt a ss) \<Rightarrow>
          (case bodyBranches ss of (ss', st) \<Rightarrow>
             let st1 = finishBranches st in if lsPanic st1 then None else Some (Some (BlockStmt a ss'), lsErrs st1)))"


section \<open>The state only grows\<close>

definition labelDecls :: "labelScope \<Rightarrow> (nat \<times> labelStmt) list" where
  "labelDecls st = map (\<lambda>l. (lParent l, lStmt l)) (lsLabels st)"

definition usedNames :: "labelScope \<Rightarrow> string set" where
  "usedNames st = labelName ` {l \<in> set (lsLabels st). lUsed l}"

definition branchBelow :: "labelScope \<Rightarrow> labelScope \<Rightarrow> bool" where
  "branchBelow st st' \<longleftrightarrow> prefix (lsErrs st) (lsErrs st') \<and> (lsPanic st \<longrightarrow> lsPanic st') \<and>
     lsBlocks st \<le> lsBlocks st' \<and> prefix (labelDecls st) (labelDecls st') \<and> usedNames st \<subseteq> usedNames st'"

definition noComplaint :: "labelScope \<Rightarrow> bool" where
  "noComplaint st \<longleftrightarrow> lsErrs st = [] \<and> \<not> lsPanic st"

lemma branchBelow_refl [simp]: "branchBelow st st"
  by (simp add: branchBelow_def)

lemma branchBelow_trans [trans]: "branchBelow st st1 \<Longrightarrow> branchBelow st1 st2 \<Longrightarrow> branchBelow st st2"
  by (auto simp: branchBelow_def intro: prefix_order.trans)

lemma noComplaint_below: "branchBelow st st' \<Longrightarrow> noComplaint st' \<Longrightarrow> noComplaint st"
  by (auto simp: branchBelow_def noComplaint_def)

lemma branchErrorf_below [simp]: "branchBelow st (branchErrorf e st)"
  by (simp add: branchBelow_def branchErrorf_def labelDecls_def usedNames_def)

lemma markUsed_decls [simp]: "labelDecls (markUsed n st) = labelDecls st"
  by (simp add: markUsed_def labelDecls_def)

lemma markUsed_names: "usedNames (markUsed n st) = usedNames st \<union> ({n} \<inter> labelName ` set (lsLabels st))"
proof -
  define g where "g = (\<lambda>l. if labelName l = n then l\<lparr>lUsed := True\<rparr> else l)"
  have names: "labelName (g l) = labelName l" and used: "lUsed (g l) \<longleftrightarrow> lUsed l \<or> labelName l = n" for l
    by (simp_all add: g_def labelName_def)
  have "usedNames (markUsed n st) = labelName ` {l \<in> g ` set (lsLabels st). lUsed l}"
    by (simp add: markUsed_def g_def usedNames_def)
  also have "{l \<in> g ` set (lsLabels st). lUsed l} = g ` {l \<in> set (lsLabels st). lUsed l \<or> labelName l = n}"
    using used by auto
  also have "labelName ` \<dots> = usedNames st \<union> ({n} \<inter> labelName ` set (lsLabels st))"
    by (auto simp: image_image names usedNames_def)
  finally show ?thesis .
qed

lemma markUsed_below [simp]: "branchBelow st (markUsed n st)"
  by (simp add: branchBelow_def markUsed_names) (simp add: markUsed_def)

lemma locals_below [simp]:
  "branchBelow st (varName_update f st) = True" "branchBelow st (fwdGotos_update g st) = True"
  "branchBelow st (badGotos_update g st) = True" "branchBelow st (lsGotos_update h st) = True"
  "branchBelow st (st\<lparr>lsPanic := True\<rparr>) = True"
  by (simp_all add: branchBelow_def labelDecls_def usedNames_def)

lemma declareLabel_below: "branchBelow st (declareLabel b s st)"
  by (auto simp: declareLabel_def branchBelow_def labelDecls_def usedNames_def branchErrorf_def split: option.split)

lemma fold_below: "(\<And>x st. branchBelow st (f x st)) \<Longrightarrow> branchBelow st (fold f xs st)"
  by (induction xs arbitrary: st) (auto intro: branchBelow_trans)

lemma resolveGotos_below: "branchBelow st (resolveGotos n st)"
proof -
  define err where "err = (\<lambda>g st. if jumpsOverVarDecl st g then branchErrorf (GotoJumpsOver n (the (varName st))) st else st)"
  define hits where "hits = filter (\<lambda>g. snd g = n) (fwdGotos st)"
  have "branchBelow st (fold err hits (if hits = [] then st else markUsed n st))"
    by (rule branchBelow_trans [OF _ fold_below]) (simp_all add: err_def)
  then show ?thesis
    by (rule branchBelow_trans) (simp add: resolveGotos_def Let_def err_def hits_def)
qed

lemma enclosingTarget_below: "branchBelow st (snd (enclosingTarget b n st))"
  by (simp add: enclosingTarget_def split: option.split)

lemma gotoTarget_below: "branchBelow st (snd (gotoTarget b n st))"
  by (simp add: gotoTarget_def split: option.split)

lemma labeledTarget_below: "branchBelow st (snd (labeledTarget e1 e2 g b n st))"
  using enclosingTarget_below [of st b n]
  by (auto simp: labeledTarget_def split: prod.splits option.splits intro: branchBelow_trans)

lemma labeledBranch_below: "branchBelow st (snd (labeledBranch b tok n st))"
  using gotoTarget_below [of st b n]
  by (auto simp: labeledBranch_def labeledTarget_below split: branchTok.split option.splits prod.splits)
    (erule branchBelow_trans, simp add: branchBelow_def labelDecls_def usedNames_def)

lemma unlabeledBranch_below: "branchBelow st (snd (unlabeledBranch ctxt isLast tok st))"
  by (simp add: unlabeledBranch_def orErrorf_def split: branchTok.split option.split)

lemma declBranches_below: "branchBelow st (declBranches ds st)"
  by (auto simp: declBranches_def recordVarDecl_def split: option.split list.split)
    (simp add: branchBelow_def labelDecls_def usedNames_def)

lemma recordVarDecl_below [simp]: "branchBelow st (recordVarDecl x st)"
  by (simp add: branchBelow_def recordVarDecl_def labelDecls_def usedNames_def)

lemma enterBlock_below: "branchBelow st (enterBlock st)"
  by (simp add: enterBlock_def branchBelow_def labelDecls_def usedNames_def)

lemma leaveBlock_below: "branchBelow (enterBlock st) st1 \<Longrightarrow> branchBelow st (leaveBlock st st1)"
  by (auto simp: leaveBlock_def enterBlock_def branchBelow_def labelDecls_def usedNames_def)

text \<open>What holds between the states before and after every step of the check holds between those
  before and after the check of a statement.\<close>

locale branch_steps =
  fixes R :: "labelScope \<Rightarrow> labelScope \<Rightarrow> bool"
  assumes R_refl: "R st st"
    and R_trans: "R st st1 \<Longrightarrow> R st1 st2 \<Longrightarrow> R st st2"
    and R_declare: "R st (declareLabel b s st)"
    and R_resolve: "R st (resolveGotos n st)"
    and R_unlabeled: "R st (snd (unlabeledBranch ctxt isLast tok st))"
    and R_labeled: "R st (snd (labeledBranch b tok n st))"
    and R_decl: "R st (declBranches ds st)"
    and R_var: "R st (recordVarDecl x st)"
    and R_block: "R (enterBlock st) st1 \<Longrightarrow> R st (leaveBlock st st1)"
begin

lemma inBlock_R: "(\<And>b' st'. R st' (snd (f b' st'))) \<Longrightarrow> R st (snd (inBlock b lstmt f st))"
  by (simp add: inBlock_def case_prod_beta R_block)

lemma branches_R:
  "R st (snd (listBranches b ctxt ss st))"
  "R st (snd (stmtBranches b ctxt isLast lstmt s st))"
  "R st (snd (caseBranches b ctxt lstmt k cs st))"
  "R st (snd (commBranches b ctxt lstmt ms st))"
proof (induction b ctxt ss st and b ctxt isLast lstmt s st and b ctxt lstmt k cs st and b ctxt lstmt ms st
    rule: listBranches_stmtBranches_caseBranches_commBranches.induct)
  case (4 b ctxt isLast lstmt a n s st)
  have "R st (if n = ''_'' then st else resolveGotos n (declareLabel b (a, n, s) st))"
    by (simp add: R_refl R_trans [OF R_declare R_resolve])
  then show ?case
    using 4 by (auto simp: Let_def case_prod_beta intro: R_trans)
next
  case (11 b ctxt isLast lstmt i c a ss e st)
  let ?st1 = "snd (inBlock b lstmt (\<lambda>b'. listBranches b' (nested ctxt) ss) st)"
  have "R st ?st1"
    by (rule inBlock_R) (rule 11)
  moreover have "R ?st1 (snd (inBlock b lstmt (\<lambda>b'. stmtBranches b' (nested ctxt) True None s) ?st1))"
    if "e = Some s" for s
    by (rule inBlock_R) (rule 11(2) [OF prod.collapse that])
  ultimately show ?case
    by (auto simp: case_prod_beta split: option.split intro: R_trans)
next
  case (17 b inner lstmt k c ss cs st)
  have "R st (snd (inBlock b lstmt (\<lambda>b'. listBranches b' (inner\<lparr>caseIndex := k\<rparr>) ss) st))"
    by (rule inBlock_R) (rule 17)
  then show ?case
    using 17 by (auto simp: case_prod_beta prod_eq_iff intro: R_trans)
next
  case (19 b inner lstmt c ss cs st)
  have "R st (snd (inBlock b lstmt (\<lambda>b'. listBranches b' inner ss) st))"
    by (rule inBlock_R) (rule 19)
  then show ?case
    using 19 by (auto simp: case_prod_beta prod_eq_iff intro: R_trans)
qed (auto simp: case_prod_beta prod_eq_iff Let_def R_refl R_decl R_unlabeled R_labeled R_var
    intro: R_trans inBlock_R)

end

interpretation bel: branch_steps branchBelow
  by unfold_locales (simp_all add: declareLabel_below resolveGotos_below unlabeledBranch_below labeledBranch_below
      declBranches_below leaveBlock_below branchBelow_trans [of st st1 st2 for st st1 st2])

lemmas inBlock_below = bel.inBlock_R and branches_below = bel.branches_R

section \<open>Every branch has a target\<close>

text \<open>The outcomes of a run that the enclosing statements take care of.\<close>

definition takes :: "labelBlock list \<Rightarrow> string \<Rightarrow> (stmt \<Rightarrow> bool) \<Rightarrow> bool" where
  "takes b n good \<longleftrightarrow> (\<exists>p \<in> set b. \<exists>a s. bLabel p = Some (a, n, s) \<and> good s)"

fun handled :: "labelBlock list \<Rightarrow> targets \<Rightarrow> outcome \<Rightarrow> bool" where
  "handled b ctxt (Brk None) = (breaks ctxt \<noteq> None)"
| "handled b ctxt (Brk (Some n)) = (n = [] \<or> takes b n (\<lambda>s. stmtAddr s \<noteq> None))"
| "handled b ctxt (Cont None) = (continues ctxt \<noteq> None)"
| "handled b ctxt (Cont (Some n)) = (n = [] \<or> takes b n isFor)"
| "handled b ctxt Fth = (\<exists>a i t cs. breaks ctxt = Some (SwitchStmt a i t cs) \<and> 0 \<le> caseIndex ctxt \<and> caseIndex ctxt + 1 \<noteq> int (length cs))"
| "handled b ctxt _ = True"

text \<open>The label statement a loop, switch or select belongs to is the label whose breaks it ends.\<close>

definition labelOf :: "string \<Rightarrow> labelStmt option \<Rightarrow> stmt \<Rightarrow> bool" where
  "labelOf lab lstmt s \<longleftrightarrow> (\<forall>a n s'. lstmt = Some (a, n, s') \<longrightarrow> stmtAddr s' = None \<or> s' = s \<and> n = lab)"

lemma labelOf_None [simp]: "labelOf lab None s"
  by (simp add: labelOf_def)

lemma labeledTarget_handled:
  assumes "noComplaint (snd (labeledTarget e1 e2 good b n st))"
  shows "takes b n good"
  using assms
  by (auto simp: labeledTarget_def enclosingTarget_def noComplaint_def branchErrorf_def takes_def list_ex_iff
      findLabel_def find_Some_iff labelName_def split: option.splits if_splits prod.splits)

lemma unlabeledBranch_handled:
  assumes "noComplaint (snd (unlabeledBranch ctxt isLast tok st))"
  shows "tok = Break \<longrightarrow> handled b ctxt (Brk None)" "tok = Continue \<longrightarrow> handled b ctxt (Cont None)"
    "tok = Fallthrough \<longrightarrow> handled b ctxt Fth" "tok \<noteq> Goto"
  using assms
  by (auto simp: unlabeledBranch_def orErrorf_def fallthroughError_def noComplaint_def branchErrorf_def
      split: branchTok.splits option.splits stmt.splits if_splits)

lemma labeledBranch_handled:
  assumes "noComplaint (snd (labeledBranch b tok n st))"
  shows "tok = Break \<longrightarrow> handled b ctxt (Brk (Some n))" "tok = Continue \<longrightarrow> handled b ctxt (Cont (Some n))"
    "tok \<noteq> Fallthrough"
  by (use assms labeledTarget_handled in \<open>cases tok; force simp: labeledBranch_def noComplaint_def\<close>)+

lemma inBlock_noComplaint:
  assumes "noComplaint (snd (inBlock b lstmt f st))"
  obtains st' where "noComplaint (snd (f (\<lparr>bId = lsBlocks st, bLabel = lstmt\<rparr> # b) st'))"
  using assms by (force simp: inBlock_def leaveBlock_def noComplaint_def case_prod_beta)


text \<open>Leaving a block that is part of a statement that is no target, and one that is.\<close>

lemma takes_Cons:
  "takes (\<lparr>bId = k, bLabel = lstmt\<rparr> # b) n good \<longleftrightarrow> (\<exists>a s. lstmt = Some (a, n, s) \<and> good s) \<or> takes b n good"
  by (simp add: takes_def)

lemma isFor_addr: "isFor s \<Longrightarrow> stmtAddr s \<noteq> None"
  by (cases s) simp_all

lemma handled_leave:
  assumes "handled (\<lparr>bId = k, bLabel = lstmt\<rparr> # b) (nested ctxt) r"
    and "labelOf lab lstmt s" and "stmtAddr s = None"
  shows "handled b ctxt r"
  using assms by (cases "(b, ctxt, r)" rule: handled.cases) (auto simp: takes_Cons labelOf_def dest: isFor_addr)

lemma handled_target:
  assumes "handled (\<lparr>bId = k, bLabel = lstmt\<rparr> # b) \<lparr>breaks = Some s, continues = c, caseIndex = i\<rparr> r"
    and "labelOf lab lstmt s" and "stmtAddr s \<noteq> None"
    and "isFor s \<or> c = continues ctxt"
  shows "endsLoop lab r \<or> (if isFor s then goesOn lab r \<or> handled b ctxt r else r = Fth \<or> handled b ctxt r)"
  using assms
  by (cases "(b, ctxt, r)" rule: handled.cases) (auto simp: takes_Cons labelOf_def dest: isFor_addr dest!: sym [of "Some _"])

lemma caseBranches_append:
  "snd (caseBranches b inner lstmt k (cs1 @ cs2) st) =
     snd (caseBranches b inner lstmt (k + int (length cs1)) cs2 (snd (caseBranches b inner lstmt k cs1 st)))"
proof (induction cs1 arbitrary: k st)
  case (Cons c cs1)
  then show ?case by (cases c) (simp add: case_prod_beta algebra_simps)
qed simp

lemma commBranches_in:
  assumes "CommClause c ss \<in> set ms" and "noComplaint (snd (commBranches b inner lstmt ms st))"
  obtains st' where "noComplaint (snd (inBlock b lstmt (\<lambda>b'. listBranches b' inner ss) st'))"
  using assms
proof (induction ms arbitrary: st thesis)
  case (Cons m ms)
  obtain c' ss' where m: "m = CommClause c' ss'" by (cases m)
  let ?st1 = "snd (inBlock b lstmt (\<lambda>b'. listBranches b' inner ss') st)"
  have rest: "noComplaint (snd (commBranches b inner lstmt ms ?st1))"
    using Cons.prems(3) by (simp add: m case_prod_beta)
  show ?case
  proof (cases "CommClause c ss = m")
    case True
    then show ?thesis
      using noComplaint_below [OF branches_below(4) rest] by (auto simp: m intro: Cons.prems(1))
  next
    case False
    then show ?thesis
      using Cons.prems(2) by (auto intro: Cons.IH [OF Cons.prems(1) _ rest])
  qed
qed simp



lemma inBlock_handled:
  assumes "noComplaint (snd (inBlock b lstmt f st))"
    and "\<And>b' st'. noComplaint (snd (f b' st')) \<Longrightarrow> handled b' c r"
  obtains k where "handled (\<lparr>bId = k, bLabel = lstmt\<rparr> # b) c r"
  using assms by (meson inBlock_noComplaint)

abbreviation sound1 :: "string \<Rightarrow> stmt \<Rightarrow> outcome \<Rightarrow> bool" where
  "sound1 lab s r \<equiv> (\<forall>b ctxt isLast lstmt st.
     noComplaint (snd (stmtBranches b ctxt isLast lstmt s st)) \<longrightarrow> labelOf lab lstmt s \<longrightarrow> handled b ctxt r)"

abbreviation soundL :: "stmt list \<Rightarrow> outcome \<Rightarrow> bool" where
  "soundL ss r \<equiv> (\<forall>b ctxt st. noComplaint (snd (listBranches b ctxt ss st)) \<longrightarrow> handled b ctxt r)"

lemma sound_inner:
  assumes "noComplaint (snd (inBlock b lstmt (\<lambda>b' st'. listBranches b' (nested ctxt) ss st') st))"
    and "soundL ss r" and "labelOf lab lstmt s" and "stmtAddr s = None"
  shows "handled b ctxt r"
proof -
  obtain k where "handled (\<lparr>bId = k, bLabel = lstmt\<rparr> # b) (nested ctxt) r"
    by (rule inBlock_handled [OF assms(1)]) (rule assms(2) [rule_format])
  then show ?thesis by (rule handled_leave) fact+
qed

lemma sound_single:
  assumes "noComplaint (snd (inBlock b lstmt (\<lambda>b' st'. stmtBranches b' (nested ctxt) True None s' st') st))"
    and "sound1 [] s' r" and "labelOf lab lstmt s" and "stmtAddr s = None"
  shows "handled b ctxt r"
proof -
  obtain k where "handled (\<lparr>bId = k, bLabel = lstmt\<rparr> # b) (nested ctxt) r"
    by (rule inBlock_handled [OF assms(1)]) (rule assms(2) [rule_format], assumption, rule labelOf_None)
  then show ?thesis by (rule handled_leave) fact+
qed

lemma sound_target:
  assumes "noComplaint (snd (inBlock b lstmt (\<lambda>b' st'. listBranches b' \<lparr>breaks = Some s, continues = c, caseIndex = i\<rparr> ss st') st))"
    and "soundL ss r" and "labelOf lab lstmt s" and "stmtAddr s \<noteq> None"
    and "isFor s \<or> c = continues ctxt"
  shows "endsLoop lab r \<or> (if isFor s then goesOn lab r \<or> handled b ctxt r else r = Fth \<or> handled b ctxt r)"
proof -
  obtain k where "handled (\<lparr>bId = k, bLabel = lstmt\<rparr> # b) \<lparr>breaks = Some s, continues = c, caseIndex = i\<rparr> r"
    by (rule inBlock_handled [OF assms(1)]) (rule assms(2) [rule_format])
  then show ?thesis by (rule handled_target) fact+
qed

lemma sound_for:
  assumes "noComplaint (snd (stmtBranches b ctxt isLast lstmt (ForStmt a i c p (BlockStmt a' ss)) st))"
    and "labelOf lab lstmt (ForStmt a i c p (BlockStmt a' ss))" and "soundL ss r"
  shows "endsLoop lab r \<or> goesOn lab r \<or> handled b ctxt r"
  using sound_target [OF _ assms(3,2), of b _ "-1" st ctxt] assms(1) by (simp add: case_prod_beta Let_def)

lemma sound_if:
  assumes "noComplaint (snd (stmtBranches b ctxt isLast lstmt (IfStmt i c (BlockStmt a ss) e) st))"
    and "labelOf lab lstmt (IfStmt i c (BlockStmt a ss) e)"
  shows "soundL ss r \<Longrightarrow> handled b ctxt r" and "e = Some s \<Longrightarrow> sound1 [] s r \<Longrightarrow> handled b ctxt r"
proof -
  let ?st1 = "snd (inBlock b lstmt (\<lambda>b' st'. listBranches b' (nested ctxt) ss st') st)"
  have els: "noComplaint (snd (inBlock b lstmt (\<lambda>b' st'. stmtBranches b' (nested ctxt) True None s' st') ?st1))" if "e = Some s'" for s'
    using assms(1) that by (simp add: case_prod_beta)
  have "noComplaint ?st1"
  proof (cases e)
    case None
    then show ?thesis using assms(1) by (simp add: case_prod_beta)
  next
    case (Some s')
    show ?thesis
      by (rule noComplaint_below [OF inBlock_below els [OF Some]]) (rule branches_below)
  qed
  then show "soundL ss r \<Longrightarrow> handled b ctxt r"
    by (rule sound_inner [OF _ _ assms(2)]) simp_all
  show "e = Some s \<Longrightarrow> sound1 [] s r \<Longrightarrow> handled b ctxt r"
    by (rule sound_single [OF els _ assms(2)]) simp_all
qed


abbreviation soundC :: "string \<Rightarrow> caseClause list \<Rightarrow> outcome \<Rightarrow> bool" where
  "soundC lab cs r \<equiv> (\<forall>b (ctxt :: targets) c' lstmt k st sw.
     noComplaint (snd (caseBranches b \<lparr>breaks = Some sw, continues = continues ctxt, caseIndex = c'\<rparr> lstmt k cs st)) \<longrightarrow>
     labelOf lab lstmt sw \<longrightarrow> stmtAddr sw \<noteq> None \<longrightarrow> \<not> isFor sw \<longrightarrow> handled b ctxt r)"

lemma caseBranches_first:
  assumes "noComplaint (snd (caseBranches b inner lstmt k (CaseClause c ss # cs) st))"
  shows "noComplaint (snd (inBlock b lstmt (\<lambda>b' st'. listBranches b' (inner\<lparr>caseIndex := k\<rparr>) ss st') st))"
    and "noComplaint (snd (caseBranches b inner lstmt (k + 1) cs
          (snd (inBlock b lstmt (\<lambda>b' st'. listBranches b' (inner\<lparr>caseIndex := k\<rparr>) ss st') st))))"
proof -
  show *: "noComplaint (snd (caseBranches b inner lstmt (k + 1) cs
          (snd (inBlock b lstmt (\<lambda>b' st'. listBranches b' (inner\<lparr>caseIndex := k\<rparr>) ss st') st))))"
    using assms by (simp add: case_prod_beta)
  show "noComplaint (snd (inBlock b lstmt (\<lambda>b' st'. listBranches b' (inner\<lparr>caseIndex := k\<rparr>) ss st') st))"
    by (rule noComplaint_below [OF branches_below(3) *])
qed

lemma sound_clause:
  assumes "soundL ss r" and "r \<noteq> Fth"
  shows "soundC lab (CaseClause c ss # cs) (if endsLoop lab r then Fall else r)"
proof (intro allI impI)
  fix b c' lstmt k st sw and ctxt :: targets
  assume "noComplaint (snd (caseBranches b \<lparr>breaks = Some sw, continues = continues ctxt, caseIndex = c'\<rparr> lstmt k (CaseClause c ss # cs) st))"
    and sw: "labelOf lab lstmt sw" "stmtAddr sw \<noteq> None" "\<not> isFor sw"
  from sound_target [OF caseBranches_first(1) [OF this(1), simplified] assms(1) sw(1,2)] sw(3) assms(2)
  show "handled b ctxt (if endsLoop lab r then Fall else r)" by auto
qed

lemma sound_comm:
  assumes "soundL ss r" and "CommClause c ss \<in> set cs"
  shows "sound1 lab (SelectStmt a cs) (if endsLoop lab r then Fall else r)"
proof (intro allI impI)
  fix b ctxt isLast lstmt st
  let ?s = "SelectStmt a cs"
  assume "noComplaint (snd (stmtBranches b ctxt isLast lstmt ?s st))" and lab: "labelOf lab lstmt ?s"
  then have "noComplaint (snd (commBranches b \<lparr>breaks = Some ?s, continues = continues ctxt, caseIndex = -1\<rparr> lstmt cs st))"
    by (simp add: case_prod_beta)
  then obtain st' where st': "noComplaint (snd (inBlock b lstmt
      (\<lambda>b' st'. listBranches b' \<lparr>breaks = Some ?s, continues = continues ctxt, caseIndex = -1\<rparr> ss st') st'))"
    by (rule commBranches_in [OF assms(2)])
  obtain k where k: "handled (\<lparr>bId = k, bLabel = lstmt\<rparr> # b) \<lparr>breaks = Some ?s, continues = continues ctxt, caseIndex = -1\<rparr> r"
    by (rule inBlock_handled [OF st']) (rule assms(1) [rule_format])
  then have "r \<noteq> Fth" by auto
  with handled_target [OF k lab] show "handled b ctxt (if endsLoop lab r then Fall else r)" by auto
qed

lemma handled_sound:
  "exec P lab s evs r \<Longrightarrow> sound1 lab s r"
  "execs P ss evs r \<Longrightarrow> soundL ss r"
  "execClauses P lab cs evs r \<Longrightarrow> soundC lab cs r"
proof (induction rule: exec_execs_execClauses.inducts)
  case (BranchBreak lab l t)
  then show ?case
    using unlabeledBranch_handled(1) labeledBranch_handled(1) by (cases l) (fastforce simp: case_prod_beta)+
next
  case (BranchContinue lab l t)
  then show ?case
    using unlabeledBranch_handled(2) labeledBranch_handled(2) by (cases l) (fastforce simp: case_prod_beta)+
next
  case (BranchFallthrough lab l t)
  then show ?case
    using unlabeledBranch_handled(3) labeledBranch_handled(3) by (cases l) (fastforce simp: case_prod_beta)+
next
  case (Labeled n s evs r lab a)
  show ?case
  proof (intro allI impI)
    fix b ctxt isLast lstmt st
    assume *: "noComplaint (snd (stmtBranches b ctxt isLast lstmt (LabeledStmt a n s) st))"
      and "labelOf lab lstmt (LabeledStmt a n s)"
    then have "labelOf n (if n = ''_'' then lstmt else Some (a, n, s)) s"
      by (auto simp: labelOf_def)
    moreover have "noComplaint (snd (stmtBranches b ctxt isLast (if n = ''_'' then lstmt else Some (a, n, s)) s
        (if n = ''_'' then st else resolveGotos n (declareLabel b (a, n, s) st))))"
      using * by (simp add: case_prod_beta Let_def)
    ultimately show "handled b ctxt r"
      by (rule Labeled.IH(2) [rule_format, rotated])
  qed
next
  case (Block ss evs r lab a)
  show ?case
    by (intro allI impI) (rule sound_inner [OF _ Block.IH(2)], simp add: case_prod_beta, assumption, simp)
next
  case (IfThen ss evs r lab i c a e)
  show ?case by (intro allI impI) (rule sound_if(1) [OF _ _ IfThen.IH(2)])
next
  case (IfElse s evs r lab i c t)
  obtain a ss where t: "t = BlockStmt a ss" by (cases t)
  show ?case
    unfolding t by (intro allI impI) (rule sound_if(2) [OF _ _ refl IfElse.IH(2)])
next
  case (PostThen s evs r lab c)
  show ?case
    by (intro allI impI) (rule sound_single [OF _ PostThen.IH(2)], simp add: case_prod_beta, assumption, simp)
next
  case (ForStep ss evs r lab a i c p a' evs' r')
  then show ?case by simp
next
  case (ForLeave ss evs r lab a i c p a')
  show ?case
    by (intro allI impI) (use sound_for [OF _ _ ForLeave.IH(2)] ForLeave.hyps in blast)
next
  case (SwitchCase lab cs2 evs r a i t cs1)
  show ?case
  proof (intro allI impI)
    fix b ctxt isLast lstmt st
    let ?s = "SwitchStmt a i t (cs1 @ cs2)"
    assume "noComplaint (snd (stmtBranches b ctxt isLast lstmt ?s st))" and "labelOf lab lstmt ?s"
    then show "handled b ctxt r"
      by (intro SwitchCase.IH(2) [rule_format]) (auto simp: case_prod_beta caseBranches_append)
  qed
next
  case (SelectComm c ss cs evs r lab a)
  then show ?case by (intro sound_comm) auto
next
  case (Next s evs ss evs' r)
  show ?case
    by (intro allI impI) (rule Next.IH(4) [rule_format], simp add: case_prod_beta)
next
  case (Stop s evs r ss)
  show ?case
  proof (intro allI impI)
    fix b ctxt st
    assume "noComplaint (snd (listBranches b ctxt (s # ss) st))"
    then have "noComplaint (snd (stmtBranches b ctxt (trimTrailingEmptyStmts ss = []) None s st))"
      by (auto simp: case_prod_beta intro: noComplaint_below [OF branches_below(1)])
    then show "handled b ctxt r"
      by (rule Stop.IH(2) [rule_format]) simp
  qed
next
  case (Clause ss evs r lab c cs)
  show ?case by (rule sound_clause) fact+
next
  case (ClauseNext ss evs lab cs evs' r c)
  show ?case
    by (intro allI impI) (rule ClauseNext.IH(4) [rule_format], drule caseBranches_first(2), simp_all)
qed (simp_all add: case_prod_beta)


lemma reportForward_below: "branchBelow st (reportForward g st)"
  by (auto simp: reportForward_def split: option.split intro: branchBelow_trans [OF markUsed_below branchErrorf_below])

lemma finishBranches_below: "branchBelow st (finishBranches st)"
  unfolding finishBranches_def Let_def
  by (rule branchBelow_trans [OF fold_below fold_below]) (simp_all add: reportForward_below reportUnused_def)

lemma checkBranches_ok:
  assumes "checkBranches (Some (BlockStmt a ss)) = Some (body', es)"
  obtains ss' where "body' = Some (BlockStmt a ss')" and "ss' = fst (bodyBranches ss)"
    and "es = lsErrs (finishBranches (snd (bodyBranches ss)))" and "\<not> lsPanic (finishBranches (snd (bodyBranches ss)))"
  using assms by (auto simp: checkBranches_def Let_def split: prod.splits if_splits)


definition nestedLoops :: "stmt list" where
  "nestedLoops =
     [LabeledStmt 1 ''L'' (ForStmt 2 None None None (BlockStmt 3
        [ForStmt 4 None None None (BlockStmt 5 [BranchStmt Break (Some ''L'') None, BranchStmt Continue None None])]))]"


end
