(* ===== verification/Gotos.thy ===== *)
theory Gotos
  imports Branches
begin

text \<open>
  What the check of \<open>Branches\<close> says about labels and gotos, against a declarative description
  of a body: the labels declared in it, the labels its branch statements name, and the gotos
  whose label is declared neither in the block of the goto nor in one around it.
\<close>

section \<open>Labels and gotos of a body\<close>

fun labelsOf :: "stmt \<Rightarrow> string list"
and labelsB :: "blockStmt \<Rightarrow> string list"
and labelsC :: "caseClause \<Rightarrow> string list"
and labelsM :: "commClause \<Rightarrow> string list"
where
  "labelsOf (LabeledStmt a n s) = (if n = ''_'' then [] else [n]) @ labelsOf s"
| "labelsOf (BlockS b) = labelsB b"
| "labelsOf (WithStmt x v b) = labelsB b"
| "labelsOf (PostfixIfStmt s c) = labelsOf s"
| "labelsOf (IfStmt i c t e) = labelsB t @ (case e of None \<Rightarrow> [] | Some s \<Rightarrow> labelsOf s)"
| "labelsOf (ForStmt a i c p b) = labelsB b"
| "labelsOf (SwitchStmt a i t cs) = concat (map labelsC cs)"
| "labelsOf (SelectStmt a cs) = concat (map labelsM cs)"
| "labelsOf s = []"
| "labelsB (BlockStmt a ss) = concat (map labelsOf ss)"
| "labelsC (CaseClause c ss) = concat (map labelsOf ss)"
| "labelsM (CommClause c ss) = concat (map labelsOf ss)"

fun named :: "stmt \<Rightarrow> string set"
and namedB :: "blockStmt \<Rightarrow> string set"
and namedC :: "caseClause \<Rightarrow> string set"
and namedM :: "commClause \<Rightarrow> string set"
where
  "named (BranchStmt tok (Some n) t) = {n}"
| "named (LabeledStmt a n s) = named s"
| "named (BlockS b) = namedB b"
| "named (WithStmt x v b) = namedB b"
| "named (PostfixIfStmt s c) = named s"
| "named (IfStmt i c t e) = namedB t \<union> (case e of None \<Rightarrow> {} | Some s \<Rightarrow> named s)"
| "named (ForStmt a i c p b) = namedB b"
| "named (SwitchStmt a i t cs) = (\<Union>c \<in> set cs. namedC c)"
| "named (SelectStmt a cs) = (\<Union>c \<in> set cs. namedM c)"
| "named s = {}"
| "namedB (BlockStmt a ss) = (\<Union>s \<in> set ss. named s)"
| "namedC (CaseClause c ss) = (\<Union>s \<in> set ss. named s)"
| "namedM (CommClause c ss) = (\<Union>s \<in> set ss. named s)"

text \<open>The labels a statement declares in the block it stands in.\<close>

fun direct :: "stmt \<Rightarrow> string set" where
  "direct (LabeledStmt a n s) = (if n = ''_'' then {} else {n}) \<union> direct s"
| "direct s = {}"

fun freeGotos :: "stmt \<Rightarrow> string set"
and freeB :: "blockStmt \<Rightarrow> string set"
and freeC :: "caseClause \<Rightarrow> string set"
and freeM :: "commClause \<Rightarrow> string set"
where
  "freeGotos (BranchStmt Goto (Some n) t) = {n}"
| "freeGotos (LabeledStmt a n s) = freeGotos s"
| "freeGotos (BlockS b) = freeB b"
| "freeGotos (WithStmt x v b) = freeB b"
| "freeGotos (PostfixIfStmt s c) = freeGotos s - direct s"
| "freeGotos (IfStmt i c t e) = freeB t \<union> (case e of None \<Rightarrow> {} | Some s \<Rightarrow> freeGotos s - direct s)"
| "freeGotos (ForStmt a i c p b) = freeB b"
| "freeGotos (SwitchStmt a i t cs) = (\<Union>c \<in> set cs. freeC c)"
| "freeGotos (SelectStmt a cs) = (\<Union>c \<in> set cs. freeM c)"
| "freeGotos s = {}"
| "freeB (BlockStmt a ss) = (\<Union>s \<in> set ss. freeGotos s) - (\<Union>s \<in> set ss. direct s)"
| "freeC (CaseClause c ss) = (\<Union>s \<in> set ss. freeGotos s) - (\<Union>s \<in> set ss. direct s)"
| "freeM (CommClause c ss) = (\<Union>s \<in> set ss. freeGotos s) - (\<Union>s \<in> set ss. direct s)"

section \<open>Declared labels\<close>

definition labelNames :: "labelScope \<Rightarrow> string list" where
  "labelNames st = map labelName (lsLabels st)"

fun isRedefined :: "branchError \<Rightarrow> bool" where
  "isRedefined (LabelRedefined _) = True"
| "isRedefined _ = False"

definition redefined :: "labelScope \<Rightarrow> nat" where
  "redefined st = length (filter isRedefined (lsErrs st))"

definition declares :: "labelScope \<Rightarrow> string list \<Rightarrow> labelScope \<Rightarrow> bool" where
  "declares st ns st' \<longleftrightarrow> redefined st \<le> redefined st' \<and> (distinct (labelNames st) \<longrightarrow>
     (if distinct (labelNames st @ ns) then labelNames st' = labelNames st @ ns \<and> redefined st' = redefined st
      else redefined st < redefined st'))"

lemma declares_trans: "declares st ns st1 \<Longrightarrow> declares st1 ms st2 \<Longrightarrow> declares st (ns @ ms) st2"
  by (auto simp: declares_def split: if_splits)

lemma declares_refl [simp]: "declares st [] st"
  by (simp add: declares_def)

lemma declares_same: "labelNames st' = labelNames st \<Longrightarrow> redefined st' = redefined st \<Longrightarrow> declares st [] st'"
  by (simp add: declares_def)

lemma names_simps [simp]:
  "labelNames (branchErrorf e st) = labelNames st"
  "labelNames (markUsed n st) = labelNames st"
  "labelNames (varName_update f st) = labelNames st" "labelNames (fwdGotos_update g st) = labelNames st"
  "labelNames (badGotos_update g st) = labelNames st" "labelNames (lsGotos_update h st) = labelNames st"
  "labelNames (lsPanic_update q st) = labelNames st" "labelNames (lsBlocks_update k st) = labelNames st"
  "redefined (branchErrorf e st) = redefined st + (if isRedefined e then 1 else 0)"
  "redefined (markUsed n st) = redefined st"
  "redefined (varName_update f st) = redefined st" "redefined (fwdGotos_update g st) = redefined st"
  "redefined (badGotos_update g st) = redefined st" "redefined (lsGotos_update h st) = redefined st"
  "redefined (lsPanic_update q st) = redefined st" "redefined (lsBlocks_update k st) = redefined st"
  by (auto simp: labelNames_def redefined_def branchErrorf_def markUsed_def labelName_def)

lemma fold_same: "(\<And>x st. f (g x st) = f st) \<Longrightarrow> f (fold g xs st) = f st"
  by (induction xs arbitrary: st) auto

lemma resolveGotos_names [simp]:
  "labelNames (resolveGotos n st) = labelNames st" "redefined (resolveGotos n st) = redefined st"
  by (simp_all add: resolveGotos_def Let_def fold_same [of labelNames] fold_same [of redefined])

lemma findLabel_None: "findLabel n st = None \<longleftrightarrow> n \<notin> set (labelNames st)"
  by (auto simp: findLabel_def labelNames_def find_None_iff)

lemma declareLabel_declares: "declares st [n] (declareLabel b (a, n, s) st)"
  by (auto simp: declares_def declareLabel_def findLabel_None [symmetric] split: option.split)
    (auto simp: labelNames_def labelName_def findLabel_None redefined_def)

lemma labeledBranch_names [simp]:
  "labelNames (snd (labeledBranch b tok n st)) = labelNames st" "redefined (snd (labeledBranch b tok n st)) = redefined st"
  by (auto simp: labeledBranch_def labeledTarget_def enclosingTarget_def gotoTarget_def
      split: branchTok.split option.split prod.split)

lemma fallthroughError_redefined: "fallthroughError ctxt isLast = Some e \<Longrightarrow> \<not> isRedefined e"
  by (auto simp: fallthroughError_def split: option.splits stmt.splits if_splits)

lemma unlabeledBranch_names [simp]:
  "labelNames (snd (unlabeledBranch ctxt isLast tok st)) = labelNames st"
  "redefined (snd (unlabeledBranch ctxt isLast tok st)) = redefined st"
  by (auto simp: unlabeledBranch_def orErrorf_def dest: fallthroughError_redefined split: branchTok.split option.split)

lemma declBranches_names [simp]:
  "labelNames (declBranches ds st) = labelNames st" "redefined (declBranches ds st) = redefined st"
  "labelNames (recordVarDecl x st) = labelNames st" "redefined (recordVarDecl x st) = redefined st"
  by (auto simp: declBranches_def recordVarDecl_def split: option.split list.split)

lemma block_names [simp]:
  "labelNames (enterBlock st) = labelNames st" "redefined (enterBlock st) = redefined st"
  "labelNames (leaveBlock st st1) = labelNames st1" "redefined (leaveBlock st st1) = redefined st1"
  by (simp_all add: enterBlock_def leaveBlock_def)

lemma inBlock_declares:
  assumes "\<And>b' st'. declares st' ns (snd (f b' st'))"
  shows "declares st ns (snd (inBlock b lstmt f st))"
  using assms [of "enterBlock st" "\<lparr>bId = lsBlocks st, bLabel = lstmt\<rparr> # b"]
  by (auto simp: inBlock_def case_prod_beta declares_def split: if_splits)

lemma branches_declare:
  "declares st (concat (map labelsOf ss)) (snd (listBranches b ctxt ss st))"
  "declares st (labelsOf s) (snd (stmtBranches b ctxt isLast lstmt s st))"
  "declares st (concat (map labelsC cs)) (snd (caseBranches b ctxt lstmt k cs st))"
  "declares st (concat (map labelsM ms)) (snd (commBranches b ctxt lstmt ms st))"
proof (induction b ctxt ss st and b ctxt isLast lstmt s st and b ctxt lstmt k cs st and b ctxt lstmt ms st
    rule: listBranches_stmtBranches_caseBranches_commBranches.induct)
  case (4 b ctxt isLast lstmt a n s st)
  have "declares st (if n = ''_'' then [] else [n]) (if n = ''_'' then st else resolveGotos n (declareLabel b (a, n, s) st))"
    using declareLabel_declares [of st n b a s] by (simp add: declares_def)
  then show ?case
    using 4 declares_trans by (auto simp: Let_def case_prod_beta)
next
  case (11 b ctxt isLast lstmt i c a ss e st)
  let ?st1 = "snd (inBlock b lstmt (\<lambda>b'. listBranches b' (nested ctxt) ss) st)"
  have "declares st (concat (map labelsOf ss)) ?st1"
    by (rule inBlock_declares) (rule 11)
  moreover have "declares ?st1 (labelsOf s) (snd (inBlock b lstmt (\<lambda>b'. stmtBranches b' (nested ctxt) True None s) ?st1))"
    if "e = Some s" for s
    by (rule inBlock_declares) (rule 11(2) [OF prod.collapse that])
  ultimately show ?case
    by (auto simp: case_prod_beta split: option.split intro: declares_trans)
next
  case (17 b inner lstmt k c ss cs st)
  have "declares st (concat (map labelsOf ss)) (snd (inBlock b lstmt (\<lambda>b'. listBranches b' (inner\<lparr>caseIndex := k\<rparr>) ss) st))"
    by (rule inBlock_declares) (rule 17)
  then show ?case
    using 17 by (auto simp: case_prod_beta prod_eq_iff intro: declares_trans)
next
  case (19 b inner lstmt c ss cs st)
  have "declares st (concat (map labelsOf ss)) (snd (inBlock b lstmt (\<lambda>b'. listBranches b' inner ss) st))"
    by (rule inBlock_declares) (rule 19)
  then show ?case
    using 19 by (auto simp: case_prod_beta prod_eq_iff intro: declares_trans)
qed (auto simp: case_prod_beta prod_eq_iff Let_def intro: declares_trans inBlock_declares declares_same)


section \<open>Used labels\<close>

text \<open>Only the labels branch statements name are marked as used.\<close>

definition fwdNames :: "labelScope \<Rightarrow> string set" where
  "fwdNames st = snd ` set (fwdGotos st)"

definition mentions :: "string set \<Rightarrow> labelScope \<Rightarrow> labelScope \<Rightarrow> bool" where
  "mentions N st st' \<longleftrightarrow> usedNames st' \<union> fwdNames st' \<subseteq> usedNames st \<union> fwdNames st \<union> N"

lemma mentions_refl [simp]: "mentions N st st"
  by (auto simp: mentions_def)

lemma mentions_trans: "mentions N st st1 \<Longrightarrow> mentions M st1 st2 \<Longrightarrow> mentions (N \<union> M) st st2"
  by (auto simp: mentions_def)

lemma mentions_mono: "mentions N st st' \<Longrightarrow> N \<subseteq> M \<Longrightarrow> mentions M st st'"
  by (auto simp: mentions_def)

lemma used_simps [simp]:
  "usedNames (branchErrorf e st) = usedNames st" "fwdNames (branchErrorf e st) = fwdNames st"
  "fwdNames (markUsed n st) = fwdNames st"
  "usedNames (varName_update f st) = usedNames st" "usedNames (fwdGotos_update g st) = usedNames st"
  "usedNames (badGotos_update g st) = usedNames st" "usedNames (lsGotos_update h st) = usedNames st"
  "usedNames (lsPanic_update q st) = usedNames st" "usedNames (lsBlocks_update k st) = usedNames st"
  "fwdNames (varName_update f st) = fwdNames st" "fwdNames (badGotos_update g st) = fwdNames st"
  "fwdNames (lsGotos_update h st) = fwdNames st" "fwdNames (lsPanic_update q st) = fwdNames st"
  "fwdNames (lsBlocks_update k st) = fwdNames st"
  "fwdNames (st\<lparr>fwdGotos := xs\<rparr>) = snd ` set xs"
  by (simp_all add: branchErrorf_def usedNames_def fwdNames_def markUsed_def)

lemma markUsed_used: "usedNames (markUsed n st) \<subseteq> insert n (usedNames st)"
  by (auto simp: markUsed_names)

lemma declareLabel_used [simp]:
  "usedNames (declareLabel b s st) = usedNames st" "fwdNames (declareLabel b s st) = fwdNames st"
  by (auto simp: declareLabel_def split: option.split) (auto simp: usedNames_def fwdNames_def)

lemma resolveGotos_fwd: "fwdNames (resolveGotos n st) = fwdNames st - {n}"
proof -
  have "fwdGotos (fold (\<lambda>g st. if jumpsOverVarDecl st g then branchErrorf (GotoJumpsOver n (the (varName st))) st else st) hits st') = fwdGotos st'"
    for hits st' by (rule fold_same) (simp add: branchErrorf_def)
  then show ?thesis
    by (auto simp: resolveGotos_def Let_def markUsed_def fwdNames_def)
qed

lemma resolveGotos_used: "usedNames (resolveGotos n st) \<subseteq> usedNames st \<union> ({n} \<inter> fwdNames st)"
proof -
  define hits where "hits = filter (\<lambda>g. snd g = n) (fwdGotos st)"
  have "usedNames (resolveGotos n st) = usedNames (if hits = [] then st else markUsed n st)"
    by (simp add: resolveGotos_def Let_def hits_def fold_same [of usedNames])
  moreover have "hits \<noteq> [] \<Longrightarrow> n \<in> fwdNames st"
    by (force simp: hits_def filter_empty_conv fwdNames_def)
  ultimately show ?thesis
    using markUsed_used [of n st] by auto
qed

lemma markUsed_mentions [simp]: "mentions {n} st (markUsed n st)"
  using markUsed_used [of n st] by (auto simp: mentions_def)

lemma errorf_mentions [simp]: "mentions N st (branchErrorf e st') \<longleftrightarrow> mentions N st st'"
  by (simp add: mentions_def)

lemma labeledTarget_mentions: "mentions {n} st (snd (labeledTarget e1 e2 good b n st))"
proof -
  have "mentions {n} st (snd (enclosingTarget b n st))"
    by (simp add: enclosingTarget_def split: option.split)
  then show ?thesis
    by (auto simp: labeledTarget_def split: prod.splits option.splits)
qed

lemma labeledBranch_mentions: "mentions {n} st (snd (labeledBranch b tok n st))"
proof (cases tok)
  case Goto
  have "mentions {n} st (snd (gotoTarget b n st))"
    by (simp add: gotoTarget_def split: option.split)
  then show ?thesis
    by (auto simp: Goto labeledBranch_def mentions_def split: prod.splits option.splits) (force simp: fwdNames_def)+
next
  case Fallthrough
  then show ?thesis by (auto simp: labeledBranch_def mentions_def)
qed (simp_all add: labeledBranch_def labeledTarget_mentions)

lemma unlabeledBranch_mentions: "mentions {} st (snd (unlabeledBranch ctxt isLast tok st))"
  by (simp add: mentions_def unlabeledBranch_def orErrorf_def split: branchTok.split option.split)

lemma recordVarDecl_mentions [simp]: "mentions N st (recordVarDecl x st)" "mentions N st (declBranches ds st)"
  by (auto simp: mentions_def declBranches_def recordVarDecl_def split: option.split list.split)

lemma inBlock_mentions:
  assumes "\<And>b' st'. mentions N st' (snd (f b' st'))"
  shows "mentions N st (snd (inBlock b lstmt f st))"
proof -
  let ?st1 = "snd (f (\<lparr>bId = lsBlocks st, bLabel = lstmt\<rparr> # b) (enterBlock st))"
  have "usedNames (enterBlock st) = usedNames st" "fwdNames (enterBlock st) = {}"
    "usedNames (leaveBlock st ?st1) = usedNames ?st1" "fwdNames (leaveBlock st ?st1) = fwdNames st \<union> fwdNames ?st1"
    by (auto simp: enterBlock_def leaveBlock_def fwdNames_def)
  with assms [of "enterBlock st" "\<lparr>bId = lsBlocks st, bLabel = lstmt\<rparr> # b"] show ?thesis
    by (auto simp: inBlock_def case_prod_beta mentions_def)
qed

lemma branches_mention:
  "mentions (\<Union>s \<in> set ss. named s) st (snd (listBranches b ctxt ss st))"
  "mentions (named s) st (snd (stmtBranches b ctxt isLast lstmt s st))"
  "mentions (\<Union>c \<in> set cs. namedC c) st (snd (caseBranches b ctxt lstmt k cs st))"
  "mentions (\<Union>c \<in> set ms. namedM c) st (snd (commBranches b ctxt lstmt ms st))"
proof (induction b ctxt ss st and b ctxt isLast lstmt s st and b ctxt lstmt k cs st and b ctxt lstmt ms st
    rule: listBranches_stmtBranches_caseBranches_commBranches.induct)
  case (4 b ctxt isLast lstmt a n s st)
  have "mentions {} st (if n = ''_'' then st else resolveGotos n (declareLabel b (a, n, s) st))"
    using resolveGotos_used [of n "declareLabel b (a, n, s) st"] by (auto simp: mentions_def resolveGotos_fwd)
  from mentions_trans [OF this 4] show ?case
    by (simp add: Let_def case_prod_beta)
next
  case (11 b ctxt isLast lstmt i c a ss e st)
  let ?st1 = "snd (inBlock b lstmt (\<lambda>b'. listBranches b' (nested ctxt) ss) st)"
  have "mentions (\<Union>s \<in> set ss. named s) st ?st1"
    by (rule inBlock_mentions) (rule 11)
  moreover have "mentions (named s) ?st1 (snd (inBlock b lstmt (\<lambda>b'. stmtBranches b' (nested ctxt) True None s) ?st1))"
    if "e = Some s" for s
    by (rule inBlock_mentions) (rule 11(2) [OF prod.collapse that])
  ultimately show ?case
    by (auto simp: case_prod_beta split: option.split intro: mentions_trans)
next
  case (17 b inner lstmt k c ss cs st)
  have "mentions (\<Union>s \<in> set ss. named s) st (snd (inBlock b lstmt (\<lambda>b'. listBranches b' (inner\<lparr>caseIndex := k\<rparr>) ss) st))"
    by (rule inBlock_mentions) (rule 17)
  then show ?case
    using 17 by (auto simp: case_prod_beta prod_eq_iff intro: mentions_trans)
next
  case (19 b inner lstmt c ss cs st)
  have "mentions (\<Union>s \<in> set ss. named s) st (snd (inBlock b lstmt (\<lambda>b'. listBranches b' inner ss) st))"
    by (rule inBlock_mentions) (rule 19)
  then show ?case
    using 19 by (auto simp: case_prod_beta prod_eq_iff intro: mentions_trans)
qed (auto simp: case_prod_beta prod_eq_iff Let_def labeledBranch_mentions unlabeledBranch_mentions
    intro: mentions_trans inBlock_mentions)


section \<open>Gotos left over\<close>

text \<open>The labels declared so far, with the number of their block, and those a block sees.\<close>

definition declared :: "labelScope \<Rightarrow> (nat \<times> string) set" where
  "declared st = (\<lambda>l. (lParent l, labelName l)) ` set (lsLabels st)"

definition visible :: "labelBlock list \<Rightarrow> labelScope \<Rightarrow> string set" where
  "visible b st = {n. \<exists>p \<in> set b. (bId p, n) \<in> declared st}"

definition numbered :: "labelBlock list \<Rightarrow> labelScope \<Rightarrow> bool" where
  "numbered b st \<longleftrightarrow> (\<forall>p \<in> set b. bId p < lsBlocks st) \<and> (\<forall>(k, n) \<in> declared st. k < lsBlocks st)"

text \<open>A step in block \<open>b\<close> that meets the gotos \<open>G\<close>, declares \<open>D\<close> in the block itself and any other
  labels in blocks made on the way.\<close>

definition passes :: "labelBlock list \<Rightarrow> string set \<Rightarrow> string set \<Rightarrow> labelScope \<Rightarrow> labelScope \<Rightarrow> bool" where
  "passes b G D st st' \<longleftrightarrow> lsBlocks st \<le> lsBlocks st' \<and>
     fwdNames st' = (fwdNames st \<union> (G - visible b st)) - D \<and>
     (\<exists>X. declared st' = declared st \<union> Pair (bId (hd b)) ` D \<union> X \<and> (\<forall>(k, n) \<in> X. lsBlocks st \<le> k \<and> k < lsBlocks st'))"

lemma declared_markUsed [simp]: "declared (markUsed n st) = declared st"
proof -
  have "(\<lambda>l. (lParent l, labelName l)) \<circ> (\<lambda>l. if labelName l = n then l\<lparr>lUsed := True\<rparr> else l) = (\<lambda>l. (lParent l, labelName l))"
    by (auto simp: fun_eq_iff labelName_def)
  then show ?thesis
    by (simp add: declared_def markUsed_def image_comp del: if_image_distrib)
qed

lemma declared_simps [simp]:
  "declared (branchErrorf e st) = declared st"
  "declared (varName_update f st) = declared st" "declared (fwdGotos_update g st) = declared st"
  "declared (badGotos_update g st) = declared st" "declared (lsGotos_update h st) = declared st"
  "declared (lsPanic_update q st) = declared st" "declared (lsBlocks_update k st) = declared st"
  "lsBlocks (branchErrorf e st) = lsBlocks st" "lsBlocks (markUsed n st) = lsBlocks st"
  "fwdGotos (markUsed n st) = fwdGotos st"
  by (simp_all add: declared_def branchErrorf_def markUsed_def)

lemma passes_numbered: "passes b G D st st' \<Longrightarrow> numbered b st \<Longrightarrow> b \<noteq> [] \<Longrightarrow> numbered b st'"
  by (cases b) (fastforce simp: passes_def numbered_def)+

lemma passes_visible: "passes b G D st st' \<Longrightarrow> numbered b st \<Longrightarrow> b \<noteq> [] \<Longrightarrow> visible b st' = visible b st \<union> D"
  by (cases b) (fastforce simp: passes_def numbered_def visible_def)+

lemma passes_refl: "passes b {} {} st st"
  by (auto simp: passes_def)

lemma passes_trans:
  assumes "passes b G D st st1" and "passes b G' D' st1 st2" and "numbered b st" and "b \<noteq> []"
  shows "passes b (G \<union> G') (D \<union> D') st st2"
proof -
  from assms(1) obtain X where X: "declared st1 = declared st \<union> Pair (bId (hd b)) ` D \<union> X"
      "\<forall>(k, n) \<in> X. lsBlocks st \<le> k \<and> k < lsBlocks st1" "lsBlocks st \<le> lsBlocks st1"
    by (auto simp: passes_def)
  from assms(2) obtain Y where Y: "declared st2 = declared st1 \<union> Pair (bId (hd b)) ` D' \<union> Y"
      "\<forall>(k, n) \<in> Y. lsBlocks st1 \<le> k \<and> k < lsBlocks st2" "lsBlocks st1 \<le> lsBlocks st2"
    by (auto simp: passes_def)
  have "\<forall>(k, n) \<in> X \<union> Y. lsBlocks st \<le> k \<and> k < lsBlocks st2"
    using X(2,3) Y(2,3) by fastforce
  moreover have "declared st2 = declared st \<union> Pair (bId (hd b)) ` (D \<union> D') \<union> (X \<union> Y)"
    using X(1) Y(1) by auto
  moreover have "fwdNames st2 = (fwdNames st \<union> (G \<union> G' - visible b st)) - (D \<union> D')"
    using assms(1,2) passes_visible [OF assms(1,3,4)] by (auto simp: passes_def)
  ultimately show ?thesis
    using X(3) Y(3) by (auto simp: passes_def)
qed

lemma passes_block:
  assumes inner: "passes (\<lparr>bId = lsBlocks st, bLabel = lstmt\<rparr> # b) G D (enterBlock st) st1"
    and "numbered b st"
  shows "passes b (G - D) {} st (leaveBlock st st1)"
proof -
  have e: "fwdNames (enterBlock st) = {}" "declared (enterBlock st) = declared st" "lsBlocks (enterBlock st) = lsBlocks st + 1"
    by (simp_all add: enterBlock_def fwdNames_def)
  have l: "fwdNames (leaveBlock st st1) = fwdNames st \<union> fwdNames st1" "declared (leaveBlock st st1) = declared st1"
    "lsBlocks (leaveBlock st st1) = lsBlocks st1"
    by (auto simp: leaveBlock_def fwdNames_def)
  have "visible (\<lparr>bId = lsBlocks st, bLabel = lstmt\<rparr> # b) (enterBlock st) = visible b st"
    using assms(2) by (auto simp: visible_def e numbered_def)
  then have f: "fwdNames st1 = (G - visible b st) - D"
    using inner by (simp add: passes_def e)
  from inner obtain X where "declared st1 = declared st \<union> Pair (lsBlocks st) ` D \<union> X"
      "\<forall>(k, n) \<in> X. lsBlocks st + 1 \<le> k \<and> k < lsBlocks st1" "lsBlocks st + 1 \<le> lsBlocks st1"
    by (auto simp: passes_def e)
  then have "declared st1 = declared st \<union> (Pair (lsBlocks st) ` D \<union> X) \<and>
      (\<forall>(k, n) \<in> Pair (lsBlocks st) ` D \<union> X. lsBlocks st \<le> k \<and> k < lsBlocks st1)"
    by fastforce
  then show ?thesis
    using f \<open>lsBlocks st + 1 \<le> lsBlocks st1\<close> unfolding passes_def l
    by (intro conjI exI [of _ "Pair (lsBlocks st) ` D \<union> X"]) auto
qed


lemma passes_label:
  assumes "n \<notin> set (labelNames st)" and "b \<noteq> []"
  shows "passes b {} {n} st (resolveGotos n (declareLabel b (a, n, s) st))"
proof -
  have "declared (resolveGotos n st) = declared st" "lsBlocks (resolveGotos n st) = lsBlocks st" for st
    by (simp_all add: resolveGotos_def Let_def fold_same [of declared] fold_same [of lsBlocks])
  moreover have "declared (declareLabel b (a, n, s) st) = insert (bId (hd b), n) (declared st)"
      "lsBlocks (declareLabel b (a, n, s) st) = lsBlocks st"
    using assms(1) by (auto simp: findLabel_None [symmetric] declareLabel_def declared_def labelName_def)
  ultimately show ?thesis
    by (auto simp: passes_def resolveGotos_fwd intro: exI [of _ "{}"])
qed

lemma passes_goto:
  assumes "distinct (labelNames st)"
  shows "passes b {n} {} st (snd (labeledBranch b Goto n st))"
proof (cases "findLabel n st")
  case None
  then have "n \<notin> visible b st"
    by (auto simp: findLabel_None visible_def declared_def labelNames_def)
  with None show ?thesis
    by (auto simp: labeledBranch_def gotoTarget_def passes_def fwdNames_def)
next
  case (Some l)
  then have l: "l \<in> set (lsLabels st)" "labelName l = n"
    by (auto simp: findLabel_def find_Some_iff)
  have uniq: "l' = l" if "l' \<in> set (lsLabels st)" "labelName l' = n" for l'
    using assms that l by (simp add: labelNames_def distinct_map inj_on_def)
  have "(k, n) \<in> declared st \<longleftrightarrow> k = lParent l" for k
    unfolding declared_def using l uniq by blast
  then have "n \<in> visible b st \<longleftrightarrow> list_ex (\<lambda>p. bId p = lParent l) b"
    by (simp add: visible_def list_ex_iff)
  with Some show ?thesis
    by (auto simp: labeledBranch_def gotoTarget_def passes_def fwdNames_def)
qed

lemma passes_same:
  assumes "declared st' = declared st" "lsBlocks st' = lsBlocks st" "fwdNames st' = fwdNames st"
  shows "passes b {} {} st st'"
  using assms by (auto simp: passes_def)


definition ready :: "labelBlock list \<Rightarrow> labelScope \<Rightarrow> string list \<Rightarrow> bool" where
  "ready b st ns \<longleftrightarrow> numbered b st \<and> b \<noteq> [] \<and> distinct (labelNames st @ ns)"

lemma ready_left: "ready b st (ns @ ms) \<Longrightarrow> ready b st ns"
  by (auto simp: ready_def)

lemma ready_next: "ready b st (ns @ ms) \<Longrightarrow> declares st ns st1 \<Longrightarrow> passes b G D st st1 \<Longrightarrow> ready b st1 ms"
  using passes_numbered [of b G D st st1] by (auto simp: ready_def declares_def Int_Un_distrib split: if_splits)

lemma passes_seq:
  assumes "ready b st (ns @ ms)" and "ready b st ns \<Longrightarrow> passes b G D st st1" and "declares st ns st1"
    and "ready b st1 ms \<Longrightarrow> passes b G' D' st1 st2"
  shows "passes b (G \<union> G') (D \<union> D') st st2"
proof -
  have 1: "passes b G D st st1" by (rule assms(2) [OF ready_left [OF assms(1)]])
  have "passes b G' D' st1 st2" by (rule assms(4) [OF ready_next [OF assms(1,3) 1]])
  then show ?thesis
    using passes_trans [OF 1] assms(1) by (simp add: ready_def)
qed

lemma passes_inBlock:
  assumes "ready b st ns" and "\<And>b' st'. ready b' st' ns \<Longrightarrow> passes b' G D st' (snd (f b' st'))"
  shows "passes b (G - D) {} st (snd (inBlock b lstmt f st))"
proof -
  let ?b = "\<lparr>bId = lsBlocks st, bLabel = lstmt\<rparr> # b"
  have "numbered ?b (enterBlock st)"
    using assms(1) by (fastforce simp: ready_def numbered_def enterBlock_def)
  then have "ready ?b (enterBlock st) ns"
    using assms(1) by (simp add: ready_def)
  from passes_block [OF assms(2) [OF this]] assms(1) show ?thesis
    by (simp add: inBlock_def case_prod_beta ready_def)
qed

lemma branches_pass:
  "ready b st (concat (map labelsOf ss)) \<Longrightarrow>
     passes b (\<Union>s \<in> set ss. freeGotos s) (\<Union>s \<in> set ss. direct s) st (snd (listBranches b ctxt ss st))"
  "ready b st (labelsOf s) \<Longrightarrow> passes b (freeGotos s) (direct s) st (snd (stmtBranches b ctxt isLast lstmt s st))"
  "ready b st (concat (map labelsC cs)) \<Longrightarrow> passes b (\<Union>c \<in> set cs. freeC c) {} st (snd (caseBranches b ctxt lstmt k cs st))"
  "ready b st (concat (map labelsM ms)) \<Longrightarrow> passes b (\<Union>c \<in> set ms. freeM c) {} st (snd (commBranches b ctxt lstmt ms st))"
proof (induction b ctxt ss st and b ctxt isLast lstmt s st and b ctxt lstmt k cs st and b ctxt lstmt ms st
    rule: listBranches_stmtBranches_caseBranches_commBranches.induct)
  case (2 b ctxt s ss st)
  let ?st1 = "snd (stmtBranches b ctxt (trimTrailingEmptyStmts ss = []) None s st)"
  have "passes b (freeGotos s \<union> (\<Union>s \<in> set ss. freeGotos s)) (direct s \<union> (\<Union>s \<in> set ss. direct s)) st (snd (listBranches b ctxt ss ?st1))"
    using 2(3) by (intro passes_seq [OF _ 2(1) branches_declare(2) 2(2) [OF prod.collapse]]) auto
  then show ?case by (simp add: case_prod_beta)
next
  case (4 b ctxt isLast lstmt a n s st)
  let ?st1 = "if n = ''_'' then st else resolveGotos n (declareLabel b (a, n, s) st)"
  let ?l = "if n = ''_'' then lstmt else Some (a, n, s)"
  have "passes b ({} \<union> freeGotos s) ((if n = ''_'' then {} else {n}) \<union> direct s) st (snd (stmtBranches b ctxt isLast ?l s ?st1))"
  proof (rule passes_seq)
    show "ready b st ((if n = ''_'' then [] else [n]) @ labelsOf s)"
      using 4(2) by simp
    show "passes b {} (if n = ''_'' then {} else {n}) st ?st1"
      using 4(2) by (auto simp: passes_refl ready_def intro!: passes_label split: if_splits)
    show "declares st (if n = ''_'' then [] else [n]) ?st1"
      using declareLabel_declares [of st n b a s] by (simp add: declares_def)
    show "ready b ?st1 (labelsOf s) \<Longrightarrow> passes b (freeGotos s) (direct s) ?st1 (snd (stmtBranches b ctxt isLast ?l s ?st1))"
      by (rule 4(1)) simp_all
  qed
  then show ?case by (simp add: case_prod_beta Let_def)
next
  case (5 b ctxt isLast lstmt tok t st)
  have "passes b {} {} st (snd (unlabeledBranch ctxt isLast tok st))"
    by (rule passes_same) (auto simp: unlabeledBranch_def orErrorf_def split: branchTok.split option.split)
  then show ?case by (cases tok) (simp_all add: case_prod_beta)
next
  case (6 b ctxt isLast lstmt tok n t st)
  have "tok \<noteq> Goto \<Longrightarrow> passes b {} {} st (snd (labeledBranch b tok n st))"
    by (rule passes_same; cases tok)
      (simp_all add: labeledBranch_def labeledTarget_def enclosingTarget_def split: option.split prod.split)
  then show ?case
    using passes_goto [of st b n] 6 by (cases tok) (simp_all add: case_prod_beta ready_def)
next
  case (8 b ctxt isLast lstmt a ss st)
  then show ?case by (auto simp: case_prod_beta intro: passes_inBlock)
next
  case (9 b ctxt isLast lstmt x v a ss st)
  then show ?case by (auto simp: case_prod_beta intro: passes_inBlock)
next
  case (10 b ctxt isLast lstmt s c st)
  then show ?case by (auto simp: case_prod_beta intro: passes_inBlock)
next
  case (11 b ctxt isLast lstmt i c a ss e st)
  let ?st1 = "snd (inBlock b lstmt (\<lambda>b'. listBranches b' (nested ctxt) ss) st)"
  have 1: "passes b (freeB (BlockStmt a ss)) {} st ?st1" if "ready b st (concat (map labelsOf ss))"
    using passes_inBlock [OF that 11(1)] by simp
  show ?case
  proof (cases e)
    case None
    with 1 11(3) show ?thesis by (simp add: case_prod_beta)
  next
    case (Some s)
    have 2: "passes b (freeGotos s - direct s) {} ?st1 (snd (inBlock b lstmt (\<lambda>b'. stmtBranches b' (nested ctxt) True None s) ?st1))"
      if "ready b ?st1 (labelsOf s)"
      by (rule passes_inBlock [OF that 11(2) [OF prod.collapse Some]])
    have "passes b (freeB (BlockStmt a ss) \<union> (freeGotos s - direct s)) ({} \<union> {}) st
        (snd (inBlock b lstmt (\<lambda>b'. stmtBranches b' (nested ctxt) True None s) ?st1))"
      using 11(3) Some by (intro passes_seq [OF _ 1 inBlock_declares [OF branches_declare(1)] 2]) simp_all
    then show ?thesis by (simp add: Some case_prod_beta)
  qed
next
  case (12 b ctxt isLast lstmt f i c p a ss st)
  then show ?case by (auto simp: case_prod_beta Let_def intro: passes_inBlock)
next
  case (17 b inner lstmt k c ss cs st)
  let ?st1 = "snd (inBlock b lstmt (\<lambda>b'. listBranches b' (inner\<lparr>caseIndex := k\<rparr>) ss) st)"
  have 1: "passes b (freeC (CaseClause c ss)) {} st ?st1" if "ready b st (concat (map labelsOf ss))"
    using passes_inBlock [OF that 17(1)] by simp
  have "passes b (freeC (CaseClause c ss) \<union> (\<Union>c \<in> set cs. freeC c)) ({} \<union> {}) st (snd (caseBranches b inner lstmt (k + 1) cs ?st1))"
    using 17(3) by (intro passes_seq [OF _ 1 inBlock_declares [OF branches_declare(1)] 17(2) [OF prod.collapse]]) simp_all
  then show ?case by (simp add: case_prod_beta)
next
  case (19 b inner lstmt c ss cs st)
  let ?st1 = "snd (inBlock b lstmt (\<lambda>b'. listBranches b' inner ss) st)"
  have 1: "passes b (freeM (CommClause c ss)) {} st ?st1" if "ready b st (concat (map labelsOf ss))"
    using passes_inBlock [OF that 19(1)] by simp
  have "passes b (freeM (CommClause c ss) \<union> (\<Union>c \<in> set cs. freeM c)) ({} \<union> {}) st (snd (commBranches b inner lstmt cs ?st1))"
    using 19(3) by (intro passes_seq [OF _ 1 inBlock_declares [OF branches_declare(1)] 19(2) [OF prod.collapse]]) simp_all
  then show ?case by (simp add: case_prod_beta)
qed (auto simp: case_prod_beta passes_refl declBranches_def recordVarDecl_def intro: passes_same split: option.split list.split)


section \<open>The diagnostics\<close>

fun isForwardErr :: "branchError \<Rightarrow> bool" where
  "isForwardErr (GotoJumpsInto _) = True"
| "isForwardErr (LabelUndefined _) = True"
| "isForwardErr _ = False"

definition noForward :: "labelScope \<Rightarrow> labelScope \<Rightarrow> bool" where
  "noForward st st' \<longleftrightarrow> filter isForwardErr (lsErrs st') = filter isForwardErr (lsErrs st)"

lemma noForward_simps [simp]:
  "noForward st st" "noForward st (markUsed n st') = noForward st st'"
  "noForward st (fwdGotos_update f st') = noForward st st'"
  "\<not> isForwardErr e \<Longrightarrow> noForward st (branchErrorf e st') = noForward st st'"
  by (simp_all add: noForward_def branchErrorf_def markUsed_def)

lemma fold_noForward: "(\<And>x st'. noForward st st' \<Longrightarrow> noForward st (f x st')) \<Longrightarrow> noForward st st' \<Longrightarrow> noForward st (fold f xs st')"
  by (induction xs arbitrary: st') auto

lemma resolveGotos_noForward: "noForward st (resolveGotos n st)"
proof -
  have "noForward st (fold (\<lambda>g st. if jumpsOverVarDecl st g then branchErrorf (GotoJumpsOver n (the (varName st))) st else st) hits st')"
    if "noForward st st'" for hits st'
    by (rule fold_noForward [OF _ that]) simp
  then show ?thesis by (simp add: resolveGotos_def Let_def)
qed

lemma fallthroughError_forward: "fallthroughError ctxt isLast = Some e \<Longrightarrow> \<not> isForwardErr e"
  by (auto simp: fallthroughError_def split: option.splits stmt.splits if_splits)

interpretation nofwd: branch_steps noForward
proof unfold_locales
  show "noForward st (resolveGotos n st)" for st n by (rule resolveGotos_noForward)
  show "noForward st (snd (labeledBranch b tok n st))" for st b tok n
    by (cases tok) (simp_all add: labeledBranch_def labeledTarget_def enclosingTarget_def gotoTarget_def noForward_def
        branchErrorf_def markUsed_def split: option.split prod.split)
  show "noForward st (snd (unlabeledBranch ctxt isLast tok st))" for st ctxt isLast tok
    by (auto simp: unlabeledBranch_def orErrorf_def noForward_def branchErrorf_def dest: fallthroughError_forward
        split: branchTok.split option.split)
qed (auto simp: noForward_def declareLabel_def branchErrorf_def declBranches_def recordVarDecl_def
    enterBlock_def leaveBlock_def split: option.split list.split)

definition forwardError :: "labelScope \<Rightarrow> string \<Rightarrow> branchError" where
  "forwardError st n = (if n \<in> set (labelNames st) then GotoJumpsInto n else LabelUndefined n)"

lemma reportForward_eq:
  "lsErrs (reportForward g st) = lsErrs st @ [forwardError st (snd g)]" "labelNames (reportForward g st) = labelNames st"
  "lsPanic (reportForward g st) = lsPanic st"
  using findLabel_None [of "snd g" st]
  by (auto simp: reportForward_def forwardError_def branchErrorf_def markUsed_def labelNames_def labelName_def split: option.split)

lemma fold_reportForward:
  "lsErrs (fold reportForward gs st) = lsErrs st @ map (forwardError st \<circ> snd) gs"
  "labelNames (fold reportForward gs st) = labelNames st"
  by (induction gs arbitrary: st) (simp_all add: reportForward_eq forwardError_def fun_eq_iff)

lemma fold_reportUnused:
  "lsErrs (fold reportUnused ls st) = lsErrs st @ map (LabelUnused \<circ> labelName) (filter (\<lambda>l. \<not> lUsed l) ls)"
  by (induction ls arbitrary: st) (simp_all add: reportUnused_def branchErrorf_def)

lemma finishBranches_errs:
  "lsErrs (finishBranches st) = lsErrs st @ map (forwardError st \<circ> snd) (fwdGotos st) @
     map (LabelUnused \<circ> labelName) (filter (\<lambda>l. \<not> lUsed l) (lsLabels (fold reportForward (fwdGotos st) st)))"
  by (simp add: finishBranches_def Let_def fold_reportForward fold_reportUnused)

lemma newScope_names [simp]:
  "labelNames newScope = []" "usedNames newScope = {}" "fwdNames newScope = {}" "redefined newScope = 0" "declared newScope = {}"
  "lsErrs newScope = []"
  by (simp_all add: newScope_def labelNames_def usedNames_def fwdNames_def redefined_def declared_def)

lemma bodyBranches_declare: "declares newScope (concat (map labelsOf ss)) (snd (bodyBranches ss))"
  unfolding bodyBranches_def by (rule inBlock_declares) (rule branches_declare)

lemma bodyBranches_gotos:
  assumes "distinct (concat (map labelsOf ss))"
  shows "fwdNames (snd (bodyBranches ss)) = freeB (BlockStmt a ss)"
proof -
  let ?b = "[\<lparr>bId = lsBlocks newScope, bLabel = None\<rparr>]"
  have "ready ?b (enterBlock newScope) (concat (map labelsOf ss))"
    using assms by (simp add: ready_def numbered_def) (simp add: enterBlock_def)
  from branches_pass(1) [OF this]
  have "fwdNames (leaveBlock newScope (snd (listBranches ?b \<lparr>breaks = None, continues = None, caseIndex = 0\<rparr> ss (enterBlock newScope)))) =
      freeB (BlockStmt a ss)"
    by (auto simp: passes_def visible_def leaveBlock_def enterBlock_def fwdNames_def newScope_def declared_def)
  then show ?thesis
    by (simp add: bodyBranches_def inBlock_def case_prod_beta)
qed

text \<open>
  If the check of a function body reports nothing, its labels are all different and each of
  them is named by a branch statement of the body.
\<close>

theorem checked_labels_used:
  assumes "checkBranches (Some (BlockStmt a ss)) = Some (body', [])"
  shows "distinct (labelsB (BlockStmt a ss)) \<and> set (labelsB (BlockStmt a ss)) \<subseteq> namedB (BlockStmt a ss)"
proof -
  let ?st = "snd (bodyBranches ss)"
  have errs: "lsErrs (finishBranches ?st) = []"
    using assms by (auto elim!: checkBranches_ok)
  then have fwd: "fwdGotos ?st = []" and used: "\<forall>l \<in> set (lsLabels ?st). lUsed l" and "lsErrs ?st = []"
    by (auto simp: finishBranches_errs filter_empty_conv)
  then have "redefined ?st = 0" by (simp add: redefined_def)
  with bodyBranches_declare [of ss] have names: "distinct (concat (map labelsOf ss))" "labelNames ?st = concat (map labelsOf ss)"
    by (auto simp: declares_def split: if_splits)
  have "mentions (\<Union>s \<in> set ss. named s) newScope ?st"
    unfolding bodyBranches_def by (rule inBlock_mentions) (rule branches_mention)
  moreover have "set (labelNames ?st) = usedNames ?st"
    using used by (auto simp: labelNames_def usedNames_def)
  ultimately show ?thesis
    using names by (auto simp: mentions_def)
qed


definition gotoBody :: "stmt list" where
  "gotoBody =
     [BlockS (BlockStmt 1 [BranchStmt Goto (Some ''done'') None]),
      LabeledStmt 2 ''again'' (ForStmt 3 None None None (BlockStmt 4 [BranchStmt Continue (Some ''again'') None])),
      LabeledStmt 5 ''done'' EmptyStmt]"

theorem checked_labels_used_witness:
  "map_option snd (checkBranches (Some (BlockStmt 0 gotoBody))) = Some [] \<and>
   distinct (labelsB (BlockStmt 0 gotoBody)) \<and> set (labelsB (BlockStmt 0 gotoBody)) \<subseteq> namedB (BlockStmt 0 gotoBody)"
proof -
  have "map_option snd (checkBranches (Some (BlockStmt 0 gotoBody))) = Some []"
    by code_simp
  moreover from this obtain body' where "checkBranches (Some (BlockStmt 0 gotoBody)) = Some (body', [])"
    by auto
  ultimately show ?thesis
    using checked_labels_used by blast
qed

text \<open>
  C4: in a body whose labels are all different, the check reports exactly the gotos whose label
  stands neither in the block of the goto nor in one around it: as a jump into a block when the
  body has the label, as an undefined label otherwise.
\<close>

theorem gotos_resolved_exactly:
  assumes "distinct (labelsB (BlockStmt a ss))" and "checkBranches (Some (BlockStmt a ss)) = Some (body', es)"
  shows "(GotoJumpsInto n \<in> set es \<longleftrightarrow> n \<in> freeB (BlockStmt a ss) \<and> n \<in> set (labelsB (BlockStmt a ss))) \<and>
    (LabelUndefined n \<in> set es \<longleftrightarrow> n \<in> freeB (BlockStmt a ss) \<and> n \<notin> set (labelsB (BlockStmt a ss)))"
proof -
  let ?st = "snd (bodyBranches ss)"
  have names: "labelNames ?st = concat (map labelsOf ss)"
    using bodyBranches_declare [of ss] assms(1) by (simp add: declares_def)
  have "noForward newScope ?st"
    unfolding bodyBranches_def by (rule nofwd.inBlock_R) (rule nofwd.branches_R)
  then have none: "GotoJumpsInto n \<notin> set (lsErrs ?st)" "LabelUndefined n \<notin> set (lsErrs ?st)"
    by (auto simp: noForward_def filter_empty_conv)
  have es: "es = lsErrs (finishBranches ?st)"
    by (rule checkBranches_ok [OF assms(2)])
  have "e \<in> set es \<longleftrightarrow> e \<in> set (lsErrs ?st) \<or> e \<in> forwardError ?st ` fwdNames ?st" if "\<forall>m. e \<noteq> LabelUnused m" for e
    using that by (auto simp: es fwdNames_def finishBranches_errs image_image)
  with none show ?thesis
    using bodyBranches_gotos [of ss a] assms(1) names by (auto simp: forwardError_def)
qed


definition jumpBody :: "stmt list" where
  "jumpBody =
     [BranchStmt Goto (Some ''in'') None, BranchStmt Goto (Some ''gone'') None,
      BlockS (BlockStmt 1 [LabeledStmt 2 ''in'' EmptyStmt])]"

theorem gotos_resolved_exactly_witness:
  "map_option snd (checkBranches (Some (BlockStmt 0 jumpBody))) = Some [GotoJumpsInto ''in'', LabelUndefined ''gone''] \<and>
   freeB (BlockStmt 0 jumpBody) = {''in'', ''gone''} \<and>
   (GotoJumpsInto ''in'' \<in> {GotoJumpsInto ''in'', LabelUndefined ''gone''} \<longleftrightarrow>
     ''in'' \<in> freeB (BlockStmt 0 jumpBody) \<and> ''in'' \<in> set (labelsB (BlockStmt 0 jumpBody)))"
proof -
  have 1: "map_option snd (checkBranches (Some (BlockStmt 0 jumpBody))) = Some [GotoJumpsInto ''in'', LabelUndefined ''gone'']"
    by code_simp
  then obtain body' where "checkBranches (Some (BlockStmt 0 jumpBody)) = Some (body', [GotoJumpsInto ''in'', LabelUndefined ''gone''])"
    by auto
  from gotos_resolved_exactly [OF _ this, of "''in''"] 1 show ?thesis
    by (auto simp: jumpBody_def)
qed

end
