(* ===== verification/RcCount.thy ===== *)
theory RcCount
  imports Prelude "HOL-Library.Word" "HOL-Library.Multiset"
begin

text \<open>
  \<^verbatim>\<open>src/src/runtime/forgo_rc.go\<close>: the reference counts of nogc objects. The memory is a map from
  the addresses of objects to their header word and the fields their type's descriptor
  (\<^verbatim>\<open>fgoRCDesc\<close>) lists, each with its word offset; \<open>rcMixed\<close> tells the types that also have
  fields for GC values (\<^verbatim>\<open>fgoRCIsMixed\<close>). A buffer is owned by one field and is part of
  it. The state byte of an object is kept with it; \<open>freedMem\<close> lists the objects whose memory
  went back to the allocator, which \<open>RcAlloc\<close> models. Reading the header of an address that
  holds no object is the value \<open>None\<close>.
\<close>

unbundle bit_operations_syntax

section \<open>Objects\<close>

type_synonym uintptr = "64 word"

definition fgoHeld :: uintptr where
  "fgoHeld = push_bit 63 1"

definition fgoSharedBit :: uintptr where
  "fgoSharedBit = push_bit 62 1"

datatype rcState = SNone | SCounted | SHanded | SShared

datatype rcField = PtrF uintptr | PtrsF "uintptr list" | StrF string

record rcObj =
  rc :: uintptr
  rcMark :: rcState
  rcFields :: "(nat \<times> rcField) list"
  rcMixed :: bool

record rcMem =
  objs :: "uintptr \<Rightarrow> rcObj option"
  freedMem :: "uintptr list"

definition putObj :: "uintptr \<Rightarrow> rcObj \<Rightarrow> rcMem \<Rightarrow> rcMem" where
  "putObj p x m = m\<lparr>objs := (objs m)(p \<mapsto> x)\<rparr>"

definition fgoState :: "rcMem \<Rightarrow> uintptr \<Rightarrow> rcState" where
  "fgoState m p = (case objs m p of None \<Rightarrow> SNone | Some x \<Rightarrow> rcMark x)"

section \<open>Releasing\<close>

definition fgoDecChild :: "uintptr \<Rightarrow> rcMem \<times> uintptr \<Rightarrow> (rcMem \<times> uintptr) option" where
  "fgoDecChild c mp =
     (case mp of (m, pending) \<Rightarrow>
      if c = 0 then Some (m, pending)
      else case objs m c of
        None \<Rightarrow> None
      | Some x \<Rightarrow>
          (let less = x\<lparr>rc := rc x - 1\<rparr> in
           if rc x AND fgoHeld \<noteq> 0 then Some (putObj c less m, pending)
           else if rc x AND fgoSharedBit \<noteq> 0 then
             (if rc less \<noteq> fgoSharedBit then Some (putObj c less m, pending)
              else Some (putObj c (x\<lparr>rc := pending\<rparr>) m, c))
           else if rc less = 0 then Some (putObj c (x\<lparr>rc := pending\<rparr>) m, c)
           else Some (putObj c less m, pending)))"

fun forAll :: "('a \<Rightarrow> 's \<Rightarrow> 's option) \<Rightarrow> 'a list \<Rightarrow> 's \<Rightarrow> 's option" where
  "forAll f [] s = Some s"
| "forAll f (x # xs) s = Option.bind (f x s) (forAll f xs)"

text \<open>\<open>fgoReleaseBuf\<close> drops the references of a slice; a string's buffer holds none.\<close>

fun releaseField :: "rcField \<Rightarrow> rcMem \<times> uintptr \<Rightarrow> (rcMem \<times> uintptr) option" where
  "releaseField (PtrF c) mp = fgoDecChild c mp"
| "releaseField (PtrsF cs) mp = forAll fgoDecChild cs mp"
| "releaseField (StrF s) mp = Some mp"

definition freeObj :: "uintptr \<Rightarrow> bool \<Rightarrow> rcMem \<Rightarrow> rcMem" where
  "freeObj p free m = m\<lparr>objs := (objs m)(p := None), freedMem := freedMem m @ (if free then [p] else [])\<rparr>"

partial_function (option) releaseLoop :: "uintptr \<Rightarrow> bool \<Rightarrow> rcMem \<times> uintptr \<Rightarrow> rcMem option" where
  [code]: "releaseLoop p free mp =
     Option.bind (objs (fst mp) p) (\<lambda>x.
     Option.bind (forAll (\<lambda>f. releaseField (snd f)) (rcFields x) mp) (\<lambda>mp1.
       let m = freeObj p free (fst mp1) in
       if snd mp1 = 0 then Some m
       else Option.bind (objs m (snd mp1)) (\<lambda>y. releaseLoop (snd mp1) True (m, rc y))))"

definition fgoRCRelease :: "uintptr \<Rightarrow> bool \<Rightarrow> rcMem \<Rightarrow> rcMem option" where
  "fgoRCRelease p free m = releaseLoop p free (m, 0)"

section \<open>Counting\<close>

definition addRC :: "uintptr \<Rightarrow> uintptr \<Rightarrow> rcMem \<Rightarrow> rcMem" where
  "addRC d p m = (case objs m p of None \<Rightarrow> m | Some x \<Rightarrow> putObj p (x\<lparr>rc := rc x + d\<rparr>) m)"

definition fgoRCInc :: "uintptr \<Rightarrow> rcMem \<Rightarrow> rcMem" where
  "fgoRCInc p m = (if fgoState m p = SNone then m else addRC 1 p m)"

definition hdrRC :: "rcMem \<Rightarrow> uintptr \<Rightarrow> uintptr" where
  "hdrRC m p = (case objs m p of None \<Rightarrow> 0 | Some x \<Rightarrow> rc x)"

definition fgoSharedDec :: "uintptr \<Rightarrow> rcMem \<Rightarrow> rcMem option" where
  "fgoSharedDec p m =
     (let m1 = addRC (-1) p m in if hdrRC m1 p = fgoSharedBit then fgoRCRelease p True m1 else Some m1)"

definition fgoRCDec :: "uintptr \<Rightarrow> rcMem \<Rightarrow> rcMem option" where
  "fgoRCDec p m =
     (case fgoState m p of
        SCounted \<Rightarrow> (let m1 = addRC (-1) p m in if hdrRC m1 p = 0 then fgoRCRelease p True m1 else Some m1)
      | SHanded \<Rightarrow> Some (addRC (-1) p m)
      | SShared \<Rightarrow> fgoSharedDec p m
      | SNone \<Rightarrow> Some m)"

definition fgoUnique :: "rcMem \<Rightarrow> uintptr \<Rightarrow> bool" where
  "fgoUnique m p = (fgoState m p = SCounted \<and> hdrRC m p = 1)"


section \<open>Counts are exact\<close>

text \<open>
  The invariant: the count of each object is the number of references to it, those in the fields
  of the other objects together with the multiset \<open>R\<close> of the references held elsewhere (by frames,
  by tagged fields of GC objects). The fields of an object handed to the GC are not counted.
\<close>

fun fieldRefs :: "rcField \<Rightarrow> uintptr list" where
  "fieldRefs (PtrF c) = [c]"
| "fieldRefs (PtrsF cs) = cs"
| "fieldRefs (StrF s) = []"

definition slots :: "rcObj \<Rightarrow> uintptr list" where
  "slots x = concat (map (\<lambda>f. fieldRefs (snd f)) (rcFields x))"

definition live :: "uintptr list \<Rightarrow> uintptr multiset" where
  "live cs = mset (filter (\<lambda>c. c \<noteq> 0) cs)"

definition kids :: "rcObj \<Rightarrow> uintptr multiset" where
  "kids x = (if rcMark x = SHanded then {#} else live (slots x))"

definition refsOf :: "rcMem \<Rightarrow> uintptr set \<Rightarrow> uintptr multiset" where
  "refsOf m A = (\<Sum>p \<in> A. kids (the (objs m p)))"

fun flagOf :: "rcState \<Rightarrow> nat" where
  "flagOf SHanded = 2 ^ 63"
| "flagOf SShared = 2 ^ 62"
| "flagOf _ = 0"

definition exact :: "uintptr multiset \<Rightarrow> uintptr \<Rightarrow> rcObj \<Rightarrow> bool" where
  "exact T p x \<longleftrightarrow> rcMark x \<noteq> SNone \<and> rc x = of_nat (flagOf (rcMark x) + count T p) \<and>
     (rcMark x \<noteq> SHanded \<longrightarrow> count T p > 0)"

definition rcOk :: "rcMem \<Rightarrow> uintptr multiset \<Rightarrow> bool" where
  "rcOk m R \<longleftrightarrow> finite (dom (objs m)) \<and> 0 \<notin> dom (objs m) \<and>
     size (refsOf m (dom (objs m)) + R) < 2 ^ 62 \<and> set_mset (refsOf m (dom (objs m)) + R) \<subseteq> dom (objs m) \<and>
     (\<forall>p x. objs m p = Some x \<longrightarrow> exact (refsOf m (dom (objs m)) + R) p x)"

section \<open>Flags\<close>

lemma flag_tests:
  fixes n :: nat assumes "n < 2 ^ 62"
  shows "(of_nat (flagOf t + n) :: uintptr) AND fgoHeld = 0 \<longleftrightarrow> t \<noteq> SHanded"
    and "t \<noteq> SHanded \<Longrightarrow> (of_nat (flagOf t + n) :: uintptr) AND fgoSharedBit = 0 \<longleftrightarrow> t \<noteq> SShared"
proof -
  have and_bit: "x AND push_bit k 1 = 0 \<longleftrightarrow> \<not> bit x k" if "k < 64" for x :: uintptr and k
    using and_exp_eq_0_iff_not_bit [of x k] by (simp add: push_bit_eq_mult)
  have test: "(of_nat j :: uintptr) AND push_bit k 1 = 0 \<longleftrightarrow> even (j div 2 ^ k)" if "k < 64" for j k
    unfolding and_bit [OF that] using that by (simp add: bit_of_nat_iff possible_bit_word) (simp add: bit_iff_odd)
  have d: "n div 2 ^ 62 = 0" "n div 2 ^ 63 = 0" "(2 ^ 62 + n) div 2 ^ 63 = 0" "(2 ^ 62 + n) div 2 ^ 62 = 1" "(2 ^ 63 + n) div 2 ^ 63 = 1"
    using assms by (auto intro!: div_nat_eqI)
  show "(of_nat (flagOf t + n) :: uintptr) AND fgoHeld = 0 \<longleftrightarrow> t \<noteq> SHanded"
    by (cases t) (simp_all only: fgoHeld_def test flagOf.simps d, simp_all add: d [simplified])
  show "t \<noteq> SHanded \<Longrightarrow> (of_nat (flagOf t + n) :: uintptr) AND fgoSharedBit = 0 \<longleftrightarrow> t \<noteq> SShared"
    by (cases t) (simp_all only: fgoSharedBit_def test flagOf.simps d, simp_all add: d [simplified])
qed

lemma of_nat_inj: "n < 2 ^ 64 \<Longrightarrow> k < 2 ^ 64 \<Longrightarrow> (of_nat n :: uintptr) = of_nat k \<longleftrightarrow> n = k"
  by (simp add: word_of_nat_eq_iff take_bit_nat_eq_self)


lemma fgo_flags: "fgoHeld = of_nat (flagOf SHanded)" "fgoSharedBit = of_nat (flagOf SShared)"
  by (simp_all add: fgoHeld_def fgoSharedBit_def push_bit_eq_mult)

lemma flagOf_bound: "flagOf t \<le> 2 ^ 63"
  by (cases t) simp_all

section \<open>Dropping references\<close>

text \<open>The objects waiting to be released, linked through their count words from \<open>pending\<close>.\<close>

fun chain :: "rcMem \<Rightarrow> uintptr \<Rightarrow> uintptr list \<Rightarrow> bool" where
  "chain m pending [] \<longleftrightarrow> pending = 0"
| "chain m pending (p # ps) \<longleftrightarrow> pending = p \<and> (\<exists>x. objs m p = Some x \<and> rcMark x \<noteq> SHanded \<and> chain m (rc x) ps)"

definition sameShape :: "rcMem \<Rightarrow> rcMem \<Rightarrow> bool" where
  "sameShape m m' \<longleftrightarrow> freedMem m' = freedMem m \<and> dom (objs m') = dom (objs m) \<and>
     (\<forall>p x x'. objs m p = Some x \<longrightarrow> objs m' p = Some x' \<longrightarrow> rcMark x' = rcMark x \<and> rcFields x' = rcFields x)"

text \<open>While the references \<open>cs\<close> of \<open>p\<close> are being dropped, \<open>p\<close> and the pending objects \<open>ps\<close> are
  referenced from nowhere and the other counts are exact.\<close>

definition allRefs :: "rcMem \<Rightarrow> uintptr \<Rightarrow> uintptr list \<Rightarrow> uintptr multiset \<Rightarrow> uintptr multiset" where
  "allRefs m p cs R = refsOf m (dom (objs m) - {p}) + live cs + R"

definition dying :: "rcMem \<Rightarrow> uintptr \<Rightarrow> uintptr list \<Rightarrow> uintptr list \<Rightarrow> uintptr multiset \<Rightarrow> bool" where
  "dying m p ps cs R \<longleftrightarrow> finite (dom (objs m)) \<and> 0 \<notin> dom (objs m) \<and> p \<in> dom (objs m) \<and> distinct (p # ps) \<and>
     size (allRefs m p cs R) < 2 ^ 62 \<and> set_mset (allRefs m p cs R) \<subseteq> dom (objs m) - set (p # ps) \<and>
     (\<forall>q x. objs m q = Some x \<longrightarrow> q \<notin> set (p # ps) \<longrightarrow> exact (allRefs m p cs R) q x)"

lemma sameShape_refl [simp]: "sameShape m m"
  by (simp add: sameShape_def)

lemma sameShape_trans: "sameShape m m1 \<Longrightarrow> sameShape m1 m2 \<Longrightarrow> sameShape m m2"
  unfolding sameShape_def by (metis domD domI)

lemma sameShape_put: "objs m c = Some x \<Longrightarrow> sameShape m (putObj c (x\<lparr>rc := r\<rparr>) m)"
  by (auto simp: sameShape_def putObj_def)

lemma sameShape_kids:
  assumes "sameShape m m'" and "p \<in> dom (objs m)"
  shows "kids (the (objs m' p)) = kids (the (objs m p))"
proof -
  obtain x where x: "objs m p = Some x" using assms(2) by auto
  moreover have "p \<in> dom (objs m')" using assms by (simp add: sameShape_def)
  then obtain x' where x': "objs m' p = Some x'" by auto
  ultimately show ?thesis
    using assms(1) by (auto simp: sameShape_def kids_def slots_def)
qed

lemma sameShape_allRefs: "sameShape m m' \<Longrightarrow> allRefs m' p cs R = allRefs m p cs R"
  using sameShape_kids [of m m'] by (auto simp: sameShape_def allRefs_def refsOf_def intro!: sum.cong)

lemma chain_putObj: "q \<notin> set ps \<Longrightarrow> chain (putObj q x m) pending ps \<longleftrightarrow> chain m pending ps"
  by (induction ps arbitrary: pending) (auto simp: putObj_def)

text \<open>The count word of a child, and what the tests of \<^verbatim>\<open>fgoDecChild\<close> decide on it.\<close>

lemma count_dec:
  assumes "count T c = Suc n" and "exact T c x" and "size T < 2 ^ 62"
  shows "rc x - 1 = of_nat (flagOf (rcMark x) + n)"
    and "rc x AND fgoHeld = 0 \<longleftrightarrow> rcMark x \<noteq> SHanded"
    and "rcMark x \<noteq> SHanded \<Longrightarrow> rc x AND fgoSharedBit = 0 \<longleftrightarrow> rcMark x \<noteq> SShared"
    and "rcMark x = SShared \<Longrightarrow> rc x - 1 = fgoSharedBit \<longleftrightarrow> n = 0"
    and "rcMark x = SCounted \<Longrightarrow> rc x - 1 = 0 \<longleftrightarrow> n = 0"
proof -
  have le: "count T c \<le> size T" by (rule count_le_size)
  with assms have n: "Suc n < 2 ^ 62" by linarith
  have rc: "rc x = of_nat (flagOf (rcMark x) + Suc n)"
    using assms(1,2) by (simp add: exact_def)
  then show less: "rc x - 1 = of_nat (flagOf (rcMark x) + n)" by simp
  show "rc x AND fgoHeld = 0 \<longleftrightarrow> rcMark x \<noteq> SHanded"
    unfolding rc by (rule flag_tests [OF n])
  show "rcMark x \<noteq> SHanded \<Longrightarrow> rc x AND fgoSharedBit = 0 \<longleftrightarrow> rcMark x \<noteq> SShared"
    unfolding rc by (rule flag_tests [OF n])
  show "rcMark x = SShared \<Longrightarrow> rc x - 1 = fgoSharedBit \<longleftrightarrow> n = 0"
    unfolding less fgo_flags using n by (subst of_nat_inj) simp_all
  show "rcMark x = SCounted \<Longrightarrow> rc x - 1 = 0 \<longleftrightarrow> n = 0"
    unfolding less using n of_nat_inj [of n 0] by simp
qed


lemma live_Nil [simp]: "live [] = {#}"
  by (simp add: live_def)

lemma live_Cons: "live (c # cs) = (if c = 0 then {#} else {#c#}) + live cs"
  by (simp add: live_def)

text \<open>Dropping one reference.\<close>

lemma fgoDecChild_dying:
  assumes inv: "dying m p ps (c # cs) R" and ch: "chain m pending ps"
  obtains m' pending' ps' where "fgoDecChild c (m, pending) = Some (m', pending')"
    and "dying m' p ps' cs R" and "chain m' pending' ps'" and "sameShape m m'"
proof (cases "c = 0")
  case True
  show ?thesis
    by (rule that [of m pending ps]) (use True inv ch in \<open>simp_all add: fgoDecChild_def dying_def allRefs_def live_Cons\<close>)
next
  case False
  let ?T = "allRefs m p cs R"
  have T: "allRefs m p (c # cs) R = add_mset c ?T"
    using False by (simp add: allRefs_def live_Cons)
  have c: "c \<in> dom (objs m)" "c \<notin> set (p # ps)"
    using inv by (auto simp: dying_def T)
  then obtain x where x: "objs m c = Some x" by auto
  have ex: "exact (add_mset c ?T) c x" and size: "size (add_mset c ?T) < 2 ^ 62"
    using inv x c by (auto simp: dying_def T)
  have n: "count (add_mset c ?T) c = Suc (count ?T c)" by simp
  note tests = count_dec [OF n ex size]
  have others: "exact ?T q y" if "objs m q = Some y" "q \<notin> set (p # ps)" "q \<noteq> c" for q y
  proof -
    have "exact (add_mset c ?T) q y"
      using inv that(1,2) unfolding dying_def T by blast
    then show ?thesis using that(3) by (simp add: exact_def)
  qed
  let ?less = "putObj c (x\<lparr>rc := rc x - 1\<rparr>) m"
  let ?last = "putObj c (x\<lparr>rc := pending\<rparr>) m"
  have dom: "dom (objs (putObj c y m)) = dom (objs m)" for y
    using c(1) by (auto simp: putObj_def)
  have dec: "fgoDecChild c (m, pending) =
      (if rcMark x \<noteq> SHanded \<and> count ?T c = 0 then Some (?last, c) else Some (?less, pending))"
    using False x tests(2-) ex by (cases "rcMark x") (simp_all add: fgoDecChild_def Let_def exact_def count_eq_zero_iff)
  show ?thesis
  proof (cases "rcMark x \<noteq> SHanded \<and> count ?T c = 0")
    case True
    show ?thesis
    proof (rule that)
      show "fgoDecChild c (m, pending) = Some (?last, c)"
        unfolding dec using True by (rule if_P)
      have "allRefs ?last p cs R = ?T" by (rule sameShape_allRefs [OF sameShape_put [OF x]])
      moreover have "c \<notin># ?T" using True by (simp add: not_in_iff)
      ultimately show "dying ?last p (c # ps) cs R"
        using inv c others by (auto simp: dying_def T dom) (auto simp: putObj_def)
      show "chain ?last c (c # ps)"
        using True ch c(2) by (auto simp: chain_putObj) (simp add: putObj_def)
      show "sameShape m ?last" by (rule sameShape_put [OF x])
    qed
  next
    case no: False
    show ?thesis
    proof (rule that)
      show "fgoDecChild c (m, pending) = Some (?less, pending)"
        unfolding dec using no by (rule if_not_P)
      have "allRefs ?less p cs R = ?T" by (rule sameShape_allRefs [OF sameShape_put [OF x]])
      moreover have "exact ?T c (x\<lparr>rc := rc x - 1\<rparr>)"
        using no ex tests(1) by (auto simp: exact_def)
      ultimately show "dying ?less p ps cs R"
        using inv c others by (auto simp: dying_def T dom) (auto simp: putObj_def split: if_splits)
      show "chain ?less pending ps"
        using ch c(2) by (simp add: chain_putObj)
      show "sameShape m ?less" by (rule sameShape_put [OF x])
    qed
  qed
qed


lemma forAll_append: "forAll f (xs @ ys) s = Option.bind (forAll f xs s) (forAll f ys)"
  by (induction xs arbitrary: s) (simp_all split: Option.bind_split)

lemma releaseFields: "forAll (\<lambda>f. releaseField (snd f)) fs mp = forAll fgoDecChild (concat (map (\<lambda>f. fieldRefs (snd f)) fs)) mp"
proof (induction fs arbitrary: mp)
  case (Cons f fs)
  have "releaseField (snd f) mp = forAll fgoDecChild (fieldRefs (snd f)) mp"
    by (cases "snd f") (simp_all split: Option.bind_split)
  moreover have "forAll (\<lambda>f. releaseField (snd f)) fs = forAll fgoDecChild (concat (map (\<lambda>f. fieldRefs (snd f)) fs))"
    by (rule ext) (rule Cons)
  ultimately show ?case by (simp add: forAll_append)
qed simp

lemma fgoDecChildren_dying:
  assumes "dying m p ps (cs @ ds) R" and "chain m pending ps"
  obtains m' pending' ps' where "forAll fgoDecChild cs (m, pending) = Some (m', pending')"
    and "dying m' p ps' ds R" and "chain m' pending' ps'" and "sameShape m m'"
  using assms
proof (induction cs arbitrary: m pending ps thesis)
  case Nil
  then show ?case by auto
next
  case (Cons c cs)
  obtain m1 pending1 ps1 where 1: "fgoDecChild c (m, pending) = Some (m1, pending1)" "dying m1 p ps1 (cs @ ds) R"
      "chain m1 pending1 ps1" "sameShape m m1"
    using fgoDecChild_dying [of m p ps c "cs @ ds" R pending] Cons.prems(2,3) by auto
  obtain m2 pending2 ps2 where 2: "forAll fgoDecChild cs (m1, pending1) = Some (m2, pending2)" "dying m2 p ps2 ds R"
      "chain m2 pending2 ps2" "sameShape m1 m2"
    using Cons.IH [OF _ 1(2,3)] by blast
  show ?case
    by (rule Cons.prems(1) [OF _ 2(2,3) sameShape_trans [OF 1(4) 2(4)]]) (simp add: 1(1) 2(1))
qed

text \<open>Freeing \<open>p\<close> once its references are dropped, and turning to the next pending object.\<close>

lemma kids_live: "rcMark x \<noteq> SHanded \<Longrightarrow> kids x = live (slots x)"
  by (simp add: kids_def)

lemma freeObj_refs: "finite (dom (objs m)) \<Longrightarrow> refsOf (freeObj p free m) (dom (objs m) - {p} - A) = refsOf m (dom (objs m) - {p} - A)"
  by (auto simp: refsOf_def freeObj_def intro!: sum.cong)

lemma freeObj_dom: "dom (objs (freeObj p free m)) = dom (objs m) - {p}"
  by (auto simp: freeObj_def)

lemma chain_free: "p \<notin> set ps \<Longrightarrow> chain (freeObj p free m) pending ps \<longleftrightarrow> chain m pending ps"
  by (induction ps arbitrary: pending) (auto simp: freeObj_def)

lemma free_last:
  assumes "dying m p [] [] R"
  shows "rcOk (freeObj p free m) R"
proof -
  have fin: "finite (dom (objs m))" using assms by (simp add: dying_def)
  have "refsOf (freeObj p free m) (dom (objs (freeObj p free m))) + R = allRefs m p [] R"
    using freeObj_refs [OF fin, of p free "{}"] by (simp add: allRefs_def live_def freeObj_dom)
  then show ?thesis
    using assms by (auto simp: dying_def rcOk_def freeObj_dom) (auto simp: freeObj_def split: if_splits)
qed

lemma free_next:
  assumes inv: "dying m p (q # ps) [] R" and "objs m q = Some y" and "rcMark y \<noteq> SHanded"
  shows "dying (freeObj p free m) q ps (slots y) R"
proof -
  have fin: "finite (dom (objs m))" and pq: "p \<noteq> q" using inv by (simp_all add: dying_def)
  have "dom (objs m) - {p} = insert q (dom (objs m) - {p} - {q})"
    using assms(2) pq by auto
  then have "refsOf m (dom (objs m) - {p}) = kids y + refsOf m (dom (objs m) - {p} - {q})"
    using fin assms(2) by (metis finite_Diff insert_Diff_single Diff_iff insertI1 option.sel refsOf_def sum.insert)
  then have "allRefs (freeObj p free m) q (slots y) R = allRefs m p [] R"
    using freeObj_refs [OF fin, of p free "{q}"] assms(3) by (simp add: allRefs_def live_def freeObj_dom kids_def)
  then show ?thesis
    using inv assms(2) by (auto simp: dying_def freeObj_dom) (auto simp: freeObj_def split: if_splits)
qed


text \<open>The objects of \<open>m'\<close> are those of \<open>m\<close>, with other counts, less those whose memory was freed.\<close>

definition shrinks :: "uintptr set \<Rightarrow> rcMem \<Rightarrow> rcMem \<Rightarrow> bool" where
  "shrinks K m m' \<longleftrightarrow> dom (objs m') \<subseteq> dom (objs m) \<and>
     (\<forall>q x x'. objs m q = Some x \<longrightarrow> objs m' q = Some x' \<longrightarrow> rcMark x' = rcMark x \<and> rcFields x' = rcFields x) \<and>
     (\<exists>fs. freedMem m' = freedMem m @ fs \<and> distinct fs \<and> set fs = dom (objs m) - dom (objs m') - K)"

lemma shrinks_shape: "sameShape m m1 \<Longrightarrow> shrinks K m1 m' \<Longrightarrow> shrinks K m m'"
proof -
  assume shape: "sameShape m m1" and rest: "shrinks K m1 m'"
  then have dom: "dom (objs m1) = dom (objs m)" and freed: "freedMem m1 = freedMem m"
    by (simp_all add: sameShape_def)
  have "rcMark x' = rcMark x \<and> rcFields x' = rcFields x" if x: "objs m q = Some x" "objs m' q = Some x'" for q x x'
  proof -
    have "q \<in> dom (objs m1)" using x(1) dom by auto
    then obtain y where "objs m1 q = Some y" by auto
    then show ?thesis using shape rest x by (auto simp: sameShape_def shrinks_def)
  qed
  with rest dom freed show ?thesis by (simp add: shrinks_def)
qed

lemma shrinks_free:
  assumes "objs m p \<noteq> None" and "shrinks {} (freeObj p free m) m'"
  shows "shrinks (if free then {} else {p}) m m'"
proof -
  obtain fs where fs: "freedMem m' = freedMem m @ (if free then [p] else []) @ fs" "distinct fs"
      "set fs = dom (objs m) - {p} - dom (objs m')"
    using assms(2) by (auto simp: shrinks_def freeObj_dom freeObj_def)
  have sub: "dom (objs m') \<subseteq> dom (objs m) - {p}"
    using assms(2) by (simp add: shrinks_def freeObj_dom)
  have shape: "rcMark x' = rcMark x \<and> rcFields x' = rcFields x"
    if "objs m q = Some x" "objs m' q = Some x'" for q x x'
  proof -
    have "objs (freeObj p free m) q = Some x" using that sub by (auto simp: freeObj_def)
    then show ?thesis using assms(2) that(2) by (auto simp: shrinks_def)
  qed
  have "set ((if free then [p] else []) @ fs) = dom (objs m) - dom (objs m') - (if free then {} else {p})"
    using fs(3) sub assms(1) by auto
  moreover have "distinct ((if free then [p] else []) @ fs)"
    using fs(2,3) by auto
  ultimately have "\<exists>gs. freedMem m' = freedMem m @ gs \<and> distinct gs \<and> set gs = dom (objs m) - dom (objs m') - (if free then {} else {p})"
    using fs(1) by blast
  then show ?thesis
    unfolding shrinks_def using sub shape by blast
qed

lemma shrinks_refl [simp]: "shrinks {} m m"
  by (simp add: shrinks_def)

text \<open>Objects of the garbage collector are not released.\<close>

definition handedObjs :: "rcMem \<Rightarrow> uintptr set" where
  "handedObjs m = {q. \<exists>x. objs m q = Some x \<and> rcMark x = SHanded}"

lemma handedObjs_dom: "handedObjs m \<subseteq> dom (objs m)"
  by (auto simp: handedObjs_def)

lemma handedObjs_free: "handedObjs (freeObj p free m) = handedObjs m - {p}"
  by (auto simp: handedObjs_def freeObj_def)

lemma handedObjs_shape:
  assumes "sameShape m m'"
  shows "handedObjs m' = handedObjs m"
proof -
  have "objs m q = None \<longleftrightarrow> objs m' q = None" for q using assms unfolding sameShape_def by blast
  then show ?thesis using assms by (fastforce simp: handedObjs_def sameShape_def)
qed

lemma releaseLoop_ok:
  assumes "dying m p ps (slots x) R" and "objs m p = Some x" and "chain m pending ps"
  shows "\<exists>m'. releaseLoop p free (m, pending) = Some m' \<and> rcOk m' R \<and> shrinks (if free then {} else {p}) m m' \<and> p \<notin> dom (objs m') \<and>
    handedObjs m - {p} \<subseteq> dom (objs m')"
  using assms
proof (induction "card (dom (objs m))" arbitrary: m p ps x pending free rule: less_induct)
  case less
  obtain m1 pending1 ps1 where drop: "forAll fgoDecChild (slots x) (m, pending) = Some (m1, pending1)"
      and inv: "dying m1 p ps1 [] R" and ch: "chain m1 pending1 ps1" and shape: "sameShape m m1"
    using fgoDecChildren_dying [of m p ps "slots x" "[]" R pending] less.prems by auto
  let ?m = "freeObj p free m1"
  have p: "objs m1 p \<noteq> None" using inv by (auto simp: dying_def)
  have handed: "handedObjs ?m = handedObjs m - {p}" by (simp add: handedObjs_free handedObjs_shape [OF shape])
  have loop: "releaseLoop p free (m, pending) =
      (if pending1 = 0 then Some ?m else Option.bind (objs ?m pending1) (\<lambda>y. releaseLoop pending1 True (?m, rc y)))"
    using less.prems(2) drop by (subst releaseLoop.simps) (simp add: releaseFields slots_def Let_def)
  show ?case
  proof (cases ps1)
    case Nil
    then have "rcOk ?m R" using inv by (simp add: free_last)
    moreover have "releaseLoop p free (m, pending) = Some ?m" "p \<notin> dom (objs ?m)"
      using loop ch Nil by (simp_all add: freeObj_dom)
    moreover have "handedObjs m - {p} \<subseteq> dom (objs ?m)" unfolding handed [symmetric] by (rule handedObjs_dom)
    ultimately show ?thesis
      using shrinks_shape [OF shape shrinks_free [OF p shrinks_refl]] by blast
  next
    case (Cons q ps2)
    then obtain y where y: "objs m1 q = Some y" "rcMark y \<noteq> SHanded" "chain m1 (rc y) ps2" "pending1 = q"
      using ch by auto
    have q: "q \<noteq> p" "q \<noteq> 0" "p \<notin> set ps2" using inv y(1) Cons by (auto simp: dying_def)
    have next_: "dying ?m q ps2 (slots y) R"
      by (rule free_next [OF _ y(1,2)]) (use inv Cons in simp)
    have y': "objs ?m q = Some y" using y(1) q(1) by (simp add: freeObj_def)
    have ch': "chain ?m (rc y) ps2" using y(3) q(3) by (simp add: chain_free)
    have fin: "finite (dom (objs m))" using less.prems(1) by (simp add: dying_def)
    have "dom (objs ?m) = dom (objs m) - {p}" using shape by (simp add: freeObj_dom sameShape_def)
    then have "card (dom (objs ?m)) < card (dom (objs m))"
      using card_Diff1_less [OF fin domI [of "objs m" p x, OF less.prems(2)]] by simp
    from less.hyps [OF this next_ y' ch', of True]
    obtain m' where m': "releaseLoop q True (?m, rc y) = Some m'" "rcOk m' R" "shrinks {} ?m m'"
      "handedObjs ?m - {q} \<subseteq> dom (objs m')" by auto
    have "releaseLoop p free (m, pending) = Some m'"
      using loop y(4) y' q(2) m'(1) by simp
    moreover have "p \<notin> dom (objs m')" using m'(3) by (auto simp: shrinks_def freeObj_dom)
    moreover have "q \<notin> handedObjs ?m" using y' y(2) by (simp add: handedObjs_def)
    then have "handedObjs m - {p} \<subseteq> dom (objs m')" using m'(4) handed by auto
    ultimately show ?thesis using m'(2) shrinks_shape [OF shape shrinks_free [OF p m'(3)]] by blast
  qed
qed


section \<open>Incrementing and decrementing\<close>

lemma rcOk_object: "rcOk m R \<Longrightarrow> p \<in># R \<Longrightarrow> \<exists>x. objs m p = Some x \<and> rcMark x \<noteq> SNone \<and> p \<noteq> 0"
  by (force simp: rcOk_def exact_def)

lemma rcOk_exact: "rcOk m R \<Longrightarrow> objs m q = Some y \<Longrightarrow> exact (refsOf m (dom (objs m)) + R) q y"
  by (simp add: rcOk_def)

lemma exact_cong: "count T q = count T' q \<Longrightarrow> exact T q y \<longleftrightarrow> exact T' q y"
  by (simp add: exact_def)

lemma refsOf_put [simp]:
  "objs m p = Some x \<Longrightarrow> refsOf (putObj p (x\<lparr>rc := r\<rparr>) m) A = refsOf m A"
  by (auto simp: refsOf_def putObj_def kids_def slots_def intro!: sum.cong)

lemma dom_put [simp]: "objs m p = Some x \<Longrightarrow> dom (objs (putObj p y m)) = dom (objs m)"
  by (auto simp: putObj_def)

lemma rcOk_put:
  assumes "rcOk m R" and "objs m p = Some x" and "size (refsOf m (dom (objs m)) + R') < 2 ^ 62" and "set_mset R' \<subseteq> dom (objs m)"
    and "exact (refsOf m (dom (objs m)) + R') p (x\<lparr>rc := r\<rparr>)" and "\<And>q. q \<noteq> p \<Longrightarrow> count R' q = count R q"
  shows "rcOk (putObj p (x\<lparr>rc := r\<rparr>) m) R'"
proof -
  have "exact (refsOf m (dom (objs m)) + R') q y" if "objs m q = Some y" "q \<noteq> p" for q y
    using rcOk_exact [OF assms(1) that(1)] assms(6) [OF that(2)] by (simp add: exact_def)
  then show ?thesis
    using assms by (auto simp: rcOk_def) (auto simp: putObj_def split: if_splits)
qed

lemma inc_exact:
  assumes "rcOk m R" and "p \<in> dom (objs m)" and "size (refsOf m (dom (objs m)) + R) + 1 < 2 ^ 62"
  shows "rcOk (fgoRCInc p m) (add_mset p R)"
proof -
  obtain x where x: "objs m p = Some x" using assms(2) by auto
  let ?T = "refsOf m (dom (objs m)) + R"
  have ex: "exact ?T p x" using assms(1) x by (simp add: rcOk_def)
  then have "rc x + 1 = of_nat (flagOf (rcMark x) + Suc (count ?T p))"
    by (simp add: exact_def)
  then have "rcOk (putObj p (x\<lparr>rc := rc x + 1\<rparr>) m) (add_mset p R)"
    using assms x ex by (intro rcOk_put) (auto simp: rcOk_def exact_def)
  moreover have "fgoRCInc p m = putObj p (x\<lparr>rc := rc x + 1\<rparr>) m"
    using ex x by (simp add: fgoRCInc_def fgoState_def addRC_def exact_def)
  ultimately show ?thesis by simp
qed

lemma rcOk_dying:
  assumes "rcOk m (add_mset p R)" and x: "objs m p = Some x" and "rcMark x \<noteq> SHanded"
    and 1: "count (refsOf m (dom (objs m)) + R) p = 0"
  shows "dying (putObj p (x\<lparr>rc := r\<rparr>) m) p [] (slots x) R"
proof -
  define T where "T = refsOf m (dom (objs m)) + R"
  have ok: "finite (dom (objs m))" "0 \<notin> dom (objs m)" "size (add_mset p T) < 2 ^ 62" "set_mset (add_mset p T) \<subseteq> dom (objs m)"
    "\<And>q y. objs m q = Some y \<Longrightarrow> exact (add_mset p T) q y"
    using assms(1) by (simp_all add: rcOk_def T_def)
  have "refsOf m (dom (objs m)) = kids x + refsOf m (dom (objs m) - {p})"
    using sum.remove [OF ok(1) domI [of "objs m" p x, OF x], of "\<lambda>q. kids (the (objs m q))"] x by (simp add: refsOf_def)
  then have T: "allRefs (putObj p (x\<lparr>rc := r\<rparr>) m) p (slots x) R = T"
    using x assms(3) by (simp add: allRefs_def kids_def T_def)
  have ex: "exact T q y" if "objs m q = Some y" "q \<noteq> p" for q y
    using ok(5) [OF that(1)] that(2) by (simp add: exact_def)
  have p: "p \<notin># T" using 1 by (simp add: not_in_iff T_def)
  show ?thesis
    unfolding dying_def T dom_put [of m p x, OF x]
  proof (intro conjI allI impI)
    show "set_mset T \<subseteq> dom (objs m) - set [p]" using ok(4) p by auto
    show "exact T q y" if "objs (putObj p (x\<lparr>rc := r\<rparr>) m) q = Some y" "q \<notin> set [p]" for q y
      using ex that by (simp add: putObj_def)
  qed (use ok x in auto)
qed

lemma release_ok:
  assumes "rcOk m (add_mset p R)" and x: "objs m p = Some x" and "rcMark x \<noteq> SHanded"
    and "count (refsOf m (dom (objs m)) + R) p = 0"
  shows "\<exists>m'. fgoRCRelease p free (putObj p (x\<lparr>rc := r\<rparr>) m) = Some m' \<and> rcOk m' R \<and> shrinks (if free then {} else {p}) m m' \<and> p \<notin> dom (objs m')"
proof -
  let ?m = "putObj p (x\<lparr>rc := r\<rparr>) m"
  have d: "dying ?m p [] (slots (x\<lparr>rc := r\<rparr>)) R"
    using rcOk_dying [OF assms, of r] by (simp add: slots_def)
  have "objs ?m p = Some (x\<lparr>rc := r\<rparr>)" by (simp add: putObj_def)
  from releaseLoop_ok [OF d this, of 0 free] show ?thesis
    using shrinks_shape [OF sameShape_put [OF x]] by (auto simp: fgoRCRelease_def)
qed

lemma dec_exact:
  assumes "rcOk m (add_mset p R)"
  shows "\<exists>m'. fgoRCDec p m = Some m' \<and> rcOk m' R \<and> shrinks {} m m'"
proof -
  obtain x where x: "objs m p = Some x" using rcOk_object [OF assms, of p] by auto
  let ?T = "refsOf m (dom (objs m)) + R" and ?m = "putObj p (x\<lparr>rc := rc x - 1\<rparr>) m"
  have ex: "exact (add_mset p ?T) p x" and size: "size (add_mset p ?T) < 2 ^ 62"
    using assms x by (simp_all add: rcOk_def)
  have n: "count (add_mset p ?T) p = Suc (count ?T p)" by simp
  note tests = count_dec [OF n ex size]
  have last: "\<exists>m'. fgoRCRelease p True ?m = Some m' \<and> rcOk m' R \<and> shrinks {} m m'"
    if "rcMark x \<noteq> SHanded" "count ?T p = 0"
    using release_ok [OF assms x that, of True] by auto
  have more: "rcOk ?m R \<and> shrinks {} m ?m" if "rcMark x = SHanded \<or> count ?T p \<noteq> 0"
  proof
    show "rcOk ?m R"
    proof (rule rcOk_put [OF assms x])
      show "set_mset R \<subseteq> dom (objs m)" using assms by (simp add: rcOk_def)
      show "exact ?T p (x\<lparr>rc := rc x - 1\<rparr>)"
        using ex tests(1) that by (auto simp: exact_def)
    qed (use size in simp_all)
    show "shrinks {} m ?m" by (rule shrinks_shape [OF sameShape_put [OF x] shrinks_refl])
  qed
  have "fgoRCDec p m = (if rcMark x \<noteq> SHanded \<and> count ?T p = 0 then fgoRCRelease p True ?m else Some ?m)"
    using x ex tests(4,5) by (cases "rcMark x")
      (simp_all add: fgoRCDec_def fgoState_def fgoSharedDec_def addRC_def hdrRC_def putObj_def exact_def Let_def count_eq_zero_iff)
  then show ?thesis
    using last more by auto
qed


section \<open>No object is freed too early, none too late\<close>

inductive reach :: "rcMem \<Rightarrow> uintptr multiset \<Rightarrow> uintptr \<Rightarrow> bool" for m R where
  root: "p \<in># R \<Longrightarrow> reach m R p"
| field: "reach m R p \<Longrightarrow> objs m p = Some x \<Longrightarrow> c \<in># kids x \<Longrightarrow> reach m R c"

lemma kids_refsOf: "finite (dom (objs m)) \<Longrightarrow> objs m p = Some x \<Longrightarrow> set_mset (kids x) \<subseteq> set_mset (refsOf m (dom (objs m)))"
  unfolding refsOf_def using sum.remove [of "dom (objs m)" p "\<lambda>q. kids (the (objs m q))"] by (force simp: domI)

lemma reach_object:
  assumes "rcOk m R" and "reach m R p"
  shows "p \<in> dom (objs m)"
  using assms(2)
proof induction
  case (root p)
  then show ?case using assms(1) by (auto simp: rcOk_def)
next
  case (field p x c)
  then show ?case using assms(1) kids_refsOf [of m p x] by (auto simp: rcOk_def)
qed

lemma shrinks_reach:
  assumes "reach m R q" and "rcOk m' R" and "shrinks K m m'"
  shows "reach m' R q"
  using assms(1)
proof induction
  case (root p)
  then show ?case by (rule reach.root)
next
  case (field p x c)
  then obtain x' where x': "objs m' p = Some x'"
    using reach_object [OF assms(2)] by blast
  then have "kids x' = kids x"
    using assms(3) field.hyps by (auto simp: shrinks_def kids_def slots_def)
  with field x' show ?case by (auto intro: reach.field)
qed

text \<open>
  C23: dropping a reference frees no object that can still be reached from the references held
  elsewhere, and changes none of the fields of such an object.
\<close>

theorem fgoRCDec_safe:
  assumes "rcOk m (add_mset p R)" and "reach m R q"
  shows "\<exists>m' x x'. fgoRCDec p m = Some m' \<and> objs m q = Some x \<and> objs m' q = Some x' \<and> rcFields x' = rcFields x"
proof -
  obtain m' where m': "fgoRCDec p m = Some m'" "rcOk m' R" "shrinks {} m m'"
    using dec_exact [OF assms(1)] by blast
  have "q \<in> dom (objs m')"
    by (rule reach_object [OF m'(2) shrinks_reach [OF assms(2) m'(2,3)]])
  with m'(1,3) show ?thesis
    by (auto simp: shrinks_def)
qed

text \<open>Without cycles nothing is left when no reference is held any more.\<close>

definition pointsTo :: "rcMem \<Rightarrow> (uintptr \<times> uintptr) set" where
  "pointsTo m = {(p, c). \<exists>x. objs m p = Some x \<and> c \<in># kids x}"

lemma rcOk_empty:
  assumes "rcOk m {#}" and "acyclic (pointsTo m)" and none: "\<And>p x. objs m p = Some x \<Longrightarrow> rcMark x \<noteq> SHanded"
  shows "objs m = Map.empty"
proof (rule ccontr)
  assume "objs m \<noteq> Map.empty"
  then obtain p0 where p0: "p0 \<in> dom (objs m)" by fastforce
  have fin: "finite (dom (objs m))" using assms(1) by (simp add: rcOk_def)
  have "p \<in> dom (objs m) \<and> c \<in> dom (objs m)" if "objs m p = Some x" "c \<in># kids x" for p c x
    using kids_refsOf [OF fin that(1)] that assms(1) by (auto simp: rcOk_def)
  then have sub: "pointsTo m \<subseteq> dom (objs m) \<times> dom (objs m)"
    by (auto simp: pointsTo_def)
  then have "wf (pointsTo m)"
    by (intro finite_acyclic_wf assms(2)) (rule finite_subset [OF _ finite_SigmaI [OF fin fin]])
  then obtain z where z: "z \<in> dom (objs m)" "\<And>y. (y, z) \<in> pointsTo m \<Longrightarrow> y \<notin> dom (objs m)"
    using p0 by (metis wfE_min)
  obtain x where x: "objs m z = Some x" using z(1) by auto
  then have "count (refsOf m (dom (objs m))) z > 0"
    using rcOk_exact [OF assms(1) x] none [OF x] by (simp add: exact_def)
  then have "z \<in># refsOf m (dom (objs m))" by simp
  then obtain y where "y \<in> dom (objs m)" "z \<in># kids (the (objs m y))"
    using fin unfolding refsOf_def by (auto simp: set_mset_sum)
  then have "(y, z) \<in> pointsTo m" by (auto simp: pointsTo_def)
  with z(2) \<open>y \<in> dom (objs m)\<close> show False by blast
qed

text \<open>
  C14: when the last reference from outside is dropped and the objects form no cycle, every object
  is freed, each one once.
\<close>

theorem fgoRCDec_frees_all:
  assumes "rcOk m {#p#}" and "acyclic (pointsTo m)" and "\<forall>q x. objs m q = Some x \<longrightarrow> rcMark x \<noteq> SHanded"
  shows "\<exists>m' fs. fgoRCDec p m = Some m' \<and> objs m' = Map.empty \<and> freedMem m' = freedMem m @ fs \<and> distinct fs \<and> set fs = dom (objs m)"
proof -
  obtain m' where m': "fgoRCDec p m = Some m'" "rcOk m' {#}" "shrinks {} m m'"
    using dec_exact [of m p "{#}"] assms(1) by auto
  have old: "\<exists>x. objs m q = Some x \<and> rcMark x' = rcMark x \<and> rcFields x' = rcFields x" if "objs m' q = Some x'" for q x'
  proof -
    have "q \<in> dom (objs m)" using m'(3) that by (auto simp: shrinks_def)
    with m'(3) that show ?thesis by (auto simp: shrinks_def)
  qed
  then have "pointsTo m' \<subseteq> pointsTo m"
    by (force simp: pointsTo_def kids_def slots_def)
  then have "acyclic (pointsTo m')"
    by (rule acyclic_subset [OF assms(2)])
  then have "objs m' = Map.empty"
    using old assms(3) by (intro rcOk_empty [OF m'(2)]) fastforce+
  with m' show ?thesis by (auto simp: shrinks_def)
qed

section \<open>An example memory\<close>

text \<open>An object at 16 whose only field refers to an object at 32, each counted once.\<close>

definition pairMem :: rcMem where
  "pairMem = \<lparr>objs = [16 \<mapsto> \<lparr>rc = 1, rcMark = SCounted, rcFields = [(0, PtrF 32)], rcMixed = False\<rparr>,
                         32 \<mapsto> \<lparr>rc = 1, rcMark = SCounted, rcFields = [(1, StrF ''x'')], rcMixed = False\<rparr>], freedMem = []\<rparr>"

lemma pairMem_dom: "dom (objs pairMem) = {16, 32}"
  by (auto simp: pairMem_def)

lemma pairMem_refs: "refsOf pairMem {16, 32} = {#32#}"
  by (simp add: refsOf_def) (simp add: pairMem_def kids_def slots_def live_def)

lemma pairMem_at:
  "objs pairMem p = Some x \<Longrightarrow>
     p = 16 \<and> x = \<lparr>rc = 1, rcMark = SCounted, rcFields = [(0, PtrF 32)], rcMixed = False\<rparr> \<or>
     p = 32 \<and> x = \<lparr>rc = 1, rcMark = SCounted, rcFields = [(1, StrF ''x'')], rcMixed = False\<rparr>"
  by (auto simp: pairMem_def split: if_splits)

lemma pairMem_ok: "rcOk pairMem {#16#}"
  unfolding rcOk_def pairMem_dom pairMem_refs by (auto simp: exact_def dest!: pairMem_at)

lemma pairMem_acyclic: "acyclic (pointsTo pairMem)"
proof -
  have "pointsTo pairMem = {(16, 32)}"
    by (auto simp: pointsTo_def pairMem_def kids_def slots_def live_def split: if_splits)
  then show ?thesis by (auto simp: acyclic_def trancl_unfold_left elim: converse_rtranclE)
qed

theorem fgoRCDec_safe_witness:
  "\<exists>m' x x'. fgoRCDec 16 (fgoRCInc 32 pairMem) = Some m' \<and> objs (fgoRCInc 32 pairMem) 32 = Some x \<and>
     objs m' 32 = Some x' \<and> rcFields x' = rcFields x"
proof (rule fgoRCDec_safe)
  show "rcOk (fgoRCInc 32 pairMem) (add_mset 16 {#32#})"
    using inc_exact [OF pairMem_ok, of 32] by (simp add: pairMem_refs pairMem_dom add_mset_commute)
  show "reach (fgoRCInc 32 pairMem) {#32#} 32" by (rule reach.root) simp
qed

theorem fgoRCDec_frees_all_witness:
  "\<exists>m' fs. fgoRCDec 16 pairMem = Some m' \<and> objs m' = Map.empty \<and> freedMem m' = freedMem pairMem @ fs \<and> distinct fs \<and>
     set fs = dom (objs pairMem)"
  by (rule fgoRCDec_frees_all [OF pairMem_ok pairMem_acyclic]) (simp add: pairMem_def)

end
