(* ===== verification/RcAlloc.thy ===== *)
theory RcAlloc
  imports RcCount
begin

text \<open>
  \<^verbatim>\<open>src/src/runtime/forgo_rc.go\<close>: the memory of nogc objects and buffers. Each M has a cache of
  free lists for the small size classes; lists that grow long move, whole, to spare batches all Ms
  share; larger classes and the arena are shared. Lists are linked through the first word of the
  free blocks, the word that counts references while a block is in use.
\<close>

section \<open>State\<close>

abbreviation fgoHdr :: nat where "fgoHdr \<equiv> 16"
abbreviation fgoRCAlign :: nat where "fgoRCAlign \<equiv> 16"
abbreviation fgoRCMaxSize :: nat where "fgoRCMaxSize \<equiv> 32 * 1024"
abbreviation fgoRCClasses :: nat where "fgoRCClasses \<equiv> 2048"
abbreviation fgoRCCached :: nat where "fgoRCCached \<equiv> 64"
abbreviation fgoRCChunk :: nat where "fgoRCChunk \<equiv> 64 * 1024"
abbreviation fgoRCKeep :: nat where "fgoRCKeep \<equiv> 256 * 1024"
abbreviation fgoRCSpares :: nat where "fgoRCSpares \<equiv> 4096"
abbreviation fgoArenaSize :: nat where "fgoArenaSize \<equiv> 64 * 2 ^ 30"

type_synonym uint32 = "32 word"

record fgoRCCache =
  cfree :: "nat \<Rightarrow> uintptr"
  ctail :: "nat \<Rightarrow> uintptr"
  cnfree :: "nat \<Rightarrow> uint32"
  ckeep :: "nat \<Rightarrow> uint32"
  cchunk :: uintptr
  cend :: uintptr
  clive :: "64 word"

record fgoRCBatch =
  bhead :: uintptr
  btail :: uintptr
  bn :: uint32

text \<open>\<open>links\<close> is the first word of every block; the last batch of \<open>spare\<close> is the top of the stack.\<close>

record allocSt =
  links :: "uintptr \<Rightarrow> uintptr"
  caches :: "nat \<Rightarrow> fgoRCCache"
  gfree :: "nat \<Rightarrow> uintptr"
  gchunk :: uintptr
  gend :: uintptr
  glive :: "64 word"
  spare :: "nat \<Rightarrow> fgoRCBatch list"
  lo :: uintptr
  nextBlk :: uintptr

section \<open>Operations\<close>

definition fgoRCNewCache :: fgoRCCache where
  "fgoRCNewCache = \<lparr>cfree = (\<lambda>_. 0), ctail = (\<lambda>_. 0), cnfree = (\<lambda>_. 0),
     ckeep = (\<lambda>c. of_nat (fgoRCKeep div (c * fgoRCAlign))), cchunk = 0, cend = 0, clive = 0\<rparr>"

definition fgoRCClass :: "uintptr \<Rightarrow> nat" where
  "fgoRCClass sz = unat ((sz + of_nat fgoRCAlign - 1) div of_nat fgoRCAlign)"

definition fgoArenaAlloc :: "uintptr \<Rightarrow> allocSt \<Rightarrow> (uintptr \<times> allocSt) option" where
  "fgoArenaAlloc n st =
     (if nextBlk st + n > lo st + of_nat fgoArenaSize then None
      else Some (nextBlk st, st\<lparr>nextBlk := nextBlk st + n\<rparr>))"

text \<open>Carving a block of class \<open>c\<close> from a chunk, or else from a new one.\<close>

definition carve :: "uintptr \<Rightarrow> uintptr \<Rightarrow> nat \<Rightarrow> allocSt \<Rightarrow> (uintptr \<times> uintptr \<times> uintptr \<times> allocSt) option" where
  "carve chunk chunkEnd c st =
     (let n = of_nat (c * fgoRCAlign) in
      Option.bind
        (if chunk + n > chunkEnd
         then Option.bind (fgoArenaAlloc (of_nat fgoRCChunk) st) (\<lambda>(v, st). Some (v, v + of_nat fgoRCChunk, st))
         else Some (chunk, chunkEnd, st))
        (\<lambda>(chunk, chunkEnd, st). Some (chunk, chunk + n, chunkEnd, st)))"

definition setCache :: "nat \<Rightarrow> fgoRCCache \<Rightarrow> allocSt \<Rightarrow> allocSt" where
  "setCache mp ca st = st\<lparr>caches := (caches st)(mp := ca)\<rparr>"

definition setLink :: "uintptr \<Rightarrow> uintptr \<Rightarrow> allocSt \<Rightarrow> allocSt" where
  "setLink b v st = st\<lparr>links := (links st)(b := v)\<rparr>"

text \<open>\<open>fgoRCTake\<close> on the shared lists, and with no lists on the chunk of an M.\<close>

definition fgoRCTakeShared :: "nat \<Rightarrow> allocSt \<Rightarrow> (uintptr \<times> bool \<times> allocSt) option" where
  "fgoRCTakeShared c st =
     (let p = gfree st c in
      if p \<noteq> 0 then Some (p, False, st\<lparr>gfree := (gfree st)(c := links st p)\<rparr>)
      else Option.bind (carve (gchunk st) (gend st) c st) (\<lambda>(p, chunk, chunkEnd, st).
        Some (p, True, st\<lparr>gchunk := chunk, gend := chunkEnd\<rparr>)))"

definition fgoRCTakeChunk :: "nat \<Rightarrow> nat \<Rightarrow> allocSt \<Rightarrow> (uintptr \<times> bool \<times> allocSt) option" where
  "fgoRCTakeChunk mp c st =
     Option.bind (carve (cchunk (caches st mp)) (cend (caches st mp)) c st) (\<lambda>(p, chunk, chunkEnd, st).
       Some (p, True, setCache mp ((caches st mp)\<lparr>cchunk := chunk, cend := chunkEnd\<rparr>) st))"

definition popCached :: "nat \<Rightarrow> nat \<Rightarrow> allocSt \<Rightarrow> uintptr \<times> bool \<times> allocSt" where
  "popCached mp c st =
     (let ca = caches st mp; p = cfree ca c; nxt = links st p in
      (p, False, setCache mp (ca\<lparr>cfree := (cfree ca)(c := nxt),
                                 ctail := (if nxt = 0 then (ctail ca)(c := 0) else ctail ca),
                                 cnfree := (cnfree ca)(c := cnfree ca c - 1)\<rparr>) st))"

definition fgoRCRefill :: "nat \<Rightarrow> nat \<Rightarrow> allocSt \<Rightarrow> (uintptr \<times> bool \<times> allocSt) option" where
  "fgoRCRefill mp c st =
     (if spare st c \<noteq> [] then
        let b = last (spare st c); ca = caches st mp;
            st1 = setCache mp (ca\<lparr>cfree := (cfree ca)(c := bhead b), ctail := (ctail ca)(c := btail b),
                                   cnfree := (cnfree ca)(c := bn b)\<rparr>)
                   (st\<lparr>spare := (spare st)(c := butlast (spare st c))\<rparr>) in
        if cfree (caches st1 mp) c \<noteq> 0 then Some (popCached mp c st1) else fgoRCTakeChunk mp c st1
      else fgoRCTakeChunk mp c st)"

definition fgoRCTakeCached :: "nat \<Rightarrow> nat \<Rightarrow> allocSt \<Rightarrow> (uintptr \<times> bool \<times> allocSt) option" where
  "fgoRCTakeCached mp c st =
     (if cfree (caches st mp) c = 0 then fgoRCRefill mp c st else Some (popCached mp c st))"

definition countLive :: "nat \<Rightarrow> 64 word \<Rightarrow> allocSt \<Rightarrow> allocSt" where
  "countLive mp d st = setCache mp ((caches st mp)\<lparr>clive := clive (caches st mp) + d\<rparr>) st"

text \<open>A block of class \<open>c\<close>, for an object or a buffer.\<close>

definition takeClass :: "nat \<Rightarrow> nat \<Rightarrow> allocSt \<Rightarrow> (uintptr \<times> bool \<times> allocSt) option" where
  "takeClass mp c st =
     (if c \<le> fgoRCCached then Option.bind (fgoRCTakeCached mp c st) (\<lambda>(b, fresh, st). Some (b, fresh, countLive mp 1 st))
      else Option.bind (fgoRCTakeShared c st) (\<lambda>(b, fresh, st). Some (b, fresh, st\<lparr>glive := glive st + 1\<rparr>)))"

definition fgoRCAllocZ :: "nat \<Rightarrow> uintptr \<Rightarrow> allocSt \<Rightarrow> (uintptr \<times> allocSt) option" where
  "fgoRCAllocZ mp sz st =
     (if sz > of_nat (fgoRCMaxSize - fgoHdr) then None
      else Option.bind (takeClass mp (fgoRCClass (of_nat fgoHdr + sz)) st) (\<lambda>(b, fresh, st).
        Some (b + of_nat fgoHdr, setLink b 1 st)))"

definition fgoRCSpare :: "nat \<Rightarrow> nat \<Rightarrow> allocSt \<Rightarrow> allocSt" where
  "fgoRCSpare mp c st =
     (let ca = caches st mp; bs = spare st c;
          st1 = (if length bs < fgoRCSpares
                 then st\<lparr>spare := (spare st)(c := bs @ [\<lparr>bhead = cfree ca c, btail = ctail ca c, bn = cnfree ca c\<rparr>])\<rparr>
                 else let top = last bs in
                   (setLink (ctail ca c) (bhead top) st)
                     \<lparr>spare := (spare st)(c := butlast bs @ [top\<lparr>bhead := cfree ca c, bn := bn top + cnfree ca c\<rparr>])\<rparr>) in
      setCache mp (ca\<lparr>cfree := (cfree ca)(c := 0), ctail := (ctail ca)(c := 0), cnfree := (cnfree ca)(c := 0)\<rparr>) st1)"

definition fgoRCFreeClass :: "nat \<Rightarrow> uintptr \<Rightarrow> nat \<Rightarrow> allocSt \<Rightarrow> allocSt" where
  "fgoRCFreeClass mp b c st =
     (if c \<le> fgoRCCached then
        let ca = caches st mp; st1 = setLink b (cfree ca c) st;
            ca1 = ca\<lparr>ctail := (if cfree ca c = 0 then (ctail ca)(c := b) else ctail ca), cfree := (cfree ca)(c := b),
                     clive := clive ca - 1, cnfree := (cnfree ca)(c := cnfree ca c + 1)\<rparr>;
            st2 = setCache mp ca1 st1 in
        if cnfree ca1 c > ckeep ca1 c then fgoRCSpare mp c st2 else st2
      else (setLink b (gfree st c) st)\<lparr>gfree := (gfree st)(c := b), glive := glive st - 1\<rparr>)"

definition fgoRCFree :: "nat \<Rightarrow> uintptr \<Rightarrow> uintptr \<Rightarrow> allocSt \<Rightarrow> allocSt" where
  "fgoRCFree mp p sz = fgoRCFreeClass mp (p - of_nat fgoHdr) (fgoRCClass (of_nat fgoHdr + sz))"

section \<open>Free lists\<close>

fun flist :: "(uintptr \<Rightarrow> uintptr) \<Rightarrow> uintptr \<Rightarrow> uintptr list \<Rightarrow> bool" where
  "flist l p [] \<longleftrightarrow> p = 0"
| "flist l p (b # bs) \<longleftrightarrow> p = b \<and> b \<noteq> 0 \<and> flist l (l b) bs"

definition last0 :: "uintptr list \<Rightarrow> uintptr" where
  "last0 bs = (if bs = [] then 0 else last bs)"

datatype lkey = Cached nat nat | Shared nat | Spare nat nat

fun headOf :: "allocSt \<Rightarrow> lkey \<Rightarrow> uintptr" where
  "headOf st (Cached mp c) = cfree (caches st mp) c"
| "headOf st (Shared c) = gfree st c"
| "headOf st (Spare c i) = (if i < length (spare st c) then bhead (spare st c ! i) else 0)"

fun classOf :: "lkey \<Rightarrow> nat" where
  "classOf (Cached mp c) = c"
| "classOf (Shared c) = c"
| "classOf (Spare c i) = c"

text \<open>The lists there are, with \<open>nm\<close> Ms.\<close>

definition keys :: "nat \<Rightarrow> lkey set" where
  "keys nm = (\<lambda>(mp, c). Cached mp c) ` ({..<nm} \<times> {1..fgoRCCached}) \<union> Shared ` {1..fgoRCClasses} \<union>
     (\<lambda>(c, i). Spare c i) ` ({1..fgoRCCached} \<times> {..<fgoRCSpares})"

text \<open>The bytes of a block, and of what is left of a chunk.\<close>

definition blockBytes :: "nat \<Rightarrow> uintptr \<Rightarrow> nat multiset" where
  "blockBytes c b = mset_set {unat b ..< unat b + c * fgoRCAlign}"

definition listBytes :: "nat \<Rightarrow> uintptr list \<Rightarrow> nat multiset" where
  "listBytes c bs = (\<Sum>b \<leftarrow> bs. blockBytes c b)"

definition restBytes :: "uintptr \<Rightarrow> uintptr \<Rightarrow> nat multiset" where
  "restBytes chunk chunkEnd = mset_set {unat chunk ..< unat chunkEnd}"

definition usedBytes :: "(uintptr \<times> nat) multiset \<Rightarrow> nat multiset" where
  "usedBytes U = (\<Sum>(b, c) \<in># U. blockBytes c b)"

definition allBytes :: "nat \<Rightarrow> (lkey \<Rightarrow> uintptr list) \<Rightarrow> (uintptr \<times> nat) multiset \<Rightarrow> allocSt \<Rightarrow> nat multiset" where
  "allBytes nm L U st = (\<Sum>k \<in> keys nm. listBytes (classOf k) (L k)) + usedBytes U +
     (\<Sum>mp < nm. restBytes (cchunk (caches st mp)) (cend (caches st mp))) + restBytes (gchunk st) (gend st)"

text \<open>\<open>L\<close> gives the blocks of every list, and no two of the blocks in the lists, the blocks in use
  \<open>U\<close> and the rests of the chunks share a byte.\<close>

definition listsOk :: "nat \<Rightarrow> (lkey \<Rightarrow> uintptr list) \<Rightarrow> allocSt \<Rightarrow> bool" where
  "listsOk nm L st \<longleftrightarrow> (\<forall>k \<in> keys nm. flist (links st) (headOf st k) (L k)) \<and>
     (\<forall>mp < nm. \<forall>c \<in> {1..fgoRCCached}. ctail (caches st mp) c = last0 (L (Cached mp c)) \<and>
        cnfree (caches st mp) c = of_nat (length (L (Cached mp c)))) \<and>
     (\<forall>c \<in> {1..fgoRCCached}. length (spare st c) \<le> fgoRCSpares \<and> (\<forall>i < length (spare st c). L (Spare c i) \<noteq> [] \<and>
        btail (spare st c ! i) = last0 (L (Spare c i)) \<and> bn (spare st c ! i) = of_nat (length (L (Spare c i)))))"

definition chunkOk :: "uintptr \<Rightarrow> uintptr \<Rightarrow> allocSt \<Rightarrow> bool" where
  "chunkOk chunk chunkEnd st \<longleftrightarrow> unat chunk \<le> unat chunkEnd \<and> unat chunkEnd \<le> unat (nextBlk st)"

definition bytesOk :: "nat \<Rightarrow> (lkey \<Rightarrow> uintptr list) \<Rightarrow> (uintptr \<times> nat) multiset \<Rightarrow> allocSt \<Rightarrow> bool" where
  "bytesOk nm L U st \<longleftrightarrow> allBytes nm L U st \<subseteq># mset_set {unat (lo st) ..< unat (nextBlk st)} \<and>
     0 < unat (lo st) \<and> unat (lo st) \<le> unat (nextBlk st) \<and> unat (nextBlk st) \<le> unat (lo st) + fgoArenaSize \<and>
     unat (lo st) + fgoArenaSize + fgoRCChunk < 2 ^ 64 \<and>
     (\<forall>mp < nm. chunkOk (cchunk (caches st mp)) (cend (caches st mp)) st) \<and> chunkOk (gchunk st) (gend st) st"

definition liveOk :: "nat \<Rightarrow> (uintptr \<times> nat) multiset \<Rightarrow> allocSt \<Rightarrow> bool" where
  "liveOk nm U st \<longleftrightarrow> (\<Sum>mp < nm. clive (caches st mp)) + glive st = of_nat (size U)"

definition allocOk :: "nat \<Rightarrow> (uintptr \<times> nat) multiset \<Rightarrow> allocSt \<Rightarrow> bool" where
  "allocOk nm U st \<longleftrightarrow> (\<exists>L. listsOk nm L st \<and> bytesOk nm L U st) \<and> liveOk nm U st \<and> (\<forall>(b, c) \<in># U. 1 \<le> c \<and> c \<le> fgoRCClasses)"

section \<open>Lists and bytes\<close>

lemma keys_simps [simp]:
  "Cached mp c \<in> keys nm \<longleftrightarrow> mp < nm \<and> 1 \<le> c \<and> c \<le> fgoRCCached"
  "Shared c \<in> keys nm \<longleftrightarrow> 1 \<le> c \<and> c \<le> fgoRCClasses"
  "Spare c i \<in> keys nm \<longleftrightarrow> 1 \<le> c \<and> c \<le> fgoRCCached \<and> i < fgoRCSpares"
  by (auto simp: keys_def)

lemma finite_keys [simp]: "finite (keys nm)"
  by (simp add: keys_def)

lemma keys_class: "k \<in> keys nm \<Longrightarrow> 1 \<le> classOf k \<and> classOf k \<le> fgoRCClasses"
  by (cases k) auto

lemma flist_upd: "b \<notin> set bs \<Longrightarrow> flist (l(b := v)) p bs = flist l p bs"
  by (induction bs arbitrary: p) auto

lemma flist_empty: "flist l p bs \<Longrightarrow> p = 0 \<longleftrightarrow> bs = []"
  by (cases bs) auto

lemma flist_append:
  assumes "flist l p xs" and "xs \<noteq> []" and "distinct xs" and "flist l q ys" and "set xs \<inter> set ys = {}"
  shows "flist (l(last xs := q)) p (xs @ ys)"
  using assms
proof (induction xs arbitrary: p)
  case (Cons x xs)
  show ?case
  proof (cases "xs = []")
    case True
    with Cons.prems show ?thesis using flist_upd [of x ys l q q] by (simp add: fun_upd_def)
  next
    case False
    have "flist (l(last xs := q)) (l x) (xs @ ys)"
      by (rule Cons.IH) (use Cons.prems False in auto)
    moreover have "x \<noteq> last xs" using Cons.prems(3) False by auto
    ultimately show ?thesis using Cons.prems(1) False by (simp add: fun_upd_def)
  qed
qed simp

lemma last0_simps [simp]: "last0 [] = 0" "bs \<noteq> [] \<Longrightarrow> last0 (b # bs) = last0 bs" "last0 [b] = b" "ys \<noteq> [] \<Longrightarrow> last0 (xs @ ys) = last0 ys"
  by (simp_all add: last0_def)

lemma listBytes_simps [simp]: "listBytes c [] = {#}" "listBytes c (b # bs) = blockBytes c b + listBytes c bs"
  "listBytes c (xs @ ys) = listBytes c xs + listBytes c ys"
  by (simp_all add: listBytes_def)

lemma blockBytes_first: "1 \<le> c \<Longrightarrow> unat b \<in># blockBytes c b"
  by (simp add: blockBytes_def)

lemma sum_update:
  fixes g :: "'k \<Rightarrow> 'v \<Rightarrow> 'n multiset"
  assumes "finite A" and "a \<in> A"
  shows "(\<Sum>k \<in> A. g k ((L(a := x)) k)) + g a (L a) = (\<Sum>k \<in> A. g k (L k)) + g a x"
proof -
  have "(\<Sum>k \<in> A - {a}. g k ((L(a := x)) k)) = (\<Sum>k \<in> A - {a}. g k (L k))"
    by (rule sum.cong) auto
  then show ?thesis
    using sum.remove [OF assms, of "\<lambda>k. g k ((L(a := x)) k)"] sum.remove [OF assms, of "\<lambda>k. g k (L k)"]
    by (simp add: ac_simps)
qed

lemma allBytes_list:
  assumes "k \<in> keys nm"
  shows "allBytes nm (L(k := bs)) U st + listBytes (classOf k) (L k) = allBytes nm L U st + listBytes (classOf k) bs"
proof -
  have "(\<Sum>j \<in> keys nm. listBytes (classOf j) ((L(k := bs)) j)) + listBytes (classOf k) (L k) =
      (\<Sum>j \<in> keys nm. listBytes (classOf j) (L j)) + listBytes (classOf k) bs"
    by (rule sum_update [OF finite_keys assms, of "\<lambda>j. listBytes (classOf j)"])
  then show ?thesis unfolding allBytes_def by (simp add: ac_simps)
qed

lemma usedBytes_add [simp]: "usedBytes (add_mset (b, c) U) = blockBytes c b + usedBytes U"
  by (simp add: usedBytes_def)

lemma allBytes_used: "allBytes nm L (add_mset (b, c) U) st = blockBytes c b + allBytes nm L U st"
  by (simp add: allBytes_def ac_simps)

lemma allBytes_parts:
  assumes "k \<in> keys nm"
  shows "listBytes (classOf k) (L k) + usedBytes U \<subseteq># allBytes nm L U st"
    and "j \<in> keys nm \<Longrightarrow> j \<noteq> k \<Longrightarrow> listBytes (classOf k) (L k) + listBytes (classOf j) (L j) \<subseteq># allBytes nm L U st"
proof -
  let ?f = "\<lambda>k. listBytes (classOf k) (L k)"
  have k: "sum ?f (keys nm) = ?f k + sum ?f (keys nm - {k})" by (rule sum.remove [OF finite_keys assms])
  then show "?f k + usedBytes U \<subseteq># allBytes nm L U st"
    by (simp add: allBytes_def)
  assume "j \<in> keys nm" "j \<noteq> k"
  then have "sum ?f (keys nm - {k}) = ?f j + sum ?f (keys nm - {k} - {j})" by (intro sum.remove) auto
  with k show "?f k + ?f j \<subseteq># allBytes nm L U st"
    by (simp add: allBytes_def)
qed

lemma bytesOk_once: "bytesOk nm L U st \<Longrightarrow> A \<subseteq># allBytes nm L U st \<Longrightarrow> count A x \<le> 1"
proof -
  assume "bytesOk nm L U st" "A \<subseteq># allBytes nm L U st"
  then have "A \<subseteq># mset_set {unat (lo st) ..< unat (nextBlk st)}"
    by (auto simp: bytesOk_def intro: subset_mset.trans)
  then have "count A x \<le> count (mset_set {unat (lo st) ..< unat (nextBlk st)}) x" by (rule mset_subset_eq_count)
  also have "\<dots> \<le> 1" by (simp add: count_mset_set')
  finally show ?thesis .
qed

lemma listBytes_mem: "b \<in> set bs \<Longrightarrow> 1 \<le> c \<Longrightarrow> unat b \<in># listBytes c bs"
  by (induction bs) (use blockBytes_first [of c b] in auto)

lemma usedBytes_mem: "(b, c) \<in># U \<Longrightarrow> 1 \<le> c \<Longrightarrow> unat b \<in># usedBytes U"
  by (drule multi_member_split) (use blockBytes_first [of c b] in auto)

lemma two_mem: "x \<in># A \<Longrightarrow> x \<in># B \<Longrightarrow> \<not> count (A + B) x \<le> 1"
proof -
  assume "x \<in># A" "x \<in># B"
  then have "0 < count A x" "0 < count B x" by simp_all
  then show ?thesis unfolding count_union by linarith
qed

lemma used_not_listed:
  assumes "bytesOk nm L U st" and "(b, c) \<in># U" and "1 \<le> c" and "k \<in> keys nm"
  shows "b \<notin> set (L k)"
proof
  assume "b \<in> set (L k)"
  then have "unat b \<in># listBytes (classOf k) (L k)" using listBytes_mem keys_class [OF assms(4)] by blast
  from two_mem [OF this usedBytes_mem [OF assms(2,3)]] show False
    using bytesOk_once [OF assms(1) allBytes_parts(1) [OF assms(4)]] by blast
qed

lemma lists_disjoint:
  assumes "bytesOk nm L U st" and "k \<in> keys nm" and "j \<in> keys nm" and "j \<noteq> k"
  shows "set (L k) \<inter> set (L j) = {}"
proof (rule ccontr)
  assume "set (L k) \<inter> set (L j) \<noteq> {}"
  then obtain b where "b \<in> set (L k)" "b \<in> set (L j)" by blast
  then have "unat b \<in># listBytes (classOf k) (L k)" "unat b \<in># listBytes (classOf j) (L j)"
    using listBytes_mem keys_class assms(2,3) by blast+
  from two_mem [OF this] show False
    using bytesOk_once [OF assms(1) allBytes_parts(2) [OF assms(2-4)]] by blast
qed

lemma list_distinct:
  assumes "bytesOk nm L U st" and "k \<in> keys nm"
  shows "distinct (L k)"
proof (rule ccontr)
  assume "\<not> distinct (L k)"
  then obtain xs ys zs b where L: "L k = xs @ [b] @ ys @ [b] @ zs" using not_distinct_decomp by blast
  have first: "unat b \<in># blockBytes (classOf k) b"
    using blockBytes_first keys_class [OF assms(2)] by blast
  have "listBytes (classOf k) (L k) \<subseteq># listBytes (classOf k) (L k) + usedBytes U" by simp
  then have "listBytes (classOf k) (L k) \<subseteq># allBytes nm L U st"
    using allBytes_parts(1) [OF assms(2)] subset_mset.trans by blast
  then have "count (listBytes (classOf k) (L k)) (unat b) \<le> 1" by (rule bytesOk_once [OF assms(1)])
  moreover have "listBytes (classOf k) (L k) = blockBytes (classOf k) b + blockBytes (classOf k) b + listBytes (classOf k) (xs @ ys @ zs)"
    by (simp add: L ac_simps)
  ultimately show False using two_mem [OF first first] by simp
qed

section \<open>Taking and freeing blocks\<close>

text \<open>Changing lists keeps the bytes apart when no byte is added.\<close>

lemma bytesOk_less:
  assumes "bytesOk nm L U st" and "allBytes nm L' U' st' \<subseteq># allBytes nm L U st"
    and "lo st' = lo st" "nextBlk st' = nextBlk st" "gchunk st' = gchunk st" "gend st' = gend st"
    and "\<And>mp. cchunk (caches st' mp) = cchunk (caches st mp)" "\<And>mp. cend (caches st' mp) = cend (caches st mp)"
  shows "bytesOk nm L' U' st'"
  using assms subset_mset.trans [OF assms(2)] by (auto simp: bytesOk_def chunkOk_def)

lemma allBytes_same:
  assumes "gchunk st' = gchunk st" "gend st' = gend st"
    and "\<And>mp. cchunk (caches st' mp) = cchunk (caches st mp)" "\<And>mp. cend (caches st' mp) = cend (caches st mp)"
  shows "allBytes nm L U st' = allBytes nm L U st"
  by (simp add: allBytes_def assms)

lemma setCache_simps [simp]:
  "links (setCache mp ca st) = links st" "gfree (setCache mp ca st) = gfree st" "gchunk (setCache mp ca st) = gchunk st"
  "gend (setCache mp ca st) = gend st" "glive (setCache mp ca st) = glive st" "spare (setCache mp ca st) = spare st"
  "lo (setCache mp ca st) = lo st" "nextBlk (setCache mp ca st) = nextBlk st"
  "caches (setCache mp ca st) = (caches st)(mp := ca)"
  by (simp_all add: setCache_def)

lemma setLink_simps [simp]:
  "links (setLink b v st) = (links st)(b := v)" "gfree (setLink b v st) = gfree st" "gchunk (setLink b v st) = gchunk st"
  "gend (setLink b v st) = gend st" "glive (setLink b v st) = glive st" "spare (setLink b v st) = spare st"
  "lo (setLink b v st) = lo st" "nextBlk (setLink b v st) = nextBlk st" "caches (setLink b v st) = caches st"
  by (simp_all add: setLink_def)

lemma listsOk_flist: "listsOk nm L st \<Longrightarrow> k \<in> keys nm \<Longrightarrow> flist (links st) (headOf st k) (L k)"
  by (simp add: listsOk_def)

lemma listsOk_cache:
  "listsOk nm L st \<Longrightarrow> mp < nm \<Longrightarrow> 1 \<le> c \<Longrightarrow> c \<le> fgoRCCached \<Longrightarrow>
     ctail (caches st mp) c = last0 (L (Cached mp c)) \<and> cnfree (caches st mp) c = of_nat (length (L (Cached mp c)))"
  by (simp add: listsOk_def)

lemma listsOk_spare:
  "listsOk nm L st \<Longrightarrow> 1 \<le> c \<Longrightarrow> c \<le> fgoRCCached \<Longrightarrow> i < length (spare st c) \<Longrightarrow>
     L (Spare c i) \<noteq> [] \<and> btail (spare st c ! i) = last0 (L (Spare c i)) \<and> bn (spare st c ! i) = of_nat (length (L (Spare c i)))"
  "listsOk nm L st \<Longrightarrow> 1 \<le> c \<Longrightarrow> c \<le> fgoRCCached \<Longrightarrow> length (spare st c) \<le> fgoRCSpares"
  by (simp_all add: listsOk_def)

lemma pop_ok:
  assumes lists: "listsOk nm L st" and bytes: "bytesOk nm L U st" and "mp < nm" and c: "1 \<le> c" "c \<le> fgoRCCached"
    and "cfree (caches st mp) c \<noteq> 0" and pop: "popCached mp c st = (b, fresh, st')"
  shows "\<exists>L'. listsOk nm L' st' \<and> bytesOk nm L' (add_mset (b, c) U) st'"
proof -
  let ?k = "Cached mp c"
  have k: "?k \<in> keys nm" using assms(3) c by simp
  have fl: "flist (links st) (cfree (caches st mp) c) (L ?k)" using listsOk_flist [OF lists k] by simp
  then obtain bs where bs: "L ?k = cfree (caches st mp) c # bs" "flist (links st) (links st (cfree (caches st mp) c)) bs"
    using assms(6) by (cases "L ?k") auto
  define ca where "ca = (caches st mp)\<lparr>cfree := (cfree (caches st mp))(c := links st b),
    ctail := (if links st b = 0 then (ctail (caches st mp))(c := 0) else ctail (caches st mp)),
    cnfree := (cnfree (caches st mp))(c := cnfree (caches st mp) c - 1)\<rparr>"
  have st': "b = cfree (caches st mp) c" "st' = setCache mp ca st"
    using pop by (auto simp: popCached_def Let_def ca_def)
  let ?L = "L(?k := bs)"
  have nxt: "links st b = 0 \<longleftrightarrow> bs = []" using flist_empty [OF bs(2)] st'(1) by simp
  have tail: "ctail (caches st mp) c = last0 (b # bs)" and len: "cnfree (caches st mp) c = of_nat (length (b # bs))"
    using listsOk_cache [OF lists assms(3) c] bs(1) st'(1) by simp_all
  have "flist (links st') (headOf st' j) (?L j)" if "j \<in> keys nm" for j
    using listsOk_flist [OF lists that] bs(2) st'(1) by (cases j) (auto simp: st'(2) ca_def)
  moreover have "ctail (caches st' q) d = last0 (?L (Cached q d)) \<and> cnfree (caches st' q) d = of_nat (length (?L (Cached q d)))"
    if "q < nm" "d \<in> {1..fgoRCCached}" for q d
    using listsOk_cache [OF lists that(1), of d] that(2) nxt tail len by (auto simp: st'(2) ca_def)
  moreover have "length (spare st' d) \<le> fgoRCSpares \<and> (\<forall>i < length (spare st' d). ?L (Spare d i) \<noteq> [] \<and>
        btail (spare st' d ! i) = last0 (?L (Spare d i)) \<and> bn (spare st' d ! i) = of_nat (length (?L (Spare d i))))"
    if "d \<in> {1..fgoRCCached}" for d
    using listsOk_spare [OF lists, of d] that by (simp add: st'(2))
  ultimately have "listsOk nm ?L st'" unfolding listsOk_def by blast
  moreover have "allBytes nm ?L U st + listBytes c (b # bs) = allBytes nm L U st + listBytes c bs"
    using allBytes_list [OF k, of L bs U st] bs(1) st'(1) by simp
  then have "allBytes nm ?L (add_mset (b, c) U) st' = allBytes nm L U st"
    using allBytes_same [of st' st nm ?L "add_mset (b, c) U"] st'(2) by (simp add: allBytes_used ca_def ac_simps)
  then have "bytesOk nm ?L (add_mset (b, c) U) st'"
    using st'(2) by (intro bytesOk_less [OF bytes]) (simp_all add: ca_def)
  ultimately show ?thesis by blast
qed

lemma listsOkI:
  assumes "\<And>k. k \<in> keys nm \<Longrightarrow> flist (links st) (headOf st k) (L k)"
    and "\<And>mp c. mp < nm \<Longrightarrow> 1 \<le> c \<Longrightarrow> c \<le> fgoRCCached \<Longrightarrow>
      ctail (caches st mp) c = last0 (L (Cached mp c)) \<and> cnfree (caches st mp) c = of_nat (length (L (Cached mp c)))"
    and "\<And>c. 1 \<le> c \<Longrightarrow> c \<le> fgoRCCached \<Longrightarrow> length (spare st c) \<le> fgoRCSpares"
    and "\<And>c i. 1 \<le> c \<Longrightarrow> c \<le> fgoRCCached \<Longrightarrow> i < length (spare st c) \<Longrightarrow> L (Spare c i) \<noteq> [] \<and>
      btail (spare st c ! i) = last0 (L (Spare c i)) \<and> bn (spare st c ! i) = of_nat (length (L (Spare c i)))"
  shows "listsOk nm L st"
  using assms by (simp add: listsOk_def)

text \<open>Lists do not depend on the chunks and the counters.\<close>

lemma listsOk_same:
  assumes "listsOk nm L st" and "links st' = links st" "gfree st' = gfree st" "spare st' = spare st"
    and "\<And>mp. cfree (caches st' mp) = cfree (caches st mp)" "\<And>mp. ctail (caches st' mp) = ctail (caches st mp)"
    "\<And>mp. cnfree (caches st' mp) = cnfree (caches st mp)"
  shows "listsOk nm L st'"
proof -
  have "headOf st' k = headOf st k" for k by (cases k) (simp_all add: assms)
  then show ?thesis using assms(1) by (simp add: listsOk_def assms(2-))
qed

lemma interval_split: "a \<le> b \<Longrightarrow> b \<le> d \<Longrightarrow> mset_set {a ..< b} + mset_set {b ..< d} = mset_set {a ..< (d::nat)}"
  by (subst mset_set_Union [symmetric]) (simp_all add: ivl_disj_un)

text \<open>Carving takes bytes of the chunk, or of the arena above all blocks.\<close>

lemma carve_ok:
  assumes bytes: "bytesOk nm L U st" and chunk: "chunkOk chunk chunkEnd st" and c: "1 \<le> c" "c \<le> fgoRCClasses"
    and carve: "carve chunk chunkEnd c st = Some (b, chunk', chunkEnd', st1)"
  shows "st1 = st\<lparr>nextBlk := nextBlk st1\<rparr> \<and> unat (nextBlk st) \<le> unat (nextBlk st1) \<and> unat (nextBlk st1) \<le> unat (lo st) + fgoArenaSize \<and>
     chunkOk chunk' chunkEnd' st1 \<and>
     blockBytes c b + restBytes chunk' chunkEnd' \<subseteq># restBytes chunk chunkEnd + mset_set {unat (nextBlk st) ..< unat (nextBlk st1)}"
proof -
  define n where "n = c * fgoRCAlign"
  have n: "0 < n" "n \<le> 32768" using c by (simp_all add: n_def)
  have bound: "unat (nextBlk st) \<le> unat (lo st) + fgoArenaSize" "unat (lo st) + fgoArenaSize + fgoRCChunk < 2 ^ 64"
    using bytes by (simp_all add: bytesOk_def)
  have add: "unat (w + of_nat k) = unat w + k" if "unat w \<le> unat (lo st) + fgoArenaSize" "k \<le> fgoRCChunk" for w :: uintptr and k
  proof -
    have "unat w + k < 2 ^ 64" using that bound by linarith
    then show ?thesis using that(2) by (simp add: unat_word_ariths unat_of_nat)
  qed
  have chunkLe: "unat chunk \<le> unat chunkEnd" "unat chunkEnd \<le> unat (nextBlk st)" using chunk by (simp_all add: chunkOk_def)
  have unatChunk: "unat (chunk + of_nat n) = unat chunk + n"
    by (rule add) (use chunkLe bound n in linarith)+
  show ?thesis
  proof (cases "chunk + of_nat n > chunkEnd")
    case False
    then have fit: "unat chunk + n \<le> unat chunkEnd" using unatChunk by (simp add: word_less_nat_alt not_less)
    have res: "b = chunk" "chunk' = chunk + of_nat n" "chunkEnd' = chunkEnd" "st1 = st"
      using carve False by (auto simp: carve_def Let_def n_def)
    have "blockBytes c b + restBytes chunk' chunkEnd' = restBytes chunk chunkEnd"
      using interval_split [of "unat chunk" "unat chunk + n" "unat chunkEnd"] fit
      unfolding blockBytes_def restBytes_def res unatChunk by (simp add: n_def)
    moreover have "chunkOk chunk' chunkEnd' st1"
      using chunkLe fit unfolding chunkOk_def res unatChunk by simp
    ultimately show ?thesis using bound by (simp add: res(4))
  next
    case True
    have size: "unat (lo st + of_nat fgoArenaSize) = unat (lo st) + fgoArenaSize"
      using bound(2) by (simp add: unat_word_ariths unat_of_nat)
    have nextUnat: "unat (nextBlk st + of_nat fgoRCChunk) = unat (nextBlk st) + fgoRCChunk"
      by (rule add) (use bound in simp_all)
    have room: "\<not> nextBlk st + of_nat fgoRCChunk > lo st + of_nat fgoArenaSize"
      using carve True by (auto simp: carve_def Let_def n_def fgoArenaAlloc_def split: if_splits)
    then have le: "unat (nextBlk st) + fgoRCChunk \<le> unat (lo st) + fgoArenaSize"
      unfolding word_less_nat_alt nextUnat size by linarith
    have res: "b = nextBlk st" "chunk' = nextBlk st + of_nat n" "chunkEnd' = nextBlk st + of_nat fgoRCChunk"
      "st1 = st\<lparr>nextBlk := nextBlk st + of_nat fgoRCChunk\<rparr>"
      using carve True room by (auto simp: carve_def Let_def n_def fgoArenaAlloc_def)
    have nUnat: "unat (nextBlk st + of_nat n) = unat (nextBlk st) + n"
      by (rule add) (use bound n in simp_all)
    have "blockBytes c b + restBytes chunk' chunkEnd' = mset_set {unat (nextBlk st) ..< unat (nextBlk st) + fgoRCChunk}"
      using interval_split [of "unat (nextBlk st)" "unat (nextBlk st) + n" "unat (nextBlk st) + fgoRCChunk"] n
      unfolding blockBytes_def restBytes_def res nUnat nextUnat by (simp add: n_def)
    moreover have "chunkOk chunk' chunkEnd' st1"
      using n nUnat nextUnat unfolding chunkOk_def res by simp
    moreover have "unat (nextBlk st1) = unat (nextBlk st) + fgoRCChunk" using nextUnat by (simp add: res(4))
    ultimately show ?thesis using le by (simp add: res(4))
  qed
qed

lemma carve_cancel:
  assumes "A' + r = A + (blk + r')" and "blk + r' \<subseteq># r + new" and "A \<subseteq># M"
  shows "A' \<subseteq># M + (new :: nat multiset)"
proof -
  have "A' + r \<subseteq># (A + new) + r" unfolding assms(1) using assms(2) by (metis subset_mset.add_left_mono add.assoc add.commute)
  then have "A' \<subseteq># A + new" by simp
  also have "A + new \<subseteq># M + new" using assms(3) by simp
  finally show ?thesis .
qed

lemma takeChunk_ok:
  assumes lists: "listsOk nm L st" and bytes: "bytesOk nm L U st" and mp: "mp < nm" and c: "1 \<le> c" "c \<le> fgoRCClasses"
    and take: "fgoRCTakeChunk mp c st = Some (b, fresh, st')"
  shows "listsOk nm L st' \<and> bytesOk nm L (add_mset (b, c) U) st'"
proof -
  let ?ca = "caches st mp"
  obtain chunk' chunkEnd' st1 where carve: "carve (cchunk ?ca) (cend ?ca) c st = Some (b, chunk', chunkEnd', st1)"
      and st1': "st' = setCache mp ((caches st1 mp)\<lparr>cchunk := chunk', cend := chunkEnd'\<rparr>) st1"
    using take by (auto simp: fgoRCTakeChunk_def split: Option.bind_splits)
  have "chunkOk (cchunk ?ca) (cend ?ca) st" using bytes mp by (simp add: bytesOk_def)
  from carve_ok [OF bytes this c carve] have st1: "st1 = st\<lparr>nextBlk := nextBlk st1\<rparr>"
    and grow: "unat (nextBlk st) \<le> unat (nextBlk st1)" "unat (nextBlk st1) \<le> unat (lo st) + fgoArenaSize"
    and ok: "chunkOk chunk' chunkEnd' st1"
    and new: "blockBytes c b + restBytes chunk' chunkEnd' \<subseteq># restBytes (cchunk ?ca) (cend ?ca) + mset_set {unat (nextBlk st) ..< unat (nextBlk st1)}"
    by blast+
  have same: "links st1 = links st" "gfree st1 = gfree st" "spare st1 = spare st" "caches st1 = caches st" "gchunk st1 = gchunk st"
    "gend st1 = gend st" "lo st1 = lo st"
    by (subst st1, simp)+
  have st': "st' = setCache mp (?ca\<lparr>cchunk := chunk', cend := chunkEnd'\<rparr>) st1" using st1' same by simp
  have lists': "listsOk nm L st'"
    by (rule listsOk_same [OF lists]) (simp_all add: st' same)
  have "(\<Sum>q < nm. restBytes (cchunk (caches st' q)) (cend (caches st' q))) + restBytes (cchunk ?ca) (cend ?ca) =
      (\<Sum>q < nm. restBytes (cchunk (caches st q)) (cend (caches st q))) + restBytes chunk' chunkEnd'"
    using sum_update [of "{..<nm}" mp "\<lambda>_ ca. restBytes (cchunk ca) (cend ca)" "caches st" "?ca\<lparr>cchunk := chunk', cend := chunkEnd'\<rparr>"] mp
    by (simp add: st' same)
  then have "allBytes nm L (add_mset (b, c) U) st' + restBytes (cchunk ?ca) (cend ?ca) =
      allBytes nm L U st + (blockBytes c b + restBytes chunk' chunkEnd')"
    by (simp add: allBytes_def st' same ac_simps)
  from carve_cancel [OF this new, of "mset_set {unat (lo st) ..< unat (nextBlk st)}"]
  have "allBytes nm L (add_mset (b, c) U) st' \<subseteq># mset_set {unat (lo st) ..< unat (nextBlk st)} + mset_set {unat (nextBlk st) ..< unat (nextBlk st1)}"
    using bytes by (simp add: bytesOk_def)
  also have "\<dots> = mset_set {unat (lo st) ..< unat (nextBlk st1)}"
    using bytes grow(1) by (intro interval_split) (simp_all add: bytesOk_def)
  finally have "bytesOk nm L (add_mset (b, c) U) st'"
    using bytes grow ok by (auto simp: bytesOk_def st' same chunkOk_def)
  with lists' show ?thesis by blast
qed

lemma refill_ok:
  assumes lists: "listsOk nm L st" and bytes: "bytesOk nm L U st" and mp: "mp < nm" and c: "1 \<le> c" "c \<le> fgoRCCached"
    and empty: "cfree (caches st mp) c = 0" and take: "fgoRCRefill mp c st = Some (b, fresh, st')"
  shows "\<exists>L'. listsOk nm L' st' \<and> bytesOk nm L' (add_mset (b, c) U) st'"
proof (cases "spare st c = []")
  case True
  then show ?thesis
    using takeChunk_ok [OF lists bytes mp c(1)] c(2) take by (auto simp: fgoRCRefill_def)
next
  case False
  let ?k = "Cached mp c" and ?i = "length (spare st c) - 1" and ?ca = "caches st mp"
  let ?b = "last (spare st c)"
  have i: "?i < length (spare st c)" using False by simp
  have last: "spare st c ! ?i = ?b" using False by (simp add: last_conv_nth)
  note sp = listsOk_spare(1) [OF lists c i, unfolded last]
  have len: "length (spare st c) \<le> fgoRCSpares" by (rule listsOk_spare(2) [OF lists c])
  have k: "?k \<in> keys nm" "Spare c ?i \<in> keys nm" using mp c i len by simp_all
  have "flist (links st) 0 (L ?k)" using listsOk_flist [OF lists k(1)] empty by simp
  then have nil: "L ?k = []" by (cases "L ?k") auto
  have head: "flist (links st) (bhead ?b) (L (Spare c ?i))" using listsOk_flist [OF lists k(2)] i last by simp
  define ca where "ca = ?ca\<lparr>cfree := (cfree ?ca)(c := bhead ?b), ctail := (ctail ?ca)(c := btail ?b), cnfree := (cnfree ?ca)(c := bn ?b)\<rparr>"
  define st1 where "st1 = setCache mp ca (st\<lparr>spare := (spare st)(c := butlast (spare st c))\<rparr>)"
  let ?L = "(L(Spare c ?i := []))(?k := L (Spare c ?i))"
  have lists1: "listsOk nm ?L st1"
  proof (rule listsOkI)
    show "flist (links st1) (headOf st1 j) (?L j)" if "j \<in> keys nm" for j
    proof (cases j)
      case (Spare d x)
      then show ?thesis
        using listsOk_flist [OF lists that] i by (cases "x < length (spare st c)") (auto simp: st1_def nth_butlast)
    qed (use listsOk_flist [OF lists that] head in \<open>auto simp: st1_def ca_def\<close>)
    show "ctail (caches st1 q) d = last0 (?L (Cached q d)) \<and> cnfree (caches st1 q) d = of_nat (length (?L (Cached q d)))"
      if "q < nm" "1 \<le> d" "d \<le> fgoRCCached" for q d
      using listsOk_cache [OF lists that] sp by (auto simp: st1_def ca_def)
    show "length (spare st1 d) \<le> fgoRCSpares" if "1 \<le> d" "d \<le> fgoRCCached" for d
      using listsOk_spare(2) [OF lists that] len by (cases "d = c") (simp_all add: st1_def)
    show "?L (Spare d j) \<noteq> [] \<and> btail (spare st1 d ! j) = last0 (?L (Spare d j)) \<and> bn (spare st1 d ! j) = of_nat (length (?L (Spare d j)))"
      if "1 \<le> d" "d \<le> fgoRCCached" "j < length (spare st1 d)" for d j
      using listsOk_spare(1) [OF lists that(1,2), of j] that(3) by (auto simp: st1_def nth_butlast split: if_splits)
  qed
  have "allBytes nm (L(Spare c ?i := [])) U st + listBytes c (L (Spare c ?i)) = allBytes nm L U st"
    using allBytes_list [OF k(2), of L "[]" U st] by simp
  moreover have "allBytes nm ?L U st = allBytes nm (L(Spare c ?i := [])) U st + listBytes c (L (Spare c ?i))"
    using allBytes_list [OF k(1), of "L(Spare c ?i := [])" "L (Spare c ?i)" U st] nil by simp
  ultimately have "allBytes nm ?L U st1 = allBytes nm L U st"
    using allBytes_same [of st1 st nm ?L U] by (simp add: st1_def ca_def)
  then have bytes1: "bytesOk nm ?L U st1"
    by (intro bytesOk_less [OF bytes]) (simp_all add: st1_def ca_def)
  have "bhead ?b \<noteq> 0" using flist_empty [OF head] sp by simp
  then have ne: "cfree (caches st1 mp) c \<noteq> 0" by (simp add: st1_def ca_def)
  then have "popCached mp c st1 = (b, fresh, st')"
    using take False by (simp add: fgoRCRefill_def Let_def st1_def ca_def)
  from pop_ok [OF lists1 bytes1 mp c ne this] show ?thesis .
qed

lemma takeCached_ok:
  assumes "listsOk nm L st" and "bytesOk nm L U st" and "mp < nm" and "1 \<le> c" and "c \<le> fgoRCCached"
    and "fgoRCTakeCached mp c st = Some (b, fresh, st')"
  shows "\<exists>L'. listsOk nm L' st' \<and> bytesOk nm L' (add_mset (b, c) U) st'"
proof (cases "cfree (caches st mp) c = 0")
  case True
  then show ?thesis using refill_ok [OF assms(1-5)] assms(6) by (simp add: fgoRCTakeCached_def)
next
  case False
  then show ?thesis using pop_ok [OF assms(1-5) False] assms(6) by (simp add: fgoRCTakeCached_def)
qed

lemma takeShared_ok:
  assumes lists: "listsOk nm L st" and bytes: "bytesOk nm L U st" and c: "1 \<le> c" "c \<le> fgoRCClasses"
    and take: "fgoRCTakeShared c st = Some (b, fresh, st')"
  shows "\<exists>L'. listsOk nm L' st' \<and> bytesOk nm L' (add_mset (b, c) U) st'"
proof (cases "gfree st c = 0")
  case False
  have k: "Shared c \<in> keys nm" using c by simp
  have fl: "flist (links st) (gfree st c) (L (Shared c))" using listsOk_flist [OF lists k] by simp
  then obtain bs where bs: "L (Shared c) = gfree st c # bs" "flist (links st) (links st (gfree st c)) bs"
    using False by (cases "L (Shared c)") auto
  have st': "b = gfree st c" "st' = st\<lparr>gfree := (gfree st)(c := links st b)\<rparr>"
    using take False by (auto simp: fgoRCTakeShared_def Let_def)
  let ?L = "L(Shared c := bs)"
  have "listsOk nm ?L st'"
  proof (rule listsOkI)
    show "flist (links st') (headOf st' j) (?L j)" if "j \<in> keys nm" for j
      using listsOk_flist [OF lists that] bs(2) by (cases j) (auto simp: st')
  qed (use listsOk_cache [OF lists] listsOk_spare [OF lists] in \<open>simp_all add: st'\<close>)
  moreover have "allBytes nm ?L U st + blockBytes c b = allBytes nm L U st"
    using allBytes_list [OF k, of L bs U st] bs(1) st'(1) by (simp add: add.assoc [symmetric])
  then have "allBytes nm ?L (add_mset (b, c) U) st' = allBytes nm L U st"
    using allBytes_same [of st' st nm ?L "add_mset (b, c) U"] by (simp add: allBytes_used st' ac_simps)
  then have "bytesOk nm ?L (add_mset (b, c) U) st'"
    by (intro bytesOk_less [OF bytes]) (simp_all add: st'(2))
  ultimately show ?thesis by blast
next
  case True
  then obtain chunk' chunkEnd' st1 where carve: "carve (gchunk st) (gend st) c st = Some (b, chunk', chunkEnd', st1)"
      and st': "st' = st1\<lparr>gchunk := chunk', gend := chunkEnd'\<rparr>"
    using take by (auto simp: fgoRCTakeShared_def Let_def split: Option.bind_splits)
  have "chunkOk (gchunk st) (gend st) st" using bytes by (simp add: bytesOk_def)
  from carve_ok [OF bytes this c carve] have st1: "st1 = st\<lparr>nextBlk := nextBlk st1\<rparr>"
    and grow: "unat (nextBlk st) \<le> unat (nextBlk st1)" "unat (nextBlk st1) \<le> unat (lo st) + fgoArenaSize"
    and ok: "chunkOk chunk' chunkEnd' st1"
    and new: "blockBytes c b + restBytes chunk' chunkEnd' \<subseteq># restBytes (gchunk st) (gend st) + mset_set {unat (nextBlk st) ..< unat (nextBlk st1)}"
    by blast+
  have same: "links st1 = links st" "gfree st1 = gfree st" "spare st1 = spare st" "caches st1 = caches st" "lo st1 = lo st"
    by (subst st1, simp)+
  have lists': "listsOk nm L st'"
    by (rule listsOk_same [OF lists]) (simp_all add: st' same)
  have "allBytes nm L (add_mset (b, c) U) st' + restBytes (gchunk st) (gend st) =
      allBytes nm L U st + (blockBytes c b + restBytes chunk' chunkEnd')"
    by (simp add: allBytes_def st' same ac_simps)
  from carve_cancel [OF this new, of "mset_set {unat (lo st) ..< unat (nextBlk st)}"]
  have "allBytes nm L (add_mset (b, c) U) st' \<subseteq># mset_set {unat (lo st) ..< unat (nextBlk st)} + mset_set {unat (nextBlk st) ..< unat (nextBlk st1)}"
    using bytes by (simp add: bytesOk_def)
  also have "\<dots> = mset_set {unat (lo st) ..< unat (nextBlk st1)}"
    using bytes grow(1) by (intro interval_split) (simp_all add: bytesOk_def)
  finally have "bytesOk nm L (add_mset (b, c) U) st'"
    using bytes grow ok by (auto simp: bytesOk_def st' same chunkOk_def)
  with lists' show ?thesis by blast
qed

text \<open>The first word of a block in use belongs to its user.\<close>

lemma setLink_ok:
  assumes lists: "listsOk nm L st" and bytes: "bytesOk nm L U st" and "(b, c) \<in># U" and "1 \<le> c"
  shows "listsOk nm L (setLink b v st) \<and> bytesOk nm L U (setLink b v st)"
proof
  show "listsOk nm L (setLink b v st)"
  proof (rule listsOkI)
    show "flist (links (setLink b v st)) (headOf (setLink b v st) k) (L k)" if "k \<in> keys nm" for k
    proof -
      have "headOf (setLink b v st) k = headOf st k" by (cases k) simp_all
      then show ?thesis
        using flist_upd [OF used_not_listed [OF bytes assms(3,4) that]] listsOk_flist [OF lists that] by simp
    qed
  qed (use listsOk_cache [OF lists] listsOk_spare [OF lists] in simp_all)
  show "bytesOk nm L U (setLink b v st)"
    using allBytes_same [of "setLink b v st" st nm L U] by (intro bytesOk_less [OF bytes]) simp_all
qed

lemma spare_ok:
  assumes lists: "listsOk nm L st" and bytes: "bytesOk nm L U st" and mp: "mp < nm" and c: "1 \<le> c" "c \<le> fgoRCCached"
    and ne: "L (Cached mp c) \<noteq> []"
  shows "\<exists>L'. listsOk nm L' (fgoRCSpare mp c st) \<and> bytesOk nm L' U (fgoRCSpare mp c st)"
proof -
  let ?k = "Cached mp c" and ?ca = "caches st mp" and ?bs = "spare st c"
  let ?xs = "L (Cached mp c)"
  define ca where "ca = ?ca\<lparr>cfree := (cfree ?ca)(c := 0), ctail := (ctail ?ca)(c := 0), cnfree := (cnfree ?ca)(c := 0)\<rparr>"
  have k: "?k \<in> keys nm" using mp c by simp
  have head: "flist (links st) (cfree ?ca c) ?xs" using listsOk_flist [OF lists k] by simp
  have tail: "ctail ?ca c = last ?xs" "cnfree ?ca c = of_nat (length ?xs)"
    using listsOk_cache [OF lists mp c] ne by (simp_all add: last0_def)
  have len: "length ?bs \<le> fgoRCSpares" by (rule listsOk_spare(2) [OF lists c])
  show ?thesis
  proof (cases "length ?bs < fgoRCSpares")
    case True
    let ?i = "length ?bs"
    have ki: "Spare c ?i \<in> keys nm" using c True by simp
    have "flist (links st) 0 (L (Spare c ?i))" using listsOk_flist [OF lists ki] by simp
    then have nil: "L (Spare c ?i) = []" by (cases "L (Spare c ?i)") auto
    define st' where "st' = fgoRCSpare mp c st"
    have st': "st' = setCache mp ca (st\<lparr>spare := (spare st)(c := ?bs @ [\<lparr>bhead = cfree ?ca c, btail = ctail ?ca c, bn = cnfree ?ca c\<rparr>])\<rparr>)"
      using True by (simp add: st'_def fgoRCSpare_def Let_def ca_def)
    let ?L = "(L(?k := []))(Spare c ?i := ?xs)"
    have "listsOk nm ?L st'"
    proof (rule listsOkI)
      show "flist (links st') (headOf st' j) (?L j)" if "j \<in> keys nm" for j
      proof (cases j)
        case (Spare d x)
        then show ?thesis
          using listsOk_flist [OF lists that] head by (cases "x < ?i") (auto simp: st' nth_append)
      qed (use listsOk_flist [OF lists that] in \<open>auto simp: st' ca_def\<close>)
      show "ctail (caches st' q) d = last0 (?L (Cached q d)) \<and> cnfree (caches st' q) d = of_nat (length (?L (Cached q d)))"
        if "q < nm" "1 \<le> d" "d \<le> fgoRCCached" for q d
        using listsOk_cache [OF lists that] by (auto simp: st' ca_def)
      show "length (spare st' d) \<le> fgoRCSpares" if "1 \<le> d" "d \<le> fgoRCCached" for d
        using listsOk_spare(2) [OF lists that] True by (cases "d = c") (simp_all add: st')
      show "?L (Spare d j) \<noteq> [] \<and> btail (spare st' d ! j) = last0 (?L (Spare d j)) \<and> bn (spare st' d ! j) = of_nat (length (?L (Spare d j)))"
        if "1 \<le> d" "d \<le> fgoRCCached" "j < length (spare st' d)" for d j
        using listsOk_spare(1) [OF lists that(1,2), of j] that(3) ne tail
        by (cases "d = c"; cases "j = ?i") (auto simp: st' nth_append last0_def)
    qed
    moreover have "allBytes nm (L(?k := [])) U st + listBytes c ?xs = allBytes nm L U st"
      using allBytes_list [OF k, of L "[]" U st] by simp
    then have "allBytes nm ?L U st = allBytes nm L U st"
      using allBytes_list [OF ki, of "L(?k := [])" ?xs U st] nil by simp
    then have "bytesOk nm ?L U st'"
      using allBytes_same [of st' st nm ?L U] by (intro bytesOk_less [OF bytes]) (simp_all add: st' ca_def)
    ultimately show ?thesis unfolding st'_def by blast
  next
    case False
    then have full: "length ?bs = fgoRCSpares" using len by simp
    let ?i = "length ?bs - 1" and ?top = "last ?bs"
    have bs: "?bs \<noteq> []" using full by auto
    have i: "?i < length ?bs" using bs by simp
    have last: "?bs ! ?i = ?top" using bs by (simp add: last_conv_nth)
    have ki: "Spare c ?i \<in> keys nm" using c i full by simp
    let ?ys = "L (Spare c ?i)"
    note sp = listsOk_spare(1) [OF lists c i, unfolded last]
    have top: "flist (links st) (bhead ?top) ?ys" using listsOk_flist [OF lists ki] i last by simp
    have apart: "set ?xs \<inter> set ?ys = {}" by (rule lists_disjoint [OF bytes k ki]) simp
    have joined: "flist ((links st)(last ?xs := bhead ?top)) (cfree ?ca c) (?xs @ ?ys)"
      by (rule flist_append [OF head ne list_distinct [OF bytes k] top apart])
    define st' where "st' = fgoRCSpare mp c st"
    have st': "st' = setCache mp ca ((setLink (last ?xs) (bhead ?top) st)
        \<lparr>spare := (spare st)(c := butlast ?bs @ [?top\<lparr>bhead := cfree ?ca c, bn := bn ?top + cnfree ?ca c\<rparr>])\<rparr>)"
      using False tail by (simp add: st'_def fgoRCSpare_def Let_def ca_def)
    let ?L = "(L(?k := []))(Spare c ?i := ?xs @ ?ys)"
    have other: "last ?xs \<notin> set (L j)" if "j \<in> keys nm" "j \<noteq> ?k" for j
      using lists_disjoint [OF bytes k that] last_in_set [OF ne] by blast
    have bslen: "length (butlast ?bs) = ?i" by simp
    have "listsOk nm ?L st'"
    proof (rule listsOkI)
      show "flist (links st') (headOf st' j) (?L j)" if "j \<in> keys nm" for j
      proof (cases "j = ?k \<or> j = Spare c ?i")
        case True
        then show ?thesis using joined bs by (auto simp: st' ca_def nth_append)
      next
        case no: False
        have "headOf st' j = headOf st j"
        proof (cases j)
          case (Spare d x)
          then show ?thesis using no bs by (cases "x < ?i") (auto simp: st' nth_append nth_butlast)
        qed (use no in \<open>auto simp: st' ca_def\<close>)
        then show ?thesis
          using no listsOk_flist [OF lists that] flist_upd [OF other [OF that]] by (simp add: st')
      qed
      show "ctail (caches st' q) d = last0 (?L (Cached q d)) \<and> cnfree (caches st' q) d = of_nat (length (?L (Cached q d)))"
        if "q < nm" "1 \<le> d" "d \<le> fgoRCCached" for q d
        using listsOk_cache [OF lists that] by (auto simp: st' ca_def)
      show "length (spare st' d) \<le> fgoRCSpares" if "1 \<le> d" "d \<le> fgoRCCached" for d
        using listsOk_spare(2) [OF lists that] full bs by (cases "d = c") (simp_all add: st')
      show "?L (Spare d j) \<noteq> [] \<and> btail (spare st' d ! j) = last0 (?L (Spare d j)) \<and> bn (spare st' d ! j) = of_nat (length (?L (Spare d j)))"
        if "1 \<le> d" "d \<le> fgoRCCached" "j < length (spare st' d)" for d j
      proof (cases "d = c \<and> j = ?i")
        case True
        then show ?thesis using ne sp tail by (simp add: st' nth_append)
      next
        case no: False
        have "j < length (spare st d)" using that(3) bs by (cases "d = c") (auto simp: st')
        moreover have "spare st' d ! j = spare st d ! j"
          using no that(3) bs by (cases "d = c") (auto simp: st' nth_append nth_butlast)
        ultimately show ?thesis using listsOk_spare(1) [OF lists that(1,2), of j] no by auto
      qed
    qed
    moreover have "allBytes nm (L(?k := [])) U st + listBytes c ?xs = allBytes nm L U st"
      using allBytes_list [OF k, of L "[]" U st] by simp
    moreover have "allBytes nm ?L U st + listBytes c ?ys = allBytes nm (L(?k := [])) U st + (listBytes c ?xs + listBytes c ?ys)"
      using allBytes_list [OF ki, of "L(?k := [])" "?xs @ ?ys" U st] by simp
    ultimately have "listsOk nm ?L st'" "allBytes nm ?L U st = allBytes nm L U st" by (simp_all add: add.assoc [symmetric])
    moreover from this have "bytesOk nm ?L U st'"
      using allBytes_same [of st' st nm ?L U] by (intro bytesOk_less [OF bytes]) (simp_all add: st' ca_def)
    ultimately show ?thesis unfolding st'_def by blast
  qed
qed

lemma push_bytes: "A + l = B + (x + l) \<Longrightarrow> A = x + (B :: nat multiset)"
proof -
  assume "A + l = B + (x + l)"
  also have "B + (x + l) = (x + B) + l" by (simp add: ac_simps)
  finally show ?thesis by simp
qed

text \<open>Freeing a block puts it at the head of its class's list.\<close>

lemma push_ok:
  assumes lists: "listsOk nm L st" and bytes: "bytesOk nm L (add_mset (b, c) U) st" and mp: "mp < nm" and c: "1 \<le> c" "c \<le> fgoRCCached"
    and "b \<noteq> 0"
    and st': "st' = setCache mp ((caches st mp)\<lparr>ctail := (if cfree (caches st mp) c = 0 then (ctail (caches st mp))(c := b) else ctail (caches st mp)),
      cfree := (cfree (caches st mp))(c := b), clive := l, cnfree := (cnfree (caches st mp))(c := cnfree (caches st mp) c + 1)\<rparr>)
      (setLink b (cfree (caches st mp) c) st)"
  shows "listsOk nm (L(Cached mp c := b # L (Cached mp c))) st' \<and> bytesOk nm (L(Cached mp c := b # L (Cached mp c))) U st'"
proof
  let ?k = "Cached mp c" and ?L = "L(Cached mp c := b # L (Cached mp c))"
  have k: "?k \<in> keys nm" using mp c by simp
  have notin: "b \<notin> set (L j)" if "j \<in> keys nm" for j
    by (rule used_not_listed [OF bytes _ c(1) that]) simp
  have head: "flist (links st) (cfree (caches st mp) c) (L ?k)" using listsOk_flist [OF lists k] by simp
  show "listsOk nm ?L st'"
  proof (rule listsOkI)
    show "flist (links st') (headOf st' j) (?L j)" if "j \<in> keys nm" for j
    proof (cases "j = ?k")
      case True
      then show ?thesis using head flist_upd [OF notin [OF k]] assms(6) by (simp add: st')
    next
      case False
      then have "headOf st' j = headOf st j" by (cases j) (auto simp: st')
      then show ?thesis using False listsOk_flist [OF lists that] flist_upd [OF notin [OF that]] by (simp add: st')
    qed
    show "ctail (caches st' q) d = last0 (?L (Cached q d)) \<and> cnfree (caches st' q) d = of_nat (length (?L (Cached q d)))"
      if "q < nm" "1 \<le> d" "d \<le> fgoRCCached" for q d
      using listsOk_cache [OF lists that] flist_empty [OF head] by (auto simp: st')
  qed (use listsOk_spare [OF lists] in \<open>simp_all add: st'\<close>)
  have "allBytes nm ?L U st + listBytes c (L ?k) = allBytes nm L U st + (blockBytes c b + listBytes c (L ?k))"
    using allBytes_list [OF k, of L "b # L ?k" U st] by simp
  then have "allBytes nm ?L U st = allBytes nm L (add_mset (b, c) U) st"
    unfolding allBytes_used by (rule push_bytes)
  then show "bytesOk nm ?L U st'"
    using allBytes_same [of st' st nm ?L U] by (intro bytesOk_less [OF bytes]) (simp_all add: st')
qed

lemma freeClass_ok:
  assumes lists: "listsOk nm L st" and bytes: "bytesOk nm L (add_mset (b, c) U) st" and mp: "mp < nm" and c: "1 \<le> c" "c \<le> fgoRCClasses"
    and b: "b \<noteq> 0"
  shows "\<exists>L'. listsOk nm L' (fgoRCFreeClass mp b c st) \<and> bytesOk nm L' U (fgoRCFreeClass mp b c st)"
proof (cases "c \<le> fgoRCCached")
  case True
  let ?ca = "caches st mp" and ?L = "L(Cached mp c := b # L (Cached mp c))"
  define st1 where "st1 = setCache mp (?ca\<lparr>ctail := (if cfree ?ca c = 0 then (ctail ?ca)(c := b) else ctail ?ca),
      cfree := (cfree ?ca)(c := b), clive := clive ?ca - 1, cnfree := (cnfree ?ca)(c := cnfree ?ca c + 1)\<rparr>) (setLink b (cfree ?ca c) st)"
  have 1: "listsOk nm ?L st1" "bytesOk nm ?L U st1"
    using push_ok [OF lists bytes mp c(1) True b st1_def] by simp_all
  have "fgoRCFreeClass mp b c st = fgoRCSpare mp c st1 \<or> fgoRCFreeClass mp b c st = st1"
    using True by (simp add: fgoRCFreeClass_def Let_def st1_def)
  then show ?thesis
    using 1 spare_ok [OF 1 mp c(1) True] by auto
next
  case False
  have k: "Shared c \<in> keys nm" using c by simp
  let ?L = "L(Shared c := b # L (Shared c))"
  define st' where "st' = fgoRCFreeClass mp b c st"
  have st': "st' = (setLink b (gfree st c) st)\<lparr>gfree := (gfree st)(c := b), glive := glive st - 1\<rparr>"
    using False by (simp add: st'_def fgoRCFreeClass_def)
  have notin: "b \<notin> set (L j)" if "j \<in> keys nm" for j
    by (rule used_not_listed [OF bytes _ c(1) that]) simp
  have "listsOk nm ?L st'"
  proof (rule listsOkI)
    show "flist (links st') (headOf st' j) (?L j)" if "j \<in> keys nm" for j
    proof (cases "j = Shared c")
      case True
      then show ?thesis using listsOk_flist [OF lists k] flist_upd [OF notin [OF k]] b by (simp add: st')
    next
      case no: False
      then have "headOf st' j = headOf st j" by (cases j) (auto simp: st')
      then show ?thesis using no listsOk_flist [OF lists that] flist_upd [OF notin [OF that]] by (simp add: st')
    qed
  qed (use listsOk_cache [OF lists] listsOk_spare [OF lists] in \<open>simp_all add: st'\<close>)
  moreover have "allBytes nm ?L U st + listBytes c (L (Shared c)) = allBytes nm L U st + (blockBytes c b + listBytes c (L (Shared c)))"
    using allBytes_list [OF k, of L "b # L (Shared c)" U st] by simp
  then have "allBytes nm ?L U st = allBytes nm L (add_mset (b, c) U) st"
    unfolding allBytes_used by (rule push_bytes)
  then have "bytesOk nm ?L U st'"
    using allBytes_same [of st' st nm ?L U] by (intro bytesOk_less [OF bytes]) (simp_all add: st')
  ultimately show ?thesis unfolding st'_def by blast
qed

section \<open>Counting the blocks in use\<close>

definition liveSum :: "nat \<Rightarrow> allocSt \<Rightarrow> 64 word" where
  "liveSum nm st = (\<Sum>mp < nm. clive (caches st mp)) + glive st"

lemma liveSum_cache:
  assumes "mp < nm" and "caches st' = (caches st)(mp := ca)" and "glive st' = glive st"
  shows "liveSum nm st' = liveSum nm st + clive ca - clive (caches st mp)"
proof -
  have "(\<Sum>q \<in> {..<nm} - {mp}. clive (caches st' q)) = (\<Sum>q \<in> {..<nm} - {mp}. clive (caches st q))"
    by (rule sum.cong) (auto simp: assms(2))
  then show ?thesis
    using sum.remove [of "{..<nm}" mp "\<lambda>q. clive (caches st' q)"] sum.remove [of "{..<nm}" mp "\<lambda>q. clive (caches st q)"] assms
    by (simp add: liveSum_def)
qed

lemma liveSum_same:
  assumes "\<And>mp. clive (caches st' mp) = clive (caches st mp)" and "glive st' = glive st"
  shows "liveSum nm st' = liveSum nm st"
  by (simp add: liveSum_def assms)

lemma carve_frame: "carve a e c st = Some (b, a', e', st1) \<Longrightarrow> caches st1 = caches st \<and> glive st1 = glive st \<and> lo st1 = lo st"
  by (auto simp: carve_def fgoArenaAlloc_def Let_def split: if_splits)

lemma pop_live: "popCached mp c st = (b, fresh, st') \<Longrightarrow> clive (caches st' q) = clive (caches st q) \<and> glive st' = glive st"
  by (auto simp: popCached_def Let_def)

lemma takeChunk_live:
  assumes "fgoRCTakeChunk mp c st = Some (b, fresh, st')"
  shows "clive (caches st' q) = clive (caches st q) \<and> glive st' = glive st"
  using assms by (auto simp: fgoRCTakeChunk_def split: Option.bind_splits dest!: carve_frame)

lemma takeCached_live:
  assumes "fgoRCTakeCached mp c st = Some (b, fresh, st')"
  shows "clive (caches st' q) = clive (caches st q) \<and> glive st' = glive st"
  using assms
  by (auto simp: fgoRCTakeCached_def fgoRCRefill_def Let_def split: if_splits dest!: pop_live [where q = q] takeChunk_live [where q = q])

lemma takeShared_live:
  assumes "fgoRCTakeShared c st = Some (b, fresh, st')"
  shows "caches st' = caches st \<and> glive st' = glive st"
  using assms by (auto simp: fgoRCTakeShared_def Let_def split: if_splits Option.bind_splits dest!: carve_frame)

lemma spare_live: "clive (caches (fgoRCSpare mp c st) q) = clive (caches st q) \<and> glive (fgoRCSpare mp c st) = glive st"
  by (simp add: fgoRCSpare_def Let_def)

section \<open>The allocator\<close>

lemma usedBytes_member: "(b, c) \<in># U \<Longrightarrow> blockBytes c b \<subseteq># usedBytes U"
  by (drule multi_member_split) auto

lemma usedBytes_all: "usedBytes U \<subseteq># allBytes nm L U st"
  by (simp add: allBytes_def)

lemma block_inside:
  assumes "bytesOk nm L U st" and "(b, c) \<in># U" and "1 \<le> c"
  shows "{unat b ..< unat b + c * fgoRCAlign} \<subseteq> {unat (lo st) ..< unat (nextBlk st)}" and "b \<noteq> 0"
proof -
  have "blockBytes c b \<subseteq># mset_set {unat (lo st) ..< unat (nextBlk st)}"
    using usedBytes_member [OF assms(2)] usedBytes_all [of U nm L st] assms(1) unfolding bytesOk_def
    by (meson subset_mset.trans)
  then have "set_mset (blockBytes c b) \<subseteq> set_mset (mset_set {unat (lo st) ..< unat (nextBlk st)})" by (rule set_mset_mono)
  then show sub: "{unat b ..< unat b + c * fgoRCAlign} \<subseteq> {unat (lo st) ..< unat (nextBlk st)}" by (simp add: blockBytes_def)
  have "unat b \<in> {unat b ..< unat b + c * fgoRCAlign}" using assms(3) by simp
  with sub have "unat (lo st) \<le> unat b" by (auto dest: subsetD)
  then show "b \<noteq> 0" using assms(1) by (auto simp: bytesOk_def)
qed

lemma blocks_apart:
  assumes "allocOk nm (add_mset (b, c) (add_mset (b', c') U)) st"
  shows "{unat b ..< unat b + c * fgoRCAlign} \<inter> {unat b' ..< unat b' + c' * fgoRCAlign} = {}"
proof (rule ccontr)
  assume "\<not> ?thesis"
  then obtain x where "x \<in> {unat b ..< unat b + c * fgoRCAlign} \<inter> {unat b' ..< unat b' + c' * fgoRCAlign}" by blast
  then have "x \<in># blockBytes c b" "x \<in># blockBytes c' b'" by (simp_all add: blockBytes_def)
  note two = two_mem [OF this]
  obtain L where "bytesOk nm L (add_mset (b, c) (add_mset (b', c') U)) st" using assms by (auto simp: allocOk_def)
  moreover have "blockBytes c b + blockBytes c' b' \<subseteq># allBytes nm L (add_mset (b, c) (add_mset (b', c') U)) st"
    by (simp add: allBytes_used add.assoc [symmetric])
  ultimately show False using bytesOk_once two by blast
qed

lemma class_bounds:
  assumes "sz \<le> of_nat (fgoRCMaxSize - fgoHdr)"
  shows "1 \<le> fgoRCClass (of_nat fgoHdr + sz)" "fgoRCClass (of_nat fgoHdr + sz) \<le> fgoRCClasses"
    "unat sz + fgoHdr \<le> fgoRCClass (of_nat fgoHdr + sz) * fgoRCAlign"
proof -
  have sz: "unat sz \<le> 32752" using assms by (simp add: word_le_nat_alt)
  have "of_nat fgoHdr + sz + of_nat fgoRCAlign - 1 = (sz + 31 :: uintptr)" by simp
  then have "fgoRCClass (of_nat fgoHdr + sz) = unat ((sz + 31) div 16)" by (simp only: fgoRCClass_def of_nat_numeral)
  moreover have "unat (sz + 31) = unat sz + 31" using sz by (simp add: unat_word_ariths)
  ultimately have "fgoRCClass (of_nat fgoHdr + sz) = (unat sz + 31) div 16"
    by (simp add: unat_div_distrib)
  then show "1 \<le> fgoRCClass (of_nat fgoHdr + sz)" "fgoRCClass (of_nat fgoHdr + sz) \<le> fgoRCClasses"
    "unat sz + fgoHdr \<le> fgoRCClass (of_nat fgoHdr + sz) * fgoRCAlign"
    using sz by simp_all
qed

lemma takeClass_ok:
  assumes lists: "listsOk nm L st" and bytes: "bytesOk nm L U st" and mp: "mp < nm" and c: "1 \<le> c" "c \<le> fgoRCClasses"
    and take: "takeClass mp c st = Some (b, fresh, st')"
  shows "(\<exists>L'. listsOk nm L' st' \<and> bytesOk nm L' (add_mset (b, c) U) st') \<and> liveSum nm st' = liveSum nm st + 1"
proof (cases "c \<le> fgoRCCached")
  case True
  obtain st1 where 1: "fgoRCTakeCached mp c st = Some (b, fresh, st1)" "st' = countLive mp 1 st1"
    using take True by (auto simp: takeClass_def split: Option.bind_splits)
  obtain L' where L': "listsOk nm L' st1" "bytesOk nm L' (add_mset (b, c) U) st1"
    using takeCached_ok [OF lists bytes mp c(1) True 1(1)] by blast
  have "listsOk nm L' st'"
    by (rule listsOk_same [OF L'(1)]) (simp_all add: 1(2) countLive_def)
  moreover have "bytesOk nm L' (add_mset (b, c) U) st'"
    using allBytes_same [of st' st1 nm L' "add_mset (b, c) U"] by (intro bytesOk_less [OF L'(2)]) (simp_all add: 1(2) countLive_def)
  moreover have "liveSum nm st' = liveSum nm st1 + 1"
    using liveSum_cache [OF mp, of st' st1 "(caches st1 mp)\<lparr>clive := clive (caches st1 mp) + 1\<rparr>"] by (simp add: 1(2) countLive_def)
  moreover have "liveSum nm st1 = liveSum nm st" by (intro liveSum_same) (simp_all add: takeCached_live [OF 1(1)])
  ultimately show ?thesis by auto
next
  case False
  obtain st1 where 1: "fgoRCTakeShared c st = Some (b, fresh, st1)" "st' = st1\<lparr>glive := glive st1 + 1\<rparr>"
    using take False by (auto simp: takeClass_def split: Option.bind_splits)
  obtain L' where L': "listsOk nm L' st1" "bytesOk nm L' (add_mset (b, c) U) st1"
    using takeShared_ok [OF lists bytes c 1(1)] by blast
  have "listsOk nm L' st'"
    by (rule listsOk_same [OF L'(1)]) (simp_all add: 1(2))
  moreover have "bytesOk nm L' (add_mset (b, c) U) st'"
    using allBytes_same [of st' st1 nm L' "add_mset (b, c) U"] by (intro bytesOk_less [OF L'(2)]) (simp_all add: 1(2))
  moreover have "liveSum nm st' = liveSum nm st + 1"
    using takeShared_live [OF 1(1)] by (simp add: liveSum_def 1(2))
  ultimately show ?thesis by auto
qed

text \<open>Allocating gives a block of the size's class.\<close>

lemma fgoRCAllocZ_step:
  assumes ok: "allocOk nm U st" and mp: "mp < nm" and alloc: "fgoRCAllocZ mp sz st = Some (p, st')"
  shows "allocOk nm (add_mset (p - of_nat fgoHdr, fgoRCClass (of_nat fgoHdr + sz)) U) st'"
proof -
  let ?c = "fgoRCClass (of_nat fgoHdr + sz)"
  have sz: "sz \<le> of_nat (fgoRCMaxSize - fgoHdr)" using alloc by (auto simp: fgoRCAllocZ_def split: if_splits)
  obtain b fresh st1 where 1: "takeClass mp ?c st = Some (b, fresh, st1)" "p = b + of_nat fgoHdr" "st' = setLink b 1 st1"
    using alloc sz by (auto simp: fgoRCAllocZ_def split: if_splits Option.bind_splits)
  obtain L where L: "listsOk nm L st" "bytesOk nm L U st" using ok by (auto simp: allocOk_def)
  obtain L' where L': "listsOk nm L' st1" "bytesOk nm L' (add_mset (b, ?c) U) st1" "liveSum nm st1 = liveSum nm st + 1"
    using takeClass_ok [OF L mp class_bounds(1,2) [OF sz] 1(1)] by blast
  have "listsOk nm L' st' \<and> bytesOk nm L' (add_mset (b, ?c) U) st'"
    unfolding 1(3) by (rule setLink_ok [OF L'(1,2) _ class_bounds(1) [OF sz]]) simp
  moreover have "liveSum nm st' = liveSum nm st1" by (rule liveSum_same) (simp_all add: 1(3))
  then have "liveOk nm (add_mset (b, ?c) U) st'"
    using ok L'(3) by (simp add: allocOk_def liveOk_def liveSum_def)
  moreover have "p - of_nat fgoHdr = b" using 1(2) by simp
  ultimately show ?thesis
    using ok class_bounds(1,2) [OF sz] by (auto simp: allocOk_def)
qed

lemma freeClass_live: "mp < nm \<Longrightarrow> liveSum nm (fgoRCFreeClass mp b c st) = liveSum nm st - 1"
proof (cases "c \<le> fgoRCCached")
  case True
  assume mp: "mp < nm"
  let ?ca = "caches st mp"
  define ca where "ca = ?ca\<lparr>ctail := (if cfree ?ca c = 0 then (ctail ?ca)(c := b) else ctail ?ca),
      cfree := (cfree ?ca)(c := b), clive := clive ?ca - 1, cnfree := (cnfree ?ca)(c := cnfree ?ca c + 1)\<rparr>"
  define st1 where "st1 = setCache mp ca (setLink b (cfree ?ca c) st)"
  have "fgoRCFreeClass mp b c st = fgoRCSpare mp c st1 \<or> fgoRCFreeClass mp b c st = st1"
    using True by (simp add: fgoRCFreeClass_def Let_def st1_def ca_def)
  moreover have "liveSum nm (fgoRCSpare mp c st1) = liveSum nm st1" by (rule liveSum_same) (simp_all add: spare_live)
  moreover have "liveSum nm st1 = liveSum nm st - 1"
    using liveSum_cache [OF mp, of st1 st ca] by (simp add: st1_def ca_def)
  ultimately show ?thesis by auto
next
  case False
  then show ?thesis by (simp add: fgoRCFreeClass_def liveSum_def)
qed

text \<open>Freeing takes a block back.\<close>

lemma freeClass_step:
  assumes ok: "allocOk nm (add_mset (b, c) U) st" and mp: "mp < nm"
  shows "allocOk nm U (fgoRCFreeClass mp b c st)"
proof -
  obtain L where L: "listsOk nm L st" "bytesOk nm L (add_mset (b, c) U) st" using ok by (auto simp: allocOk_def)
  have c: "1 \<le> c" "c \<le> fgoRCClasses" using ok by (auto simp: allocOk_def)
  have b: "b \<noteq> 0" by (rule block_inside(2) [OF L(2) _ c(1)]) simp
  have "liveOk nm U (fgoRCFreeClass mp b c st)"
    using ok freeClass_live [OF mp, of b c st] by (simp add: allocOk_def liveOk_def liveSum_def)
  then show ?thesis
    using freeClass_ok [OF L mp c b] ok by (auto simp: allocOk_def)
qed

text \<open>
  C32: allocating fails only when the size is too large or less than a chunk of the arena is left.
\<close>

theorem fgoRCAllocZ_total:
  assumes "allocOk nm U st" and "mp < nm" and "sz \<le> of_nat (fgoRCMaxSize - fgoHdr)"
    and "unat (nextBlk st) + fgoRCChunk \<le> unat (lo st) + fgoArenaSize"
  shows "fgoRCAllocZ mp sz st \<noteq> None"
proof -
  obtain L where bytes: "bytesOk nm L U st" using assms(1) by (auto simp: allocOk_def)
  have bound: "unat (lo st) + fgoArenaSize + fgoRCChunk < 2 ^ 64" using bytes by (simp add: bytesOk_def)
  have "unat (lo st + of_nat fgoArenaSize) = unat (lo st) + fgoArenaSize"
    using bound by (simp add: unat_word_ariths unat_of_nat)
  moreover have "unat (nextBlk st + of_nat fgoRCChunk) = unat (nextBlk st) + fgoRCChunk"
    using assms(4) bound by (simp add: unat_word_ariths unat_of_nat)
  ultimately have "\<not> nextBlk st + of_nat fgoRCChunk > lo st + of_nat fgoArenaSize"
    using assms(4) unfolding word_less_nat_alt by linarith
  then have arena: "fgoArenaAlloc (of_nat fgoRCChunk) st1 \<noteq> None" if "nextBlk st1 = nextBlk st" "lo st1 = lo st" for st1
    using that by (simp add: fgoArenaAlloc_def)
  have carve: "carve a e c st1 \<noteq> None" if "nextBlk st1 = nextBlk st" "lo st1 = lo st" for a e c st1
    using arena [OF that] by (auto simp: carve_def Let_def)
  have chunk: "fgoRCTakeChunk mp c st1 \<noteq> None" if st1: "nextBlk st1 = nextBlk st" "lo st1 = lo st" for c st1
  proof -
    obtain r where "carve (cchunk (caches st1 mp)) (cend (caches st1 mp)) c st1 = Some r" using carve [OF st1] by blast
    then show ?thesis by (cases r) (simp add: fgoRCTakeChunk_def)
  qed
  have cached: "fgoRCTakeCached mp c st \<noteq> None" for c
    using chunk by (auto simp: fgoRCTakeCached_def fgoRCRefill_def popCached_def Let_def)
  have shared: "fgoRCTakeShared c st \<noteq> None" for c
  proof -
    obtain r where "carve (gchunk st) (gend st) c st = Some r" using carve [OF refl refl] by blast
    then show ?thesis by (cases r) (auto simp: fgoRCTakeShared_def Let_def)
  qed
  have "takeClass mp c st \<noteq> None" for c
  proof -
    obtain r1 r2 where "fgoRCTakeCached mp c st = Some r1" "fgoRCTakeShared c st = Some r2" using cached [of c] shared [of c] by blast
    then show ?thesis by (cases r1; cases r2) (simp add: takeClass_def)
  qed
  then obtain r where "takeClass mp (fgoRCClass (of_nat fgoHdr + sz)) st = Some r" by blast
  then show ?thesis using assms(3) by (cases r) (auto simp: fgoRCAllocZ_def)
qed

section \<open>Programs that allocate and free\<close>

datatype 'n heapOp = AllocOp nat 'n | FreeOp nat nat

text \<open>A program keeps the list of its blocks; \<open>FreeOp mp i\<close> frees the \<open>i\<close>-th on \<open>mp\<close>.\<close>

fun heapRun :: "(nat \<Rightarrow> 'n \<Rightarrow> 's \<Rightarrow> ('p \<times> 's) option) \<Rightarrow> (nat \<Rightarrow> 'p \<Rightarrow> 'n \<Rightarrow> 's \<Rightarrow> 's) \<Rightarrow>
    'n heapOp list \<Rightarrow> ('p \<times> 'n) list \<Rightarrow> 's \<Rightarrow> (('p \<times> 'n) list \<times> 's) option" where
  "heapRun alloc free [] bs st = Some (bs, st)"
| "heapRun alloc free (AllocOp mp n # ops) bs st =
     Option.bind (alloc mp n st) (\<lambda>(p, st). heapRun alloc free ops (bs @ [(p, n)]) st)"
| "heapRun alloc free (FreeOp mp i # ops) bs st =
     (if length bs \<le> i then None
      else heapRun alloc free ops (take i bs @ drop (Suc i) bs) (free mp (fst (bs ! i)) (snd (bs ! i)) st))"

fun agentOf :: "'n heapOp \<Rightarrow> nat" where
  "agentOf (AllocOp mp n) = mp"
| "agentOf (FreeOp mp i) = mp"

text \<open>What allocator clients rely on: \<open>inv\<close> relates a state to the blocks in use.\<close>

locale block_allocator =
  fixes inv :: "('p \<times> 'n) multiset \<Rightarrow> 's \<Rightarrow> bool" and agent :: "nat \<Rightarrow> bool"
    and alloc :: "nat \<Rightarrow> 'n \<Rightarrow> 's \<Rightarrow> ('p \<times> 's) option" and free :: "nat \<Rightarrow> 'p \<Rightarrow> 'n \<Rightarrow> 's \<Rightarrow> 's"
  assumes alloc_inv: "inv U st \<Longrightarrow> agent mp \<Longrightarrow> alloc mp n st = Some (p, st') \<Longrightarrow> inv (add_mset (p, n) U) st'"
    and free_inv: "inv (add_mset (p, n) U) st \<Longrightarrow> agent mp \<Longrightarrow> inv U (free mp p n st)"
begin

lemma heapRun_inv:
  assumes "heapRun alloc free ops bs st = Some (bs', st')" and "\<forall>x \<in> set ops. agent (agentOf x)" and "inv (mset bs) st"
  shows "inv (mset bs') st'"
  using assms
proof (induction ops arbitrary: bs st)
  case (Cons x ops)
  show ?case
  proof (cases x)
    case (AllocOp mp n)
    then obtain p st1 where "alloc mp n st = Some (p, st1)" using Cons.prems(1) by (auto split: Option.bind_splits)
    with Cons AllocOp show ?thesis using alloc_inv [of "mset bs" st mp n p st1] by simp
  next
    case (FreeOp mp i)
    then have i: "i < length bs" using Cons.prems(1) by (auto split: if_splits)
    have "bs = take i bs @ bs ! i # drop (Suc i) bs" by (rule id_take_nth_drop [OF i])
    then have "mset bs = mset (take i bs @ bs ! i # drop (Suc i) bs)" by simp
    then have "mset bs = add_mset (fst (bs ! i), snd (bs ! i)) (mset (take i bs @ drop (Suc i) bs))" by simp
    with Cons.prems(2,3) FreeOp have "inv (mset (take i bs @ drop (Suc i) bs)) (free mp (fst (bs ! i)) (snd (bs ! i)) st)"
      using free_inv [of "fst (bs ! i)" "snd (bs ! i)" "mset (take i bs @ drop (Suc i) bs)" st mp] by simp
    moreover have "heapRun alloc free ops (take i bs @ drop (Suc i) bs) (free mp (fst (bs ! i)) (snd (bs ! i)) st) = Some (bs', st')"
      using Cons.prems(1) i FreeOp by simp
    ultimately show ?thesis using Cons.IH Cons.prems(2) by simp
  qed
qed simp

end

text \<open>The arena stays where it is.\<close>

lemma takeChunk_lo: "fgoRCTakeChunk mp c st = Some (b, fresh, st') \<Longrightarrow> lo st' = lo st"
  by (auto simp: fgoRCTakeChunk_def split: Option.bind_splits dest!: carve_frame)

lemma pop_lo: "popCached mp c st = (b, fresh, st') \<Longrightarrow> lo st' = lo st"
  by (auto simp: popCached_def Let_def)

lemma takeCached_lo: "fgoRCTakeCached mp c st = Some (b, fresh, st') \<Longrightarrow> lo st' = lo st"
  by (auto simp: fgoRCTakeCached_def fgoRCRefill_def Let_def split: if_splits dest!: pop_lo takeChunk_lo)

lemma takeShared_lo: "fgoRCTakeShared c st = Some (b, fresh, st') \<Longrightarrow> lo st' = lo st"
  by (auto simp: fgoRCTakeShared_def Let_def split: if_splits Option.bind_splits dest!: carve_frame)

lemma takeClass_lo: "takeClass mp c st = Some (b, fresh, st') \<Longrightarrow> lo st' = lo st"
  by (auto simp: takeClass_def countLive_def split: if_splits Option.bind_splits dest!: takeCached_lo takeShared_lo)

lemma alloc_lo: "fgoRCAllocZ mp sz st = Some (p, st') \<Longrightarrow> lo st' = lo st"
  by (auto simp: fgoRCAllocZ_def split: if_splits Option.bind_splits dest!: takeClass_lo)

lemma free_lo: "lo (fgoRCFree mp p sz st) = lo st"
  by (simp add: fgoRCFree_def fgoRCFreeClass_def fgoRCSpare_def Let_def)

text \<open>The bytes of an object with its header.\<close>

definition objBlock :: "uintptr \<times> uintptr \<Rightarrow> uintptr \<times> nat" where
  "objBlock ps = (fst ps - of_nat fgoHdr, fgoRCClass (of_nat fgoHdr + snd ps))"

definition heapInv :: "nat \<Rightarrow> uintptr \<Rightarrow> (uintptr \<times> uintptr) multiset \<Rightarrow> allocSt \<Rightarrow> bool" where
  "heapInv nm base U st \<longleftrightarrow> lo st = base \<and> allocOk nm (image_mset objBlock U) st \<and> (\<forall>(p, n) \<in># U. n \<le> of_nat (fgoRCMaxSize - fgoHdr))"

interpretation nogcHeap: block_allocator "heapInv nm base" "\<lambda>mp. mp < nm" fgoRCAllocZ fgoRCFree for nm base
proof
  fix U st mp n p st'
  assume "heapInv nm base U st" "mp < nm" and alloc: "fgoRCAllocZ mp n st = Some (p, st')"
  moreover have "n \<le> of_nat (fgoRCMaxSize - fgoHdr)" using alloc by (auto simp: fgoRCAllocZ_def split: if_splits)
  ultimately show "heapInv nm base (add_mset (p, n) U) st'"
    using fgoRCAllocZ_step [of nm "image_mset objBlock U" st mp n p st'] alloc_lo [OF alloc] by (simp add: heapInv_def objBlock_def)
next
  fix p n U st mp
  assume "heapInv nm base (add_mset (p, n) U) st" "mp < nm"
  then show "heapInv nm base U (fgoRCFree mp p n st)"
    using freeClass_step [of nm "p - of_nat fgoHdr" "fgoRCClass (of_nat fgoHdr + n)" "image_mset objBlock U" st mp]
    by (simp add: heapInv_def objBlock_def free_lo) (simp add: fgoRCFree_def)
qed

text \<open>Before anything was allocated, with the arena at \<open>base\<close>.\<close>

definition startSt :: "uintptr \<Rightarrow> allocSt" where
  "startSt base = \<lparr>links = (\<lambda>_. 0), caches = (\<lambda>_. fgoRCNewCache), gfree = (\<lambda>_. 0), gchunk = 0, gend = 0, glive = 0,
     spare = (\<lambda>_. []), lo = base, nextBlk = base\<rparr>"

definition arenaFits :: "uintptr \<Rightarrow> bool" where
  "arenaFits base \<longleftrightarrow> base \<noteq> 0 \<and> unat base + fgoArenaSize + fgoRCChunk < 2 ^ 64"

lemma startSt_ok:
  assumes "arenaFits base"
  shows "heapInv nm base {#} (startSt base)"
proof -
  let ?L = "\<lambda>_. []" and ?st = "startSt base"
  have "listsOk nm ?L ?st"
  proof (rule listsOkI)
    show "flist (links ?st) (headOf ?st k) []" for k by (cases k) (simp_all add: startSt_def fgoRCNewCache_def)
  qed (simp_all add: startSt_def fgoRCNewCache_def)
  moreover have "bytesOk nm ?L {#} ?st"
    using assms by (auto simp: bytesOk_def allBytes_def usedBytes_def restBytes_def chunkOk_def startSt_def fgoRCNewCache_def arenaFits_def unat_gt_0)
  moreover have "liveOk nm {#} ?st" by (simp add: liveOk_def startSt_def fgoRCNewCache_def)
  ultimately show ?thesis by (auto simp: heapInv_def allocOk_def startSt_def)
qed

definition objBytes :: "uintptr \<times> uintptr \<Rightarrow> nat set" where
  "objBytes ps = {unat (fst (objBlock ps)) ..< unat (fst (objBlock ps)) + fgoHdr + unat (snd ps)}"

lemma two_of_list:
  assumes "i < length xs" and "j < length xs" and "i \<noteq> j"
  obtains U where "mset xs = add_mset (xs ! i) (add_mset (xs ! j) U)"
proof -
  define A where "A = {0..<length xs} - {i} - {j}"
  have A: "finite A" "i \<notin> A" "j \<notin> A" "{0..<length xs} = insert i (insert j A)" using assms by (auto simp: A_def)
  have "mset xs = image_mset (nth xs) (mset_set {0..<length xs})"
    using arg_cong [OF map_nth [of xs], of mset] by (simp add: mset_map)
  then have "mset xs = add_mset (xs ! i) (add_mset (xs ! j) (image_mset (nth xs) (mset_set A)))"
    using A assms(3) by simp
  then show thesis by (rule that)
qed

lemma objBytes_block:
  assumes "snd ps \<le> of_nat (fgoRCMaxSize - fgoHdr)"
  shows "objBytes ps \<subseteq> {unat (fst (objBlock ps)) ..< unat (fst (objBlock ps)) + snd (objBlock ps) * fgoRCAlign}" and "1 \<le> snd (objBlock ps)"
  using class_bounds [OF assms] by (auto simp: objBytes_def objBlock_def)

text \<open>
  C5: whatever the Ms allocate and free, the objects in use and their headers lie in the arena and
  no two of them share a byte.
\<close>

theorem heap_objects_apart:
  assumes "arenaFits base" and "heapRun fgoRCAllocZ fgoRCFree ops [] (startSt base) = Some (bs, st)"
    and "\<forall>x \<in> set ops. agentOf x < nm" and "i < length bs" and "j < length bs" and "i \<noteq> j"
  shows "objBytes (bs ! i) \<inter> objBytes (bs ! j) = {} \<and> objBytes (bs ! i) \<subseteq> {unat base ..< unat base + fgoArenaSize}"
proof -
  have inv: "heapInv nm base (mset bs) st"
    by (rule nogcHeap.heapRun_inv [OF assms(2)]) (use assms(1,3) startSt_ok in simp_all)
  obtain U where U: "mset bs = add_mset (bs ! i) (add_mset (bs ! j) U)" by (rule two_of_list [OF assms(4-6)])
  let ?U = "image_mset objBlock U"
  obtain b c b' c' where blocks: "objBlock (bs ! i) = (b, c)" "objBlock (bs ! j) = (b', c')" by (meson surj_pair)
  have ok: "allocOk nm (add_mset (b, c) (add_mset (b', c') ?U)) st" "lo st = base"
    using inv by (simp_all add: heapInv_def U blocks)
  have small: "snd (bs ! i) \<le> of_nat (fgoRCMaxSize - fgoHdr)" "snd (bs ! j) \<le> of_nat (fgoRCMaxSize - fgoHdr)"
    using inv by (auto simp: heapInv_def U)
  note sub = objBytes_block [OF small(1), unfolded blocks fst_conv snd_conv] objBytes_block [OF small(2), unfolded blocks fst_conv snd_conv]
  obtain L where L: "bytesOk nm L (add_mset (b, c) (add_mset (b', c') ?U)) st" using ok(1) by (auto simp: allocOk_def)
  have "{unat b ..< unat b + c * fgoRCAlign} \<subseteq> {unat (lo st) ..< unat (nextBlk st)}"
    by (rule block_inside(1) [OF L _ sub(2)]) simp
  moreover have "unat (nextBlk st) \<le> unat (lo st) + fgoArenaSize" using L by (simp add: bytesOk_def)
  ultimately have "{unat b ..< unat b + c * fgoRCAlign} \<subseteq> {unat base ..< unat base + fgoArenaSize}"
    unfolding ok(2) by (meson atLeastLessThan_subset_iff ivl_subset subset_trans order_refl)
  then show ?thesis using sub(1,3) blocks_apart [OF ok(1)] by blast
qed

text \<open>
  The blocks in use are counted: the sum of the live counters of the Ms and of the shared lists
  is their number.
\<close>

theorem heap_live_counts:
  assumes "arenaFits base" and "heapRun fgoRCAllocZ fgoRCFree ops [] (startSt base) = Some (bs, st)"
    and "\<forall>x \<in> set ops. agentOf x < nm"
  shows "(\<Sum>mp < nm. clive (caches st mp)) + glive st = of_nat (length bs)"
proof -
  have "heapInv nm base (mset bs) st"
    by (rule nogcHeap.heapRun_inv [OF assms(2)]) (use assms(1,3) startSt_ok in simp_all)
  then show ?thesis by (simp add: heapInv_def allocOk_def liveOk_def)
qed

section \<open>An example\<close>

lemma exampleArena: "arenaFits 65536"
  by (simp add: arenaFits_def)

text \<open>Two Ms allocate, the second frees what the first allocated.\<close>

definition exampleOps :: "uintptr heapOp list" where
  "exampleOps = [AllocOp 0 24, AllocOp 0 40, AllocOp 1 24, FreeOp 1 0]"

lemma exampleRun: "\<exists>st. heapRun fgoRCAllocZ fgoRCFree exampleOps [] (startSt 65536) = Some ([(65600, 40), (131088, 24)], st)"
  by (simp add: exampleOps_def fgoRCAllocZ_def takeClass_def fgoRCTakeCached_def fgoRCRefill_def fgoRCTakeChunk_def carve_def Let_def
      fgoRCClass_def fgoArenaAlloc_def startSt_def fgoRCNewCache_def countLive_def setCache_def setLink_def)

theorem heap_objects_apart_witness:
  "objBytes ([(65600, 40), (131088, 24)] ! 0) \<inter> objBytes ([(65600, 40), (131088, 24)] ! 1) = {} \<and>
    objBytes ([(65600, 40), (131088, 24)] ! 0) \<subseteq> {unat (65536 :: uintptr) ..< unat (65536 :: uintptr) + fgoArenaSize}"
proof -
  obtain st where run: "heapRun fgoRCAllocZ fgoRCFree exampleOps [] (startSt 65536) = Some ([(65600, 40), (131088, 24)], st)"
    using exampleRun by blast
  show ?thesis
    by (rule heap_objects_apart [OF exampleArena run, where nm = 2]) (simp_all add: exampleOps_def)
qed

theorem heap_live_counts_witness:
  "\<exists>st. heapRun fgoRCAllocZ fgoRCFree exampleOps [] (startSt 65536) = Some ([(65600, 40), (131088, 24)], st) \<and>
    (\<Sum>mp < 2. clive (caches st mp)) + glive st = of_nat (length [(65600, 40), (131088, 24 :: uintptr)])"
proof -
  obtain st where run: "heapRun fgoRCAllocZ fgoRCFree exampleOps [] (startSt 65536) = Some ([(65600, 40), (131088, 24)], st)"
    using exampleRun by blast
  have "(\<Sum>mp < 2. clive (caches st mp)) + glive st = of_nat (length [(65600 :: uintptr, 40 :: uintptr), (131088, 24)])"
    by (rule heap_live_counts [OF exampleArena run]) (simp add: exampleOps_def)
  with run show ?thesis by auto
qed

theorem fgoRCAllocZ_total_witness: "fgoRCAllocZ 0 24 (startSt 65536) \<noteq> None"
proof (rule fgoRCAllocZ_total)
  show "allocOk 1 {#} (startSt 65536)"
    using startSt_ok [OF exampleArena, of 1] by (simp add: heapInv_def)
qed (simp_all add: startSt_def)

end
