(* ===== verification/RcOps.thy ===== *)
theory RcOps
  imports RcCount
begin

text \<open>
  \<^verbatim>\<open>src/src/runtime/forgo_rc.go\<close>: the decrements that keep an object's fields or its memory
  (Perceus' drop specialization and reuse), with the masks of words the compiler passes them, and
  \<^verbatim>\<open>TrailingZeros64\<close> (\<^verbatim>\<open>src/src/internal/runtime/sys/intrinsics.go\<close>), with which the loops over
  such a mask step from one word to the next.
\<close>

unbundle bit_operations_syntax

section \<open>Masks of words\<close>

definition deBruijn64tab :: "nat list" where
  "deBruijn64tab =
    [0, 1, 56, 2, 57, 49, 28, 3, 61, 58, 42, 50, 38, 29, 17, 4,
     62, 47, 59, 36, 45, 43, 51, 22, 53, 39, 33, 30, 24, 18, 12, 5,
     63, 55, 48, 27, 60, 41, 37, 16, 46, 35, 44, 21, 52, 32, 23, 11,
     54, 26, 40, 15, 34, 20, 31, 10, 25, 14, 19, 9, 13, 8, 7, 6]"

definition deBruijn64 :: uintptr where
  "deBruijn64 = 0x03f79d71b4ca8b09"

definition TrailingZeros64 :: "uintptr \<Rightarrow> nat" where
  "TrailingZeros64 x =
     (if x = 0 then 64
      else deBruijn64tab ! unat (drop_bit (64 - 6) ((x AND - x) * deBruijn64)))"

lemma word_lsb_split:
  fixes x :: uintptr assumes "x \<noteq> 0"
  obtains t where "t < 64" and "bit x t" and "\<And>i. i < t \<Longrightarrow> \<not> bit x i"
proof -
  obtain i where "bit x i" using assms by (metis bit_eq_iff bit_0_eq bot_apply bot_bool_def)
  then have "bit x (LEAST i. bit x i)" by (rule LeastI)
  moreover then have "(LEAST i. bit x i) < 64" by (auto dest: bit_imp_le_length)
  ultimately show ?thesis using that not_less_Least by blast
qed

text \<open>Subtracting one clears the lowest bit set and sets those below it.\<close>

lemma bit_pred:
  fixes x :: uintptr
  assumes "t < 64" and "bit x t" and "\<And>i. i < t \<Longrightarrow> \<not> bit x i"
  shows "bit (x - 1) i \<longleftrightarrow> i < t \<or> t < i \<and> bit x i"
proof -
  define y where "y = x AND NOT (push_bit t 1)"
  have "bit x j = (bit y j \<or> j = t \<and> j < 64)" for j
    using assms(2) bit_imp_le_length [of x j] by (auto simp: y_def bit_simps)
  then have "x = y OR push_bit t 1"
    using assms(1) by (intro bit_word_eqI) (auto simp: bit_simps)
  moreover have "y AND push_bit t 1 = 0"
    by (rule bit_word_eqI) (simp add: y_def bit_simps)
  ultimately have "x = y + push_bit t 1"
    by (simp add: disjunctive_add_eq_or)
  then have x: "x - 1 = y + mask t"
    by (simp add: mask_eq_exp_minus_1 push_bit_eq_mult)
  have "y AND mask t = 0"
    using assms(3) by (intro bit_word_eqI) (auto simp: y_def bit_simps)
  then have "x - 1 = y OR mask t"
    unfolding x by (simp add: disjunctive_add_eq_or)
  then show ?thesis
    using assms bit_imp_le_length [of x i] by (auto simp: y_def bit_simps)
qed

lemma lowest_bit:
  fixes x :: uintptr
  assumes "t < 64" and "bit x t" and "\<And>i. i < t \<Longrightarrow> \<not> bit x i"
  shows "x AND - x = push_bit t 1"
proof (rule bit_word_eqI)
  fix i :: nat assume "i < LENGTH(64)"
  have "- x = NOT (x - 1)" by (simp add: minus_eq_not_minus_1 [symmetric] not_eq_complement)
  then show "bit (x AND - x) i = bit (push_bit t 1 :: uintptr) i"
    using bit_pred [OF assms, of i] assms \<open>i < LENGTH(64)\<close> by (auto simp: bit_simps)
qed

lemma deBruijn_table: "\<forall>t\<in>set [0..<64]. deBruijn64tab ! unat (drop_bit 58 (push_bit t 1 * deBruijn64)) = t"
  by (simp add: deBruijn64tab_def deBruijn64_def upt_rec push_bit_eq_mult drop_bit_eq_div)

lemma trailing_zeros_bit:
  assumes "x \<noteq> 0"
  shows "TrailingZeros64 x < 64 \<and> bit x (TrailingZeros64 x) \<and> (\<forall>i < TrailingZeros64 x. \<not> bit x i)"
proof -
  obtain t where t: "t < 64" "bit x t" "\<And>i. i < t \<Longrightarrow> \<not> bit x i"
    using word_lsb_split [OF assms] by blast
  then have "TrailingZeros64 x = t"
    using deBruijn_table assms by (simp add: TrailingZeros64_def lowest_bit [OF t])
  with t show ?thesis by simp
qed

text \<open>The words a mask selects, in the order of the loops \<^verbatim>\<open>for ; keep != 0; keep &= keep - 1\<close>.\<close>

lemma clear_lowest: "(x::uintptr) \<noteq> 0 \<Longrightarrow> unat (x AND (x - 1)) < unat x"
proof -
  assume "x \<noteq> 0"
  then have "unat (x - 1) < unat x" by (simp add: unat_minus_one unat_gt_0)
  moreover have "x AND (x - 1) \<le> x - 1" by (rule word_and_le1)
  ultimately show ?thesis by (simp add: word_le_nat_alt)
qed

function keepOffs :: "uintptr \<Rightarrow> nat list" where
  "keepOffs keep = (if keep = 0 then [] else TrailingZeros64 keep # keepOffs (keep AND (keep - 1)))"
  by pat_completeness auto
termination
  by (relation "measure unat") (simp_all add: clear_lowest)

declare keepOffs.simps [simp del]

lemma keepOffs_filter: "keepOffs keep = filter (bit keep) [0..<64]"
proof (induction keep rule: keepOffs.induct)
  case (1 keep)
  show ?case
  proof (cases "keep = 0")
    case True
    then show ?thesis by (simp add: keepOffs.simps)
  next
    case False
    define t where "t = TrailingZeros64 keep"
    have t: "t < 64" "bit keep t" "\<And>i. i < t \<Longrightarrow> \<not> bit keep i"
      using trailing_zeros_bit [OF False] by (simp_all add: t_def)
    have rest: "bit (keep AND (keep - 1)) i \<longleftrightarrow> t < i \<and> bit keep i" for i
      using bit_pred [OF t, of i] t(3) [of i] by (auto simp: bit_and_iff)
    have upt: "[0..<64] = [0..<t] @ t # [Suc t..<64]"
      using upt_add_eq_append [of 0 t "64 - t"] t(1) by (simp add: upt_conv_Cons del: upt_Suc)
    have "filter (bit (keep AND (keep - 1))) [Suc t..<64] = filter (bit keep) [Suc t..<64]"
      by (rule filter_cong) (auto simp: rest)
    moreover have "filter (bit (keep AND (keep - 1))) [0..<t] = []" "filter (bit keep) [0..<t] = []"
      using t(3) by (auto simp: filter_empty_conv rest)
    ultimately have "t # filter (bit (keep AND (keep - 1))) [0..<64] = filter (bit keep) [0..<64]"
      unfolding upt by (simp add: rest t(2))
    then show ?thesis
      using 1 [OF False] False by (simp add: keepOffs.simps [of keep] t_def)
  qed
qed

section \<open>Keeping an object's fields\<close>

definition fieldPtr :: "rcObj \<Rightarrow> nat \<Rightarrow> uintptr option" where
  "fieldPtr x off = (case map_of (rcFields x) off of Some (PtrF c) \<Rightarrow> Some c | _ \<Rightarrow> None)"

definition putField :: "nat \<Rightarrow> rcField \<Rightarrow> rcObj \<Rightarrow> rcObj" where
  "putField off g x = x\<lparr>rcFields := map (\<lambda>(o1, f). (o1, if o1 = off then g else f)) (rcFields x)\<rparr>"

abbreviation setField :: "nat \<Rightarrow> uintptr \<Rightarrow> rcObj \<Rightarrow> rcObj" where
  "setField off v \<equiv> putField off (PtrF v)"

definition storePtr :: "uintptr \<Rightarrow> nat \<Rightarrow> uintptr \<Rightarrow> rcMem \<Rightarrow> rcMem option" where
  "storePtr p off v m = Option.bind (objs m p) (\<lambda>x.
     Option.bind (fieldPtr x off) (\<lambda>_. Some (putObj p (setField off v x) m)))"

definition loadPtr :: "uintptr \<Rightarrow> nat \<Rightarrow> rcMem \<Rightarrow> uintptr option" where
  "loadPtr p off m = Option.bind (objs m p) (\<lambda>x. fieldPtr x off)"

definition fgoTakeFields :: "uintptr \<Rightarrow> uintptr \<Rightarrow> rcMem \<Rightarrow> rcMem option" where
  "fgoTakeFields p keep = forAll (\<lambda>off. storePtr p off 0) (keepOffs keep)"

definition fgoIncObj :: "uintptr \<Rightarrow> rcMem \<Rightarrow> rcMem option" where
  "fgoIncObj c m =
     (if c = 0 then Some m
      else Option.bind (objs m c) (\<lambda>h.
        if rc h AND (fgoHeld OR fgoSharedBit) = 0 then Some (putObj c (h\<lparr>rc := rc h + 1\<rparr>) m)
        else Some (addRC 1 c m)))"

definition fgoIncFields :: "uintptr \<Rightarrow> uintptr \<Rightarrow> rcMem \<Rightarrow> rcMem option" where
  "fgoIncFields p keep m =
     (if fgoState m p \<noteq> SCounted
      then forAll (\<lambda>off m. Option.bind (loadPtr p off m) (\<lambda>c. Some (fgoRCInc c m))) (keepOffs keep) m
      else forAll (\<lambda>off m. Option.bind (loadPtr p off m) (\<lambda>c. fgoIncObj c m)) (keepOffs keep) m)"

definition fgoRCDecKeep :: "uintptr \<Rightarrow> uintptr \<Rightarrow> rcMem \<Rightarrow> rcMem option" where
  "fgoRCDecKeep p keep m =
     (if fgoUnique m p then Option.bind (fgoTakeFields p keep m) (fgoRCRelease p True)
      else Option.bind (fgoIncFields p keep m) (fgoRCDec p))"

definition fgoRCDropReuse :: "uintptr \<Rightarrow> rcMem \<Rightarrow> (rcMem \<times> uintptr) option" where
  "fgoRCDropReuse p m =
     (if fgoState m p \<noteq> SCounted then Option.bind (fgoRCDec p m) (\<lambda>m. Some (m, 0))
      else let m1 = addRC (-1) p m in
        if hdrRC m1 p \<noteq> 0 then Some (m1, 0)
        else Option.bind (objs m1 p) (\<lambda>x.
          if rcMixed x then Option.bind (fgoRCRelease p True m1) (\<lambda>m. Some (m, 0))
          else Option.bind (fgoRCRelease p False m1) (\<lambda>m. Some (m, p))))"

text \<open>An object whose memory the caller takes over is no object any more.\<close>

definition fgoRCDropReuseAll :: "uintptr \<Rightarrow> uintptr \<Rightarrow> rcMem \<Rightarrow> (rcMem \<times> uintptr) option" where
  "fgoRCDropReuseAll p keep m =
     (if fgoUnique m p then Some (freeObj p False m, p)
      else Option.bind (fgoIncFields p keep m) (\<lambda>m. Option.bind (fgoRCDec p m) (\<lambda>m. Some (m, 0))))"

definition fgoRCDecAll :: "uintptr \<Rightarrow> uintptr \<Rightarrow> rcMem \<Rightarrow> rcMem option" where
  "fgoRCDecAll p keep m =
     (if fgoUnique m p then Some (freeObj p True m)
      else Option.bind (fgoIncFields p keep m) (fgoRCDec p))"

definition fgoRCDropReuseKeep :: "uintptr \<Rightarrow> uintptr \<Rightarrow> rcMem \<Rightarrow> (rcMem \<times> uintptr) option" where
  "fgoRCDropReuseKeep p keep m =
     (if \<not> fgoUnique m p
      then Option.bind (fgoIncFields p keep m) (\<lambda>m. Option.bind (fgoRCDec p m) (\<lambda>m. Some (m, 0)))
      else Option.bind (fgoTakeFields p keep m) (\<lambda>m. Option.bind (objs m p) (\<lambda>x.
        if rcMixed x then Option.bind (fgoRCRelease p True m) (\<lambda>m. Some (m, 0))
        else Option.bind (fgoRCRelease p False m) (\<lambda>m. Some (m, p)))))"

text \<open>The references the caller keeps: those in the words of \<open>keep\<close>, which hold nogc pointers.\<close>

definition keepable :: "rcObj \<Rightarrow> nat list \<Rightarrow> bool" where
  "keepable x offs \<longleftrightarrow> distinct (map fst (rcFields x)) \<and> (\<forall>off \<in> set offs. fieldPtr x off \<noteq> None)"

definition kept :: "rcObj \<Rightarrow> nat list \<Rightarrow> uintptr list" where
  "kept x offs = map (\<lambda>off. the (fieldPtr x off)) offs"

lemma kept_simps [simp]: "kept x [] = []" "kept x (off # offs) = the (fieldPtr x off) # kept x offs"
  by (simp_all add: kept_def)

lemma live_append [simp]: "live (cs @ ds) = live cs + live ds"
  by (simp add: live_def)

lemma fields_split:
  assumes "map_of fs off = Some f" and "distinct (map fst fs)"
  obtains us vs where "fs = us @ (off, f) # vs" and "off \<notin> fst ` set us" and "off \<notin> fst ` set vs"
proof -
  obtain us vs where "fs = us @ (off, f) # vs"
    using map_of_SomeD [OF assms(1)] by (meson split_list)
  with assms(2) that show ?thesis by auto
qed

lemma map_putField: "off \<notin> fst ` set fs \<Longrightarrow> map (\<lambda>(o1, f). (o1, if o1 = off then g else f)) fs = fs"
  by (rule map_idI) force

text \<open>What a store into a field does to the references of the object.\<close>

lemma putField_slots:
  assumes "map_of (rcFields x) off = Some f" and "distinct (map fst (rcFields x))"
  shows "live (slots (putField off g x)) + live (fieldRefs f) = live (slots x) + live (fieldRefs g)"
proof -
  obtain us vs where "rcFields x = us @ (off, f) # vs" "off \<notin> fst ` set us" "off \<notin> fst ` set vs"
    using fields_split assms by metis
  then show ?thesis
    by (simp add: putField_def slots_def map_putField)
qed

lemma fieldPtr_map_of: "fieldPtr x off = Some c \<longleftrightarrow> map_of (rcFields x) off = Some (PtrF c)"
  by (auto simp: fieldPtr_def split: option.splits rcField.splits)

lemma putField_fields [simp]:
  "map fst (rcFields (putField off g x)) = map fst (rcFields x)"
  "rc (putField off g x) = rc x" "rcMark (putField off g x) = rcMark x" "rcMixed (putField off g x) = rcMixed x"
  by (auto simp: putField_def)

lemma fieldPtr_setField:
  "fieldPtr (setField off v x) o1 = (if o1 = off \<and> off \<in> fst ` set (rcFields x) then Some v else fieldPtr x o1)"
proof -
  have "map_of (map (\<lambda>(o1, f). (o1, if o1 = off then PtrF v else f)) fs) o1 =
      (if o1 = off \<and> off \<in> fst ` set fs then Some (PtrF v) else map_of fs o1)" for fs :: "(nat \<times> rcField) list"
    by (induction fs) (force split: if_splits)+
  then show ?thesis by (simp add: fieldPtr_def putField_def)
qed

lemma keepOffs_distinct: "distinct (keepOffs keep)"
  by (simp add: keepOffs_filter)

text \<open>Taking fields over from an object that is going.\<close>

lemma storePtr_dying:
  assumes "dying m p [] (slots x) R" and x: "objs m p = Some x" and "fieldPtr x off = Some c" and "distinct (map fst (rcFields x))"
  shows "storePtr p off 0 m = Some (putObj p (setField off 0 x) m)"
    and "dying (putObj p (setField off 0 x) m) p [] (slots (setField off 0 x)) (R + live [c])"
proof -
  let ?m = "putObj p (setField off 0 x) m"
  show "storePtr p off 0 m = Some ?m" using assms by (simp add: storePtr_def)
  have dom: "dom (objs ?m) = dom (objs m)" using x by simp
  have "refsOf ?m (dom (objs m) - {p}) = refsOf m (dom (objs m) - {p})"
    by (auto simp: refsOf_def putObj_def intro!: sum.cong)
  then have "allRefs ?m p (slots (setField off 0 x)) (R + live [c]) = allRefs m p (slots x) R"
    using putField_slots [OF assms(3) [unfolded fieldPtr_map_of] assms(4), of "PtrF 0"] by (simp add: allRefs_def dom live_Cons ac_simps)
  then show "dying ?m p [] (slots (setField off 0 x)) (R + live [c])"
    using assms(1) by (auto simp: dying_def dom) (auto simp: putObj_def)
qed

text \<open>\<open>m'\<close> differs from \<open>m\<close> in the fields of \<open>p\<close> alone.\<close>

definition sameBut :: "uintptr \<Rightarrow> rcMem \<Rightarrow> rcMem \<Rightarrow> bool" where
  "sameBut p m m' \<longleftrightarrow> freedMem m' = freedMem m \<and> dom (objs m') = dom (objs m) \<and> (\<forall>q. q \<noteq> p \<longrightarrow> objs m' q = objs m q)"

lemma sameBut_shrinks: "sameBut p m m1 \<Longrightarrow> shrinks K m1 m' \<Longrightarrow> p \<notin> dom (objs m') \<Longrightarrow> shrinks K m m'"
  unfolding sameBut_def shrinks_def by (metis domIff option.distinct(1))

lemma keepable_setField:
  assumes "keepable x (off # offs)" and "off \<notin> set offs"
  shows "keepable (setField off v x) offs" and "kept (setField off v x) offs = kept x offs"
proof -
  have "fieldPtr (setField off v x) o1 = fieldPtr x o1" if "o1 \<in> set offs" for o1
    using that assms(2) by (auto simp: fieldPtr_setField)
  then show "keepable (setField off v x) offs" "kept (setField off v x) offs = kept x offs"
    using assms(1) by (simp_all add: keepable_def kept_def)
qed

lemma fgoTakeFields_dying:
  assumes "dying m p [] (slots x) R" and "objs m p = Some x" and "keepable x offs" and "distinct offs"
  obtains m' x' where "forAll (\<lambda>off. storePtr p off 0) offs m = Some m'" and "objs m' p = Some x'"
    and "rcMark x' = rcMark x" and "rcMixed x' = rcMixed x" and "dying m' p [] (slots x') (R + live (kept x offs))" and "sameBut p m m'"
  using assms
proof (induction offs arbitrary: m x R thesis)
  case Nil
  then show ?case by (auto simp: sameBut_def)
next
  case (Cons off offs)
  obtain c where c: "fieldPtr x off = Some c" "distinct (map fst (rcFields x))"
    using Cons.prems(4) by (auto simp: keepable_def)
  let ?x = "setField off 0 x" and ?m = "putObj p (setField off 0 x) m"
  have x: "objs ?m p = Some ?x" by (simp add: putObj_def)
  have off: "off \<notin> set offs" "distinct offs" using Cons.prems(5) by simp_all
  note step = storePtr_dying [OF Cons.prems(2,3) c]
  note keep = keepable_setField [OF Cons.prems(4) off(1), of 0]
  show ?case
  proof (rule Cons.IH [OF _ step(2) x keep(1) off(2)])
    fix m' x'
    assume m': "forAll (\<lambda>off. storePtr p off 0) offs ?m = Some m'" "objs m' p = Some x'" "rcMark x' = rcMark ?x"
      "rcMixed x' = rcMixed ?x" "dying m' p [] (slots x') (R + live [c] + live (kept ?x offs))" "sameBut p ?m m'"
    have "sameBut p m m'"
      using m'(6) Cons.prems(3) by (auto simp: sameBut_def putObj_def)
    moreover have "R + live (kept x (off # offs)) = R + live [c] + live (kept ?x offs)"
      using c(1) keep(2) by (simp add: live_Cons)
    ultimately show thesis
      using m' step(1) by (intro Cons.prems(1) [of m' x']) (simp_all add: add.assoc del: kept_simps)
  qed
qed

text \<open>Counting the fields the caller keeps of an object that stays.\<close>

lemma fgoIncObj_inc:
  assumes "rcOk m R" and "c = 0 \<or> c \<in> dom (objs m)"
  shows "fgoIncObj c m = Some (fgoRCInc c m)"
proof (cases "c = 0")
  case True
  moreover have "objs m 0 = None" using assms(1) by (auto simp: rcOk_def)
  ultimately show ?thesis by (simp add: fgoIncObj_def fgoRCInc_def fgoState_def)
next
  case False
  then obtain x where x: "objs m c = Some x" using assms(2) by auto
  then have "rcMark x \<noteq> SNone" using rcOk_exact [OF assms(1) x] by (simp add: exact_def)
  with False x show ?thesis by (simp add: fgoIncObj_def fgoRCInc_def fgoState_def addRC_def)
qed

lemma fgoRCInc_ok:
  assumes "rcOk m R" and "c = 0 \<or> c \<in> dom (objs m)" and "size (refsOf m (dom (objs m)) + R) + 1 < 2 ^ 62"
  shows "rcOk (fgoRCInc c m) (R + live [c]) \<and> sameShape m (fgoRCInc c m)"
proof (cases "c = 0")
  case True
  moreover have "objs m 0 = None" using assms(1) by (auto simp: rcOk_def)
  ultimately show ?thesis using assms(1) by (simp add: fgoRCInc_def fgoState_def live_Cons)
next
  case False
  then obtain x where x: "objs m c = Some x" using assms(2) by auto
  let ?T = "refsOf m (dom (objs m)) + R"
  have ex: "exact ?T c x" by (rule rcOk_exact [OF assms(1) x])
  then have inc: "fgoRCInc c m = putObj c (x\<lparr>rc := rc x + 1\<rparr>) m"
    using x by (simp add: fgoRCInc_def fgoState_def addRC_def exact_def)
  have "exact (refsOf m (dom (objs m)) + add_mset c R) c (x\<lparr>rc := rc x + 1\<rparr>)"
    using ex by (simp add: exact_def)
  then have "rcOk (putObj c (x\<lparr>rc := rc x + 1\<rparr>) m) (add_mset c R)"
    using assms x by (intro rcOk_put) (auto simp: rcOk_def)
  with inc sameShape_put [OF x] False show ?thesis by (simp add: live_Cons)
qed

lemma sameShape_refs: "sameShape m m' \<Longrightarrow> refsOf m' (dom (objs m')) = refsOf m (dom (objs m))"
  using sameShape_kids [of m m'] by (auto simp: sameShape_def refsOf_def intro!: sum.cong)

lemma size_live: "size (live cs) \<le> length cs"
  by (simp add: live_def flip: mset_filter)

lemma incFields_ok:
  assumes "rcOk m R" and "objs m p = Some x" and "keepable x offs" and "set (kept x offs) \<subseteq> insert 0 (dom (objs m))"
    and "size (refsOf m (dom (objs m)) + R) + length offs < 2 ^ 62"
  shows "\<exists>m'. forAll (\<lambda>off m. Option.bind (loadPtr p off m) (\<lambda>c. Some (fgoRCInc c m))) offs m = Some m' \<and>
           forAll (\<lambda>off m. Option.bind (loadPtr p off m) (\<lambda>c. fgoIncObj c m)) offs m = Some m' \<and>
           rcOk m' (R + live (kept x offs)) \<and> sameShape m m'"
  using assms
proof (induction offs arbitrary: m R x)
  case Nil
  then show ?case by simp
next
  case (Cons off offs)
  obtain c where c: "fieldPtr x off = Some c" using Cons.prems(3) by (auto simp: keepable_def)
  have dom: "c = 0 \<or> c \<in> dom (objs m)" using Cons.prems(4) c by auto
  let ?m = "fgoRCInc c m"
  have inc: "rcOk ?m (R + live [c])" "sameShape m ?m"
    using fgoRCInc_ok [OF Cons.prems(1) dom] Cons.prems(5) by simp_all
  have "p \<in> dom (objs ?m)" using inc(2) Cons.prems(2) by (auto simp: sameShape_def)
  then obtain y where y: "objs ?m p = Some y" by auto
  then have fields: "rcFields y = rcFields x" using inc(2) Cons.prems(2) by (simp add: sameShape_def)
  then have y': "keepable y offs" "kept y offs = kept x offs"
    using Cons.prems(3) by (simp_all add: keepable_def kept_def fieldPtr_def)
  have dom': "dom (objs ?m) = dom (objs m)" using inc(2) by (simp add: sameShape_def)
  obtain m' where m': "forAll (\<lambda>off m. Option.bind (loadPtr p off m) (\<lambda>c. Some (fgoRCInc c m))) offs ?m = Some m'"
      "forAll (\<lambda>off m. Option.bind (loadPtr p off m) (\<lambda>c. fgoIncObj c m)) offs ?m = Some m'"
      "rcOk m' (R + live [c] + live (kept x offs))" "sameShape ?m m'"
    using Cons.IH [OF inc(1) y y'(1)] Cons.prems(4,5) y'(2) sameShape_refs [OF inc(2)] size_live [of "[c]"] dom'
    by auto
  have "loadPtr p off m = Some c" using Cons.prems(2) c by (simp add: loadPtr_def)
  moreover have "R + live (kept x (off # offs)) = R + live [c] + live (kept x offs)"
    using c by (simp add: live_Cons)
  ultimately show ?case
    using m' sameShape_trans [OF inc(2) m'(4)] fgoIncObj_inc [OF Cons.prems(1) dom]
    by (simp add: add.assoc del: kept_simps)
qed

text \<open>The two ways a decrement with kept fields goes.\<close>

lemma unique_alone:
  assumes "rcOk m (add_mset p R)" and "fgoUnique m p"
  obtains x where "objs m p = Some x" and "rcMark x = SCounted" and "count (refsOf m (dom (objs m)) + R) p = 0"
proof -
  obtain x where x: "objs m p = Some x" using rcOk_object [OF assms(1), of p] by auto
  then have u: "rcMark x = SCounted" "rc x = 1" using assms(2) by (simp_all add: fgoUnique_def fgoState_def hdrRC_def)
  let ?n = "count (refsOf m (dom (objs m)) + R) p"
  have rc: "rc x = of_nat (Suc ?n)" using rcOk_exact [OF assms(1) x] u(1) by (simp add: exact_def)
  have "?n \<le> size (refsOf m (dom (objs m)) + R)" by (rule count_le_size)
  also have "\<dots> < 2 ^ 62" using assms(1) by (simp add: rcOk_def)
  finally have "Suc ?n < 2 ^ 64" by simp
  then have "?n = 0" using rc u(2) of_nat_inj [of "Suc ?n" 1] by simp
  with x u(1) that show thesis by blast
qed

lemma keep_shared:
  assumes "rcOk m (add_mset p R)" and "objs m p = Some x" and "keepable x (keepOffs keep)"
    and "rcMark x = SHanded \<longrightarrow> set (kept x (keepOffs keep)) \<subseteq> insert 0 (dom (objs m))"
    and "size (refsOf m (dom (objs m)) + R) + 65 < 2 ^ 62"
  shows "\<exists>m1 m'. fgoIncFields p keep m = Some m1 \<and> fgoRCDec p m1 = Some m' \<and>
     rcOk m' (R + live (kept x (keepOffs keep))) \<and> shrinks {} m m'"
proof -
  let ?offs = "keepOffs keep"
  have "length (filter (bit keep) [0..<64]) \<le> length [0..<64]" by (rule length_filter_le)
  then have len: "length ?offs \<le> 64" by (simp add: keepOffs_filter)
  have "c \<in> insert 0 (dom (objs m))" if c: "c \<in> set (kept x ?offs)" "rcMark x \<noteq> SHanded" for c
  proof -
    obtain off where "off \<in> set ?offs" "c = the (fieldPtr x off)"
      using c(1) unfolding kept_def set_map by blast
    then have "fieldPtr x off = Some c" using assms(3) by (auto simp: keepable_def)
    then have "c \<in> set (slots x)"
      by (auto simp: fieldPtr_def slots_def split: option.splits rcField.splits dest!: map_of_SomeD intro!: bexI)
    then have "c = 0 \<or> c \<in># kids x" using c(2) by (simp add: kids_def live_def)
    then show ?thesis
      using assms(1) kids_refsOf [of m p x] assms(2) by (auto simp: rcOk_def)
  qed
  then have dom: "set (kept x ?offs) \<subseteq> insert 0 (dom (objs m))"
    using assms(4) by blast
  have size: "size (refsOf m (dom (objs m)) + add_mset p R) + length ?offs < 2 ^ 62"
    using assms(5) len by simp
  obtain m1 where m1: "fgoIncFields p keep m = Some m1" "rcOk m1 (add_mset p R + live (kept x ?offs))" "sameShape m m1"
    using incFields_ok [OF assms(1-3) dom size] unfolding fgoIncFields_def by (cases "fgoState m p = SCounted") auto
  then have "rcOk m1 (add_mset p (R + live (kept x ?offs)))" by simp
  from dec_exact [OF this] m1(1,3) shrinks_shape [OF m1(3)] show ?thesis by blast
qed

lemma keep_unique:
  assumes "rcOk m (add_mset p R)" and "objs m p = Some x" and "keepable x (keepOffs keep)" and "fgoUnique m p"
  obtains m1 x1 m' where "fgoTakeFields p keep m = Some m1" and "objs m1 p = Some x1" and "rcMixed x1 = rcMixed x"
    and "fgoRCRelease p free m1 = Some m'" and "rcOk m' (R + live (kept x (keepOffs keep)))"
    and "shrinks (if free then {} else {p}) m m'" and "p \<notin> dom (objs m')"
proof -
  have x: "rcMark x = SCounted" "count (refsOf m (dom (objs m)) + R) p = 0"
    using unique_alone [OF assms(1,4)] assms(2) by auto
  have same: "putObj p (x\<lparr>rc := rc x\<rparr>) m = m" using assms(2) by (simp add: putObj_def fun_upd_idem)
  have "dying m p [] (slots x) R"
    using rcOk_dying [OF assms(1,2) _ x(2), of "rc x"] x(1) unfolding same by simp
  from fgoTakeFields_dying [OF this assms(2,3) keepOffs_distinct]
  obtain m1 x1 where m1: "fgoTakeFields p keep m = Some m1" "objs m1 p = Some x1" "rcMixed x1 = rcMixed x"
      "dying m1 p [] (slots x1) (R + live (kept x (keepOffs keep)))" "sameBut p m m1"
    unfolding fgoTakeFields_def by metis
  obtain m' where m': "releaseLoop p free (m1, 0) = Some m'" "rcOk m' (R + live (kept x (keepOffs keep)))"
      "shrinks (if free then {} else {p}) m1 m'" "p \<notin> dom (objs m')"
    using releaseLoop_ok [OF m1(4,2), of 0 free] by auto
  show thesis
    by (rule that [OF m1(1-3) _ m'(2) sameBut_shrinks [OF m1(5) m'(3,4)] m'(4)]) (simp add: fgoRCRelease_def m'(1))
qed

lemma decKeep_exact:
  assumes "rcOk m (add_mset p R)" and "objs m p = Some x" and "keepable x (keepOffs keep)"
    and "rcMark x = SHanded \<longrightarrow> set (kept x (keepOffs keep)) \<subseteq> insert 0 (dom (objs m))"
    and "size (refsOf m (dom (objs m)) + R) + 65 < 2 ^ 62"
  shows "\<exists>m'. fgoRCDecKeep p keep m = Some m' \<and> rcOk m' (R + live (kept x (keepOffs keep))) \<and> shrinks {} m m'"
proof (cases "fgoUnique m p")
  case True
  show ?thesis
    by (rule keep_unique [OF assms(1-3) True, of True]) (simp add: fgoRCDecKeep_def True)
next
  case False
  then show ?thesis
    using keep_shared [OF assms] by (auto simp: fgoRCDecKeep_def)
qed

definition tokenOk :: "uintptr \<Rightarrow> uintptr \<Rightarrow> rcMem \<Rightarrow> rcMem \<Rightarrow> bool" where
  "tokenOk p token m m' \<longleftrightarrow> (token = 0 \<and> shrinks {} m m' \<or> token = p \<and> p \<noteq> 0 \<and> p \<notin> dom (objs m') \<and> shrinks {p} m m')"

lemma dropReuseKeep_exact:
  assumes "rcOk m (add_mset p R)" and "objs m p = Some x" and "keepable x (keepOffs keep)"
    and "rcMark x = SHanded \<longrightarrow> set (kept x (keepOffs keep)) \<subseteq> insert 0 (dom (objs m))"
    and "size (refsOf m (dom (objs m)) + R) + 65 < 2 ^ 62"
  shows "\<exists>m' token. fgoRCDropReuseKeep p keep m = Some (m', token) \<and> rcOk m' (R + live (kept x (keepOffs keep))) \<and>
           tokenOk p token m m'"
proof (cases "fgoUnique m p")
  case True
  have p: "p \<noteq> 0" using assms(1,2) by (auto simp: rcOk_def)
  show ?thesis
  proof (cases "rcMixed x")
    case mixed: True
    show ?thesis
      by (rule keep_unique [OF assms(1-3) True, of True]) (simp add: fgoRCDropReuseKeep_def True mixed tokenOk_def)
  next
    case plain: False
    show ?thesis
      by (rule keep_unique [OF assms(1-3) True, of False]) (use p in \<open>simp add: fgoRCDropReuseKeep_def True plain tokenOk_def domIff\<close>)
  qed
next
  case False
  then show ?thesis
    using keep_shared [OF assms] by (auto simp: fgoRCDropReuseKeep_def tokenOk_def)
qed

lemma dropReuse_exact:
  assumes "rcOk m (add_mset p R)"
  shows "\<exists>m' token. fgoRCDropReuse p m = Some (m', token) \<and> rcOk m' R \<and> tokenOk p token m m'"
proof (cases "fgoState m p = SCounted")
  case True
  obtain x where x: "objs m p = Some x" "p \<noteq> 0" using rcOk_object [OF assms, of p] by auto
  let ?T = "refsOf m (dom (objs m)) + R" and ?m = "putObj p (x\<lparr>rc := rc x - 1\<rparr>) m"
  have counted: "rcMark x = SCounted" using True x by (simp add: fgoState_def)
  have ex: "exact (add_mset p ?T) p x" and size: "size (add_mset p ?T) < 2 ^ 62"
    using assms x by (simp_all add: rcOk_def)
  have n: "count (add_mset p ?T) p = Suc (count ?T p)" by simp
  note tests = count_dec [OF n ex size]
  have dec: "addRC (-1) p m = ?m" "hdrRC ?m p = rc x - 1" "objs ?m p = Some (x\<lparr>rc := rc x - 1\<rparr>)"
    using x by (simp_all add: addRC_def hdrRC_def putObj_def)
  show ?thesis
  proof (cases "count ?T p = 0")
    case one: True
    have zero: "rc x - 1 = 0" using tests(5) [OF counted] one by simp
    have freed: "\<exists>m'. fgoRCRelease p free ?m = Some m' \<and> rcOk m' R \<and> shrinks (if free then {} else {p}) m m' \<and> p \<notin> dom (objs m')" for free
      using release_ok [OF assms x(1) _ one, of free "rc x - 1"] counted by simp
    show ?thesis
      using freed [of True] freed [of False] x(2) True zero dec
      by (cases "rcMixed x") (auto simp: fgoRCDropReuse_def Let_def tokenOk_def)
  next
    case more: False
    then have "rc x - 1 \<noteq> 0" using tests(5) [OF counted] by simp
    then have "fgoRCDropReuse p m = Some (?m, 0)" "fgoRCDec p m = Some ?m"
      using True dec by (simp_all add: fgoRCDropReuse_def fgoRCDec_def Let_def)
    then show ?thesis using dec_exact [OF assms] by (auto simp: tokenOk_def)
  qed
next
  case False
  then show ?thesis
    using dec_exact [OF assms] by (auto simp: fgoRCDropReuse_def tokenOk_def)
qed

text \<open>The variants for a mask that holds every reference of the object.\<close>

lemma free_all:
  assumes "rcOk m (add_mset p R)" and "objs m p = Some x" and "fgoUnique m p" and "K = live (slots x)"
  shows "rcOk (freeObj p free m) (R + K) \<and> shrinks (if free then {} else {p}) m (freeObj p free m) \<and> p \<notin> dom (objs (freeObj p free m))"
proof -
  have x: "rcMark x = SCounted" "count (refsOf m (dom (objs m)) + R) p = 0"
    using unique_alone [OF assms(1,3)] assms(2) by auto
  have same: "putObj p (x\<lparr>rc := rc x\<rparr>) m = m" using assms(2) by (simp add: putObj_def fun_upd_idem)
  have "dying m p [] (slots x) R"
    using rcOk_dying [OF assms(1,2) _ x(2), of "rc x"] x(1) unfolding same by simp
  then have "dying m p [] [] (R + K)"
    by (simp add: dying_def allRefs_def assms(4) ac_simps)
  then show ?thesis
    using shrinks_free [of m p free "freeObj p free m"] assms(2) by (simp add: free_last freeObj_dom)
qed

lemma decAll_exact:
  assumes "rcOk m (add_mset p R)" and "objs m p = Some x" and "keepable x (keepOffs keep)"
    and "rcMark x = SHanded \<longrightarrow> set (kept x (keepOffs keep)) \<subseteq> insert 0 (dom (objs m))"
    and "size (refsOf m (dom (objs m)) + R) + 65 < 2 ^ 62"
    and "live (kept x (keepOffs keep)) = live (slots x)"
  shows "\<exists>m' m'' token. fgoRCDecAll p keep m = Some m' \<and> rcOk m' (R + live (slots x)) \<and> shrinks {} m m' \<and>
           fgoRCDropReuseAll p keep m = Some (m'', token) \<and> rcOk m'' (R + live (slots x)) \<and> tokenOk p token m m''"
proof (cases "fgoUnique m p")
  case True
  have "p \<noteq> 0" using assms(1,2) by (auto simp: rcOk_def)
  then show ?thesis
    using free_all [OF assms(1,2) True refl, of True] free_all [OF assms(1,2) True refl, of False]
    by (simp add: fgoRCDecAll_def fgoRCDropReuseAll_def True tokenOk_def domIff)
next
  case False
  then show ?thesis
    using keep_shared [OF assms(1-5)] assms(6) by (auto simp: fgoRCDecAll_def fgoRCDropReuseAll_def tokenOk_def)
qed

section \<open>An example\<close>

lemma keepOffs_one: "keepOffs 1 = [0]"
  by (simp add: keepOffs.simps TrailingZeros64_def deBruijn64_def deBruijn64tab_def)

definition pairObj :: rcObj where
  "pairObj = \<lparr>rc = 1, rcMark = SCounted, rcFields = [(0, PtrF 32)], rcMixed = False\<rparr>"

lemma pairObj_at: "objs pairMem 16 = Some pairObj"
  by (simp add: pairMem_def pairObj_def)

lemma pairObj_keep: "keepable pairObj (keepOffs 1)" "kept pairObj (keepOffs 1) = [32]"
  by (simp_all add: keepOffs_one keepable_def fieldPtr_def pairObj_def)

lemma pairMem_room: "size (refsOf pairMem (dom (objs pairMem)) + {#}) + 65 < 2 ^ 62"
  by (simp add: pairMem_dom pairMem_refs)

lemma pairObj_mark: "rcMark pairObj = SHanded \<longrightarrow> set (kept pairObj (keepOffs 1)) \<subseteq> insert 0 (dom (objs pairMem))"
  by (simp add: pairObj_def)

text \<open>
  C24: a drop for reuse leaves every count exact; the token it returns is the object's memory, which
  is no object any more and was not freed, and every other object that goes is freed once.
\<close>

theorem fgoRCDropReuseKeep_exact:
  assumes "rcOk m (add_mset p R)" and "objs m p = Some x" and "keepable x (keepOffs keep)"
    and "rcMark x = SHanded \<longrightarrow> set (kept x (keepOffs keep)) \<subseteq> insert 0 (dom (objs m))"
    and "size (refsOf m (dom (objs m)) + R) + 65 < 2 ^ 62"
  shows "\<exists>m' token. fgoRCDropReuseKeep p keep m = Some (m', token) \<and> rcOk m' (R + live (kept x (keepOffs keep))) \<and>
           tokenOk p token m m'"
  using assms by (rule dropReuseKeep_exact)

theorem fgoRCDropReuseKeep_exact_witness:
  "\<exists>m' token. fgoRCDropReuseKeep 16 1 pairMem = Some (m', token) \<and> rcOk m' ({#} + live (kept pairObj (keepOffs 1))) \<and>
     tokenOk 16 token pairMem m'"
  by (rule fgoRCDropReuseKeep_exact [OF pairMem_ok pairObj_at pairObj_keep(1) pairObj_mark pairMem_room])

text \<open>
  C31: the loop over a mask of kept fields visits exactly the offsets whose bits are set, each once and
  in ascending order.
\<close>

theorem keepOffs_bits: "keepOffs keep = filter (bit keep) [0..<64]"
  by (rule keepOffs_filter)

end
