(* ===== verification/RcHandoff.thy ===== *)
theory RcHandoff
  imports RcOps
begin

text \<open>
  \<^verbatim>\<open>src/src/runtime/forgo_rc.go\<close>: handing an object, with every counted object it reaches, to the
  garbage collector. The buffer of a slice is copied to the GC heap with its elements, which the
  model keeps as one field; the records of \<^verbatim>\<open>fgoEsc\<close> are the collector's and not modelled.
\<close>

unbundle bit_operations_syntax

section \<open>The worklist\<close>

definition fgoHandOne :: "uintptr \<Rightarrow> rcMem \<Rightarrow> rcMem option" where
  "fgoHandOne p m = Option.bind (objs m p) (\<lambda>h.
     Some (putObj p (h\<lparr>rc := (if rc h AND fgoSharedBit \<noteq> 0 then rc h AND NOT fgoSharedBit OR fgoHeld else rc h OR fgoHeld),
                       rcMark := SHanded\<rparr>) m))"

text \<open>The work list has its last element first.\<close>

definition hand :: "uintptr \<Rightarrow> rcMem \<times> uintptr list \<Rightarrow> (rcMem \<times> uintptr list) option" where
  "hand c mw = (case mw of (m, work) \<Rightarrow>
     if fgoState m c = SCounted \<or> fgoState m c = SShared
     then Option.bind (fgoHandOne c m) (\<lambda>m. Some (m, c # work))
     else Some (m, work))"

fun handField :: "rcField \<Rightarrow> rcMem \<times> uintptr list \<Rightarrow> (rcMem \<times> uintptr list) option" where
  "handField (PtrF c) mw = Option.bind (hand c mw) (\<lambda>(m, work).
     Option.bind (fgoRCDec c m) (\<lambda>m. Some (m, work)))"
| "handField (PtrsF cs) mw = Option.bind (forAll hand cs mw) (\<lambda>(m, work).
     Option.bind (forAll fgoRCDec cs m) (\<lambda>m. Some (m, work)))"
| "handField (StrF s) mw = Some mw"

partial_function (option) handLoop :: "rcMem \<times> uintptr list \<Rightarrow> rcMem option" where
  [code]: "handLoop mw = (case mw of (m, work) \<Rightarrow>
     (case work of
        [] \<Rightarrow> Some m
      | x # work \<Rightarrow> Option.bind (objs m x) (\<lambda>ob.
          Option.bind (forAll (\<lambda>f. handField (snd f)) (rcFields ob) (m, work)) handLoop)))"

definition fgoRCHandoff :: "uintptr \<Rightarrow> rcMem \<Rightarrow> rcMem option" where
  "fgoRCHandoff p m =
     (if fgoState m p \<noteq> SCounted \<and> fgoState m p \<noteq> SShared then Some m
      else Option.bind (fgoHandOne p m) (\<lambda>m. handLoop (m, [p])))"

section \<open>What handing off changes\<close>

text \<open>Only marks change, from counted or shared to handed off, and with them the counts' flags.\<close>

definition marks :: "rcMem \<Rightarrow> rcMem \<Rightarrow> bool" where
  "marks m m' \<longleftrightarrow> freedMem m' = freedMem m \<and> dom (objs m') = dom (objs m) \<and>
     (\<forall>p x x'. objs m p = Some x \<longrightarrow> objs m' p = Some x' \<longrightarrow> rcFields x' = rcFields x \<and> rcMixed x' = rcMixed x) \<and>
     (\<forall>p. fgoState m' p = fgoState m p \<or> fgoState m p \<noteq> SNone \<and> fgoState m p \<noteq> SHanded \<and> fgoState m' p = SHanded)"

lemma marks_state:
  "marks m m' \<Longrightarrow> fgoState m' p = fgoState m p \<or> fgoState m p \<noteq> SNone \<and> fgoState m p \<noteq> SHanded \<and> fgoState m' p = SHanded"
  by (simp add: marks_def)

lemma marks_old:
  assumes "marks m m'" and "objs m' q = Some y"
  obtains z where "objs m q = Some z" and "rcFields y = rcFields z"
proof -
  have "q \<in> dom (objs m)" using assms unfolding marks_def by blast
  then obtain z where "objs m q = Some z" by blast
  then show thesis using assms that by (simp add: marks_def)
qed

lemma marks_refl [simp]: "marks m m"
  by (simp add: marks_def)

lemma marks_trans:
  assumes "marks m m1" and "marks m1 m2"
  shows "marks m m2"
proof -
  have "rcFields x' = rcFields x \<and> rcMixed x' = rcMixed x" if x: "objs m p = Some x" "objs m2 p = Some x'" for p x x'
  proof -
    have "p \<in> dom (objs m1)" using assms(1) x(1) by (auto simp: marks_def)
    then obtain y where "objs m1 p = Some y" by auto
    then show ?thesis using assms x by (simp add: marks_def)
  qed
  moreover have "fgoState m2 p = fgoState m p \<or> fgoState m p \<noteq> SNone \<and> fgoState m p \<noteq> SHanded \<and> fgoState m2 p = SHanded" for p
    using marks_state [OF assms(1), of p] marks_state [OF assms(2), of p] by auto
  ultimately show ?thesis using assms by (simp add: marks_def)
qed

lemma marks_slots: "marks m m' \<Longrightarrow> objs m p = Some x \<Longrightarrow> objs m' p = Some x' \<Longrightarrow> slots x' = slots x"
  by (simp add: marks_def slots_def)

lemma marks_the: "marks m m' \<Longrightarrow> p \<in> dom (objs m) \<Longrightarrow> slots (the (objs m' p)) = slots (the (objs m p))"
proof -
  assume marks: "marks m m'" and "p \<in> dom (objs m)"
  then obtain x x' where "objs m p = Some x" "objs m' p = Some x'" unfolding marks_def by blast
  with marks_slots [OF marks this] show ?thesis by simp
qed

lemma putObj_marks:
  assumes "objs m p = Some x" and "rcFields x' = rcFields x" and "rcMixed x' = rcMixed x"
    and "rcMark x' = rcMark x \<or> rcMark x \<noteq> SNone \<and> rcMark x \<noteq> SHanded \<and> rcMark x' = SHanded"
  shows "marks m (putObj p x' m)"
  using assms by (auto simp: marks_def putObj_def fgoState_def)

section \<open>The counts of an object handed off\<close>

lemma held_count:
  fixes n :: nat assumes "n < 2 ^ 62" and "t = SCounted \<or> t = SShared" and "r = (of_nat (flagOf t + n) :: uintptr)"
  shows "(if r AND fgoSharedBit \<noteq> 0 then r AND NOT fgoSharedBit OR fgoHeld else r OR fgoHeld) = of_nat (flagOf SHanded + n)"
proof -
  have small: "\<not> bit n i" if "62 \<le> i" for i
  proof -
    have "n < 2 ^ i" using assms(1) power_increasing [OF that, of "2::nat"] by linarith
    then show ?thesis by (simp add: bit_iff_odd)
  qed
  have low: "bit (of_nat n :: uintptr) i \<longleftrightarrow> bit n i" for i
    using small [of i] by (cases "i < 64") (simp_all add: bit_of_nat_iff possible_bit_word)
  have or_flag: "(of_nat (2 ^ k + n) :: uintptr) = of_nat n OR push_bit k 1" if "62 \<le> k" for k
  proof -
    have "(of_nat n :: uintptr) AND push_bit k 1 = 0"
      using small [OF that] by (intro bit_word_eqI) (auto simp: bit_simps low simp del: push_bit_of_1)
    then have "(of_nat n :: uintptr) OR push_bit k 1 = of_nat n + push_bit k 1"
      by (simp only: disjunctive_add_eq_or)
    then show ?thesis by (simp add: push_bit_eq_mult)
  qed
  have tests: "r AND fgoSharedBit = 0 \<longleftrightarrow> t \<noteq> SShared"
    unfolding assms(3) using flag_tests(2) [OF assms(1), of t] assms(2) by auto
  have held: "(of_nat (flagOf SHanded + n) :: uintptr) = of_nat n OR fgoHeld"
    by (simp only: flagOf.simps or_flag fgoHeld_def)
  have shared: "(of_nat (2 ^ 62 + n) :: uintptr) = of_nat n OR fgoSharedBit"
    by (simp only: or_flag fgoSharedBit_def)
  have "(of_nat n OR fgoSharedBit) AND NOT fgoSharedBit = (of_nat n :: uintptr)"
    using small by (intro bit_word_eqI) (auto simp: fgoSharedBit_def bit_simps low simp del: push_bit_of_1)
  with assms(2) show ?thesis
    using tests assms(3) held shared by auto
qed

lemma fgoHandOne_ok:
  assumes "rcOk m R" and x: "objs m c = Some x" and "rcMark x \<noteq> SHanded"
  obtains x' where "fgoHandOne c m = Some (putObj c x' m)" and "rcOk (putObj c x' m) (R + live (slots x))"
    and "rcMark x' = SHanded" and "rcFields x' = rcFields x" and "rcMixed x' = rcMixed x"
proof -
  define r where "r = (if rc x AND fgoSharedBit \<noteq> 0 then rc x AND NOT fgoSharedBit OR fgoHeld else rc x OR fgoHeld)"
  define x' where "x' = x\<lparr>rc := r, rcMark := SHanded\<rparr>"
  define T where "T = refsOf m (dom (objs m)) + R"
  let ?m = "putObj c x' m"
  have ok: "finite (dom (objs m))" "0 \<notin> dom (objs m)" "size T < 2 ^ 62" "set_mset T \<subseteq> dom (objs m)"
    "\<And>q y. objs m q = Some y \<Longrightarrow> exact T q y"
    using assms(1) by (simp_all add: rcOk_def T_def)
  have dom: "dom (objs ?m) = dom (objs m)" using x by simp
  have "refsOf m (dom (objs m)) = kids x + refsOf m (dom (objs m) - {c})"
    using sum.remove [OF ok(1) domI [of "objs m" c x, OF x], of "\<lambda>q. kids (the (objs m q))"] x by (simp add: refsOf_def)
  moreover have "refsOf ?m (dom (objs m)) = refsOf m (dom (objs m) - {c})"
    using sum.remove [OF ok(1) domI [of "objs m" c x, OF x], of "\<lambda>q. kids (the (objs ?m q))"]
    by (auto simp: refsOf_def putObj_def x'_def kids_def intro!: sum.cong)
  ultimately have T: "refsOf ?m (dom (objs ?m)) + (R + live (slots x)) = T"
    using assms(3) by (simp add: T_def kids_def dom ac_simps)
  have "count T c \<le> size T" by (rule count_le_size)
  then have n: "count T c < 2 ^ 62" using ok(3) by linarith
  have old: "exact T c x" by (rule ok(5) [OF x])
  then have "rcMark x = SCounted \<or> rcMark x = SShared" "rc x = of_nat (flagOf (rcMark x) + count T c)"
    using assms(3) by (cases "rcMark x"; simp add: exact_def)+
  from held_count [OF n this] have "exact T c x'"
    by (simp add: exact_def x'_def r_def)
  then have "exact T q y" if "objs ?m q = Some y" for q y
    using that ok(5) by (auto simp: putObj_def split: if_splits)
  then have "rcOk ?m (R + live (slots x))"
    unfolding rcOk_def T using ok(1-4) unfolding dom by blast
  moreover have "fgoHandOne c m = Some ?m"
    using x by (simp add: fgoHandOne_def x'_def r_def)
  ultimately show thesis by (intro that [of x']) (simp_all add: x'_def)
qed

section \<open>The worklist invariant\<close>

text \<open>The references the handed objects of \<open>work\<close> still count.\<close>

definition owed :: "rcMem \<Rightarrow> uintptr list \<Rightarrow> uintptr multiset" where
  "owed m work = (\<Sum>x \<leftarrow> work. live (slots (the (objs m x))))"

lemma owed_simps [simp]: "owed m [] = {#}" "owed m (x # work) = live (slots (the (objs m x))) + owed m work"
  by (simp_all add: owed_def)

lemma owed_marks: "marks m m' \<Longrightarrow> set work \<subseteq> dom (objs m) \<Longrightarrow> owed m' work = owed m work"
  by (induction work) (simp_all add: marks_the)

definition unhanded :: "rcMem \<Rightarrow> uintptr set" where
  "unhanded m = {p. fgoState m p = SCounted \<or> fgoState m p = SShared}"

text \<open>From \<open>(m, work)\<close> to \<open>(m', work')\<close> the objects handed off joined the worklist.\<close>

definition advances :: "rcMem \<times> uintptr list \<Rightarrow> rcMem \<times> uintptr list \<Rightarrow> bool" where
  "advances mw mw' \<longleftrightarrow> (case mw of (m, work) \<Rightarrow> case mw' of (m', work') \<Rightarrow>
     marks m m' \<and> set work \<subseteq> set work' \<and> set work' \<subseteq> set work \<union> dom (objs m) \<and>
     (\<forall>q. fgoState m' q = SHanded \<longrightarrow> fgoState m q = SHanded \<or> q \<in> set work') \<and>
     card (unhanded m') + length work' = card (unhanded m) + length work)"

lemma advances_refl [simp]: "advances (m, work) (m, work)"
  by (simp add: advances_def)

lemma advances_trans:
  assumes "advances (m, work) (m1, work1)" and "advances (m1, work1) (m2, work2)"
  shows "advances (m, work) (m2, work2)"
proof -
  have "dom (objs m1) = dom (objs m)" using assms(1) by (simp add: advances_def marks_def)
  then show ?thesis
    using assms marks_trans [of m m1 m2] unfolding advances_def by auto
qed

definition settled :: "rcMem \<Rightarrow> uintptr set \<Rightarrow> bool" where
  "settled m A \<longleftrightarrow> (\<forall>c \<in> A. fgoState m c = SNone \<or> fgoState m c = SHanded)"

lemma settled_marks:
  assumes "marks m m'" and "settled m A"
  shows "settled m' A"
  unfolding settled_def
proof
  fix c assume "c \<in> A"
  then show "fgoState m' c = SNone \<or> fgoState m' c = SHanded"
    using assms(2) marks_state [OF assms(1), of c] by (auto simp: settled_def)
qed

lemma unhanded_finite: "rcOk m R \<Longrightarrow> finite (unhanded m)"
  by (rule finite_subset [of _ "dom (objs m)"]) (auto simp: unhanded_def fgoState_def rcOk_def split: option.splits)

lemma hand_ok:
  assumes ok: "rcOk m (R + owed m work)" and c: "c \<in> insert 0 (dom (objs m))" and work: "set work \<subseteq> dom (objs m)"
  obtains m' work' where "hand c (m, work) = Some (m', work')" and "rcOk m' (R + owed m' work')"
    and "advances (m, work) (m', work')" and "settled m' {c}"
proof (cases "fgoState m c = SCounted \<or> fgoState m c = SShared")
  case False
  then have "hand c (m, work) = Some (m, work)" by (simp add: hand_def)
  moreover have "settled m {c}" using False by (cases "fgoState m c") (simp_all add: settled_def)
  ultimately show thesis using that ok by auto
next
  case True
  then obtain x where x: "objs m c = Some x" "rcMark x \<noteq> SHanded" "rcMark x \<noteq> SNone"
    by (auto simp: fgoState_def split: option.splits)
  from fgoHandOne_ok [OF ok x(1,2)] obtain x' where x': "fgoHandOne c m = Some (putObj c x' m)"
      "rcOk (putObj c x' m) (R + owed m work + live (slots x))" "rcMark x' = SHanded" "rcFields x' = rcFields x" "rcMixed x' = rcMixed x"
    by blast
  let ?m = "putObj c x' m"
  have marks: "marks m ?m" using putObj_marks [OF x(1) x'(4,5)] x x'(3) by simp
  have "slots x' = slots x" using x'(4) by (simp add: slots_def)
  then have owed: "owed ?m (c # work) = live (slots x) + owed m work"
    using owed_marks [OF marks work] by (simp add: putObj_def)
  have state: "fgoState ?m q = (if q = c then SHanded else fgoState m q)" for q
    by (simp add: fgoState_def putObj_def x'(3))
  have "unhanded m = insert c (unhanded ?m)" "c \<notin> unhanded ?m"
    using True by (auto simp: unhanded_def state)
  then have "card (unhanded m) = Suc (card (unhanded ?m))"
    using unhanded_finite [OF ok] by simp
  then have "advances (m, work) (?m, c # work)"
    using marks x(1) by (auto simp: advances_def state)
  moreover have "hand c (m, work) = Some (?m, c # work)"
    using True x'(1) by (simp add: hand_def)
  moreover have "rcOk ?m (R + owed ?m (c # work))"
    using x'(2) unfolding owed by (simp add: ac_simps)
  ultimately show thesis using that by (simp add: settled_def state)
qed

lemma handAll_ok:
  assumes "rcOk m (R + owed m work)" and "set cs \<subseteq> insert 0 (dom (objs m))" and "set work \<subseteq> dom (objs m)"
  obtains m' work' where "forAll hand cs (m, work) = Some (m', work')" and "rcOk m' (R + owed m' work')"
    and "advances (m, work) (m', work')" and "settled m' (set cs)"
  using assms
proof (induction cs arbitrary: m work thesis)
  case Nil
  then show ?case by (simp add: settled_def)
next
  case (Cons c cs)
  obtain m1 work1 where 1: "hand c (m, work) = Some (m1, work1)" "rcOk m1 (R + owed m1 work1)"
      "advances (m, work) (m1, work1)" "settled m1 {c}"
    using hand_ok [OF Cons.prems(2) _ Cons.prems(4), of c] Cons.prems(3) by auto
  have dom: "dom (objs m1) = dom (objs m)" using 1(3) by (simp add: advances_def marks_def)
  have "set work1 \<subseteq> dom (objs m1)" using 1(3) Cons.prems(4) dom by (auto simp: advances_def)
  then obtain m2 work2 where 2: "forAll hand cs (m1, work1) = Some (m2, work2)" "rcOk m2 (R + owed m2 work2)"
      "advances (m1, work1) (m2, work2)" "settled m2 (set cs)"
    using Cons.IH [OF _ 1(2)] Cons.prems(3) dom by auto
  have "settled m2 (set (c # cs))"
    using settled_marks [of m1 m2 "{c}"] 1(4) 2(3,4) by (auto simp: advances_def settled_def)
  then show ?case
    by (intro Cons.prems(1) [OF _ 2(2) advances_trans [OF 1(3) 2(3)]]) (simp add: 1(1) 2(1))
qed

text \<open>Handed objects' counts go down without releasing anything.\<close>

lemma decHanded:
  assumes "rcOk m (R + live [c])" and "fgoState m c = SNone \<or> fgoState m c = SHanded"
  obtains m' where "fgoRCDec c m = Some m'" and "rcOk m' R" and "marks m m'" and "\<And>q. fgoState m' q = fgoState m q"
proof (cases "c = 0")
  case True
  then have "fgoState m c = SNone" using assms(1) by (auto simp: rcOk_def fgoState_def split: option.splits)
  with True assms(1) that show thesis by (simp add: fgoRCDec_def live_Cons)
next
  case False
  then have ok: "rcOk m (add_mset c R)" using assms(1) by (simp add: live_Cons)
  then obtain x where x: "objs m c = Some x" "rcMark x \<noteq> SNone" using rcOk_object [of m "add_mset c R" c] by auto
  then have state: "fgoState m c = SHanded" using assms(2) by (auto simp: fgoState_def)
  obtain m' where m': "fgoRCDec c m = Some m'" "rcOk m' R" using dec_exact [OF ok] by blast
  have "m' = putObj c (x\<lparr>rc := rc x - 1\<rparr>) m"
    using m'(1) state x by (simp add: fgoRCDec_def addRC_def)
  moreover from this have "fgoState m' q = fgoState m q" for q
    using x(1) by (simp add: fgoState_def putObj_def)
  moreover have "marks m (putObj c (x\<lparr>rc := rc x - 1\<rparr>) m)"
    using x(1) by (rule putObj_marks) simp_all
  ultimately show thesis using that m' by blast
qed

lemma decAllHanded:
  assumes "rcOk m (R + live cs)" and "settled m (set cs)"
  obtains m' where "forAll fgoRCDec cs m = Some m'" and "rcOk m' R" and "marks m m'" and "\<And>q. fgoState m' q = fgoState m q"
  using assms
proof (induction cs arbitrary: m thesis)
  case Nil
  then show ?case by simp
next
  case (Cons c cs)
  have "rcOk m (R + live cs + live [c])" using Cons.prems(2) by (simp add: live_Cons ac_simps split: if_splits)
  then obtain m1 where 1: "fgoRCDec c m = Some m1" "rcOk m1 (R + live cs)" "marks m m1" "\<And>q. fgoState m1 q = fgoState m q"
    using decHanded [of m "R + live cs" c] Cons.prems(3) by (auto simp: settled_def)
  have "settled m1 (set cs)" using Cons.prems(3) by (simp add: settled_def 1(4))
  from Cons.IH [OF _ 1(2) this] obtain m2 where
    2: "forAll fgoRCDec cs m1 = Some m2" "rcOk m2 R" "marks m1 m2" "\<And>q. fgoState m2 q = fgoState m1 q" by blast
  show ?case
    by (rule Cons.prems(1) [OF _ 2(2) marks_trans [OF 1(3) 2(3)]]) (simp_all add: 1(1,4) 2(1,4))
qed

lemma handField_all:
  "handField f mw = Option.bind (forAll hand (fieldRefs f) mw) (\<lambda>(m, work).
     Option.bind (forAll fgoRCDec (fieldRefs f) m) (\<lambda>m. Some (m, work)))"
  by (cases f) (auto split: Option.bind_split prod.splits)

lemma rcOk_refs: "rcOk m (R + live cs) \<Longrightarrow> set cs \<subseteq> insert 0 (dom (objs m))"
  by (auto simp: rcOk_def live_def)

lemma advances_marks:
  assumes "advances (m, work) (m1, work1)" and "marks m1 m2" and "\<And>q. fgoState m2 q = fgoState m1 q"
  shows "advances (m, work) (m2, work1)"
proof -
  have "unhanded m2 = unhanded m1" by (simp add: unhanded_def assms(3))
  then show ?thesis
    using assms(1) marks_trans [OF _ assms(2)] by (simp add: advances_def assms(3))
qed

lemma handField_ok:
  assumes ok: "rcOk m (R + live (fieldRefs f) + owed m work)" and work: "set work \<subseteq> dom (objs m)"
  obtains m' work' where "handField f (m, work) = Some (m', work')" and "rcOk m' (R + owed m' work')"
    and "advances (m, work) (m', work')" and "settled m' (set (fieldRefs f))"
proof -
  have "rcOk m (R + owed m work + live (fieldRefs f))" using ok by (simp add: ac_simps)
  from handAll_ok [OF ok rcOk_refs [OF this] work]
  obtain m1 work1 where 1: "forAll hand (fieldRefs f) (m, work) = Some (m1, work1)"
      "rcOk m1 (R + live (fieldRefs f) + owed m1 work1)" "advances (m, work) (m1, work1)" "settled m1 (set (fieldRefs f))"
    by blast
  have "rcOk m1 (R + owed m1 work1 + live (fieldRefs f))" using 1(2) by (simp add: ac_simps)
  from decAllHanded [OF this 1(4)] obtain m2 where 2: "forAll fgoRCDec (fieldRefs f) m1 = Some m2"
      "rcOk m2 (R + owed m1 work1)" "marks m1 m2" "\<And>q. fgoState m2 q = fgoState m1 q" by blast
  have adv: "advances (m, work) (m2, work1)" by (rule advances_marks [OF 1(3) 2(3,4)])
  have "set work1 \<subseteq> dom (objs m1)" using 1(3) work by (auto simp: advances_def marks_def)
  then have "owed m2 work1 = owed m1 work1" by (rule owed_marks [OF 2(3)])
  then have ok2: "rcOk m2 (R + owed m2 work1)" using 2(2) by simp
  have "settled m2 (set (fieldRefs f))" using 1(4) by (simp add: settled_def 2(4))
  moreover have "handField f (m, work) = Some (m2, work1)" by (simp add: handField_all 1(1) 2(1))
  ultimately show thesis using that ok2 adv by blast
qed

lemma handFields_ok:
  assumes "rcOk m (R + live (concat (map (\<lambda>f. fieldRefs (snd f)) fs)) + owed m work)" and "set work \<subseteq> dom (objs m)"
  obtains m' work' where "forAll (\<lambda>f. handField (snd f)) fs (m, work) = Some (m', work')" and "rcOk m' (R + owed m' work')"
    and "advances (m, work) (m', work')" and "settled m' (set (concat (map (\<lambda>f. fieldRefs (snd f)) fs)))"
  using assms
proof (induction fs arbitrary: m work thesis)
  case Nil
  then show ?case by (simp add: settled_def)
next
  case (Cons f fs)
  let ?cs = "concat (map (\<lambda>f. fieldRefs (snd f)) fs)"
  have "rcOk m (R + live ?cs + live (fieldRefs (snd f)) + owed m work)"
    using Cons.prems(2) by (simp add: ac_simps)
  from handField_ok [OF this Cons.prems(3)] obtain m1 work1 where
    1: "handField (snd f) (m, work) = Some (m1, work1)" "rcOk m1 (R + live ?cs + owed m1 work1)"
      "advances (m, work) (m1, work1)" "settled m1 (set (fieldRefs (snd f)))" by blast
  have "set work1 \<subseteq> dom (objs m1)" using 1(3) Cons.prems(3) by (auto simp: advances_def marks_def)
  from Cons.IH [OF _ 1(2) this] obtain m2 work2 where
    2: "forAll (\<lambda>f. handField (snd f)) fs (m1, work1) = Some (m2, work2)" "rcOk m2 (R + owed m2 work2)"
      "advances (m1, work1) (m2, work2)" "settled m2 (set ?cs)" by blast
  have "settled m2 (set (fieldRefs (snd f)))"
    using settled_marks [of m1 m2] 1(4) 2(3) by (simp add: advances_def)
  with 2(4) have "settled m2 (set (concat (map (\<lambda>f. fieldRefs (snd f)) (f # fs))))" by (auto simp: settled_def)
  then show ?case
    by (intro Cons.prems(1) [OF _ 2(2) advances_trans [OF 1(3) 2(3)]]) (simp add: 1(1) 2(1))
qed

section \<open>Handing off what an object reaches\<close>

text \<open>What an object handed off holds is handed off, but for those still on the worklist.\<close>

definition handedClosed :: "rcMem \<Rightarrow> uintptr set \<Rightarrow> bool" where
  "handedClosed m W \<longleftrightarrow> (\<forall>q x. objs m q = Some x \<longrightarrow> rcMark x = SHanded \<longrightarrow> q \<in> W \<or> settled m (set (slots x)))"

lemma handedClosed_advances:
  assumes closed: "handedClosed m (insert p (set work))" and adv: "advances (m, work) (m', work')"
    and x: "objs m p = Some x" and "settled m' (set (slots x))"
  shows "handedClosed m' (set work')"
  unfolding handedClosed_def
proof (intro allI impI)
  fix q y assume y: "objs m' q = Some y" "rcMark y = SHanded"
  have marks: "marks m m'" and work: "set work \<subseteq> set work'" using adv by (simp_all add: advances_def)
  obtain z where z: "objs m q = Some z" using marks_old [OF marks y(1)] by blast
  have slots: "slots y = slots z" using marks_slots [OF marks z y(1)] .
  have "fgoState m' q = SHanded" using y by (simp add: fgoState_def)
  then have "fgoState m q = SHanded \<or> q \<in> set work'"
    using adv by (auto simp: advances_def)
  then consider "q \<in> set work'" | "rcMark z = SHanded" "q \<notin> set work'"
    using z by (auto simp: fgoState_def)
  then show "q \<in> set work' \<or> settled m' (set (slots y))"
  proof cases
    case 2
    then consider "q = p" | "settled m (set (slots z))"
      using closed z work by (auto simp: handedClosed_def)
    then show ?thesis
      using assms(3,4) z slots settled_marks [OF marks] by cases auto
  qed simp
qed

lemma handLoop_ok:
  assumes "rcOk m (R + owed m work)" and "set work \<subseteq> dom (objs m)" and "handedClosed m (set work)"
  shows "\<exists>m'. handLoop (m, work) = Some m' \<and> rcOk m' R \<and> marks m m' \<and> handedClosed m' {}"
  using assms
proof (induction "card (unhanded m) + length work" arbitrary: m work rule: less_induct)
  case less
  show ?case
  proof (cases work)
    case Nil
    then show ?thesis using less.prems by (simp add: handLoop.simps)
  next
    case (Cons p rest)
    obtain x where x: "objs m p = Some x" using less.prems(2) Cons by auto
    have "rcOk m (R + live (concat (map (\<lambda>f. fieldRefs (snd f)) (rcFields x))) + owed m rest)"
      using less.prems(1) x unfolding Cons by (simp add: slots_def ac_simps)
    moreover have "set rest \<subseteq> dom (objs m)" using less.prems(2) Cons by simp
    ultimately obtain m1 work1 where 1: "forAll (\<lambda>f. handField (snd f)) (rcFields x) (m, rest) = Some (m1, work1)"
        "rcOk m1 (R + owed m1 work1)" "advances (m, rest) (m1, work1)" "settled m1 (set (slots x))"
      using handFields_ok [of m R "rcFields x" rest] unfolding slots_def by blast
    have closed: "handedClosed m1 (set work1)"
      by (rule handedClosed_advances [OF _ 1(3) x 1(4)]) (use less.prems(3) Cons in simp)
    have work1: "set work1 \<subseteq> dom (objs m1)"
      using 1(3) less.prems(2) Cons by (auto simp: advances_def marks_def)
    have "card (unhanded m1) + length work1 < card (unhanded m) + length work"
      using 1(3) by (simp add: advances_def Cons)
    from less.hyps [OF this 1(2) work1 closed] obtain m' where
      2: "handLoop (m1, work1) = Some m'" "rcOk m' R" "marks m1 m'" "handedClosed m' {}" by blast
    have "handLoop (m, work) = Some m'"
      using x 1(1) 2(1) by (subst handLoop.simps) (simp add: Cons)
    moreover have "marks m m'" using 1(3) 2(3) marks_trans by (auto simp: advances_def)
    ultimately show ?thesis using 2(2,4) by blast
  qed
qed

lemma handoff_exact:
  assumes "rcOk m R" and "handedClosed m {}"
  shows "\<exists>m'. fgoRCHandoff p m = Some m' \<and> rcOk m' R \<and> marks m m' \<and> handedClosed m' {} \<and> settled m' {p}"
proof (cases "fgoState m p = SCounted \<or> fgoState m p = SShared")
  case False
  then have "settled m {p}" by (cases "fgoState m p") (simp_all add: settled_def)
  with False assms show ?thesis by (simp add: fgoRCHandoff_def)
next
  case True
  then obtain x where x: "objs m p = Some x" "rcMark x \<noteq> SHanded" "rcMark x \<noteq> SNone"
    by (auto simp: fgoState_def split: option.splits)
  have ok: "rcOk m (R + owed m [])" using assms(1) by simp
  have p: "p \<in> insert 0 (dom (objs m))" using x(1) by auto
  from hand_ok [OF ok p] obtain m1 work1 where 1: "hand p (m, []) = Some (m1, work1)" "rcOk m1 (R + owed m1 work1)"
      "advances (m, []) (m1, work1)" "settled m1 {p}" by auto
  then have one: "fgoHandOne p m = Some m1" "work1 = [p]"
    using True by (auto simp: hand_def split: Option.bind_splits)
  have "handedClosed m1 (set work1)"
    unfolding handedClosed_def
  proof (intro allI impI)
    fix q y assume y: "objs m1 q = Some y" "rcMark y = SHanded"
    have marks: "marks m m1" using 1(3) by (simp add: advances_def)
    obtain z where z: "objs m q = Some z" using marks_old [OF marks y(1)] by blast
    have "fgoState m1 q = SHanded" using y by (simp add: fgoState_def)
    then have "fgoState m q = SHanded \<or> q \<in> set work1" using 1(3) by (auto simp: advances_def)
    then have "rcMark z = SHanded \<or> q \<in> set work1" using z by (simp add: fgoState_def)
    then show "q \<in> set work1 \<or> settled m1 (set (slots y))"
      using assms(2) z marks_slots [OF marks z y(1)] settled_marks [OF marks] by (auto simp: handedClosed_def)
  qed
  moreover have "set work1 \<subseteq> dom (objs m1)" using 1(3) x(1) one(2) by (auto simp: advances_def marks_def)
  ultimately obtain m' where 2: "handLoop (m1, work1) = Some m'" "rcOk m' R" "marks m1 m'" "handedClosed m' {}"
    using handLoop_ok [OF 1(2)] by blast
  have "fgoRCHandoff p m = Some m'"
    using True one 2(1) by (auto simp: fgoRCHandoff_def)
  moreover have "marks m m'" using 1(3) 2(3) marks_trans by (auto simp: advances_def)
  ultimately show ?thesis using 2 settled_marks [OF 2(3) 1(4)] by blast
qed

lemma pairMem_handed: "handedClosed pairMem {}"
  by (auto simp: handedClosed_def dest!: pairMem_at)

text \<open>
  C15: handing an object to the garbage collector returns, keeps every count exact, and leaves
  the object and everything it holds handed off.
\<close>

theorem fgoRCHandoff_exact:
  assumes "rcOk m R" and "handedClosed m {}"
  shows "\<exists>m'. fgoRCHandoff p m = Some m' \<and> rcOk m' R \<and> marks m m' \<and> handedClosed m' {} \<and> settled m' {p}"
  using assms by (rule handoff_exact)

theorem fgoRCHandoff_exact_witness:
  "\<exists>m'. fgoRCHandoff 16 pairMem = Some m' \<and> rcOk m' {#16#} \<and> marks pairMem m' \<and> handedClosed m' {} \<and> settled m' {16}"
  by (rule fgoRCHandoff_exact [OF pairMem_ok pairMem_handed])

end
