(* ===== verification/RcStore.thy ===== *)
theory RcStore
  imports RcHandoff
begin

text \<open>
  \<^verbatim>\<open>src/src/runtime/forgo_rc_tag.go\<close>: \<^verbatim>\<open>fgoShare\<close>, which lets other goroutines reach what an object
  reaches, and \<^verbatim>\<open>src/src/runtime/forgo_rc.go\<close>: the stores into the fields of nogc objects.
\<close>

unbundle bit_operations_syntax

section \<open>Sharing\<close>

partial_function (option) shareLoop :: "rcMem \<Rightarrow> uintptr list \<Rightarrow> rcMem option" where
  [code]: "shareLoop m work =
     (case work of
        [] \<Rightarrow> Some m
      | x # work \<Rightarrow>
          if fgoState m x \<noteq> SCounted then shareLoop m work
          else Option.bind (objs m x) (\<lambda>h.
            let m1 = putObj x (h\<lparr>rc := rc h OR fgoSharedBit, rcMark := SShared\<rparr>) m in
            shareLoop m1 (rev (filter (\<lambda>c. c \<noteq> 0 \<and> fgoState m1 c = SCounted) (slots h)) @ work)))"

definition fgoShare :: "uintptr \<Rightarrow> rcMem \<Rightarrow> rcMem option" where
  "fgoShare p m = (if fgoState m p \<noteq> SCounted then Some m else shareLoop m [p])"

text \<open>Other goroutines reach what a shared object holds: nothing there is counted without atomics.\<close>

definition sharedClosed :: "rcMem \<Rightarrow> uintptr set \<Rightarrow> bool" where
  "sharedClosed m W \<longleftrightarrow> (\<forall>q x. objs m q = Some x \<longrightarrow> rcMark x = SShared \<longrightarrow>
     (\<forall>c \<in> set (slots x). fgoState m c = SCounted \<longrightarrow> c \<in> W))"

text \<open>Only marks change, from counted to shared.\<close>

definition shares :: "rcMem \<Rightarrow> rcMem \<Rightarrow> bool" where
  "shares m m' \<longleftrightarrow> freedMem m' = freedMem m \<and> dom (objs m') = dom (objs m) \<and>
     (\<forall>p x x'. objs m p = Some x \<longrightarrow> objs m' p = Some x' \<longrightarrow> rcFields x' = rcFields x \<and> rcMixed x' = rcMixed x) \<and>
     (\<forall>p. fgoState m' p = fgoState m p \<or> fgoState m p = SCounted \<and> fgoState m' p = SShared)"

lemma shares_refl [simp]: "shares m m"
  by (simp add: shares_def)

lemma shares_state: "shares m m' \<Longrightarrow> fgoState m' p = fgoState m p \<or> fgoState m p = SCounted \<and> fgoState m' p = SShared"
  by (simp add: shares_def)

lemma shares_old:
  assumes "shares m m'" and "objs m' q = Some y"
  obtains z where "objs m q = Some z" and "rcFields y = rcFields z"
proof -
  have "q \<in> dom (objs m)" using assms unfolding shares_def by blast
  then obtain z where "objs m q = Some z" by blast
  then show thesis using assms that by (simp add: shares_def)
qed

lemma shares_trans:
  assumes "shares m m1" and "shares m1 m2"
  shows "shares m m2"
proof -
  have "rcFields x' = rcFields x \<and> rcMixed x' = rcMixed x" if x: "objs m p = Some x" "objs m2 p = Some x'" for p x x'
  proof -
    have "p \<in> dom (objs m1)" using assms(1) x(1) by (auto simp: shares_def)
    then obtain y where "objs m1 p = Some y" by auto
    then show ?thesis using assms x by (simp add: shares_def)
  qed
  moreover have "fgoState m2 p = fgoState m p \<or> fgoState m p = SCounted \<and> fgoState m2 p = SShared" for p
    using shares_state [OF assms(1), of p] shares_state [OF assms(2), of p] by auto
  ultimately show ?thesis using assms by (simp add: shares_def)
qed

lemma shares_handedClosed:
  assumes "shares m m'" and "handedClosed m {}"
  shows "handedClosed m' {}"
  unfolding handedClosed_def
proof (intro allI impI)
  fix q y assume y: "objs m' q = Some y" "rcMark y = SHanded"
  then obtain z where z: "objs m q = Some z" using shares_old [OF assms(1)] by blast
  have state: "fgoState m' p = fgoState m p \<or> fgoState m p = SCounted \<and> fgoState m' p = SShared" for p
    using assms(1) by (simp add: shares_def)
  have "slots y = slots z" using assms(1) z y(1) by (simp add: shares_def slots_def)
  moreover have "rcMark z = SHanded" using state [of q] z y by (auto simp: fgoState_def)
  then have "settled m (set (slots z))" using assms(2) z by (auto simp: handedClosed_def)
  then have "fgoState m' c = SNone \<or> fgoState m' c = SHanded" if "c \<in> set (slots z)" for c
    using that state [of c] by (auto simp: settled_def)
  then have "settled m' (set (slots z))" by (simp add: settled_def)
  ultimately show "q \<in> {} \<or> settled m' (set (slots y))" by simp
qed

lemma shared_count:
  fixes n :: nat assumes "n < 2 ^ 62"
  shows "(of_nat n :: uintptr) OR fgoSharedBit = of_nat (2 ^ 62 + n)"
proof -
  have "(of_nat n :: uintptr) AND fgoSharedBit = 0"
    using flag_tests(2) [OF assms, of SCounted] by simp
  then have "(of_nat n :: uintptr) OR fgoSharedBit = of_nat n + fgoSharedBit"
    by (simp only: disjunctive_add_eq_or)
  then show ?thesis by (simp add: fgoSharedBit_def push_bit_eq_mult)
qed

lemma shareOne_ok:
  assumes "rcOk m R" and x: "objs m p = Some x" and "rcMark x = SCounted"
  shows "rcOk (putObj p (x\<lparr>rc := rc x OR fgoSharedBit, rcMark := SShared\<rparr>) m) R"
    and "shares m (putObj p (x\<lparr>rc := rc x OR fgoSharedBit, rcMark := SShared\<rparr>) m)"
proof -
  define x' where "x' = x\<lparr>rc := rc x OR fgoSharedBit, rcMark := SShared\<rparr>"
  define T where "T = refsOf m (dom (objs m)) + R"
  have dom: "dom (objs (putObj p x' m)) = dom (objs m)" using x by simp
  have "kids x' = kids x" by (simp add: x'_def kids_def assms(3) slots_def)
  then have T: "refsOf (putObj p x' m) (dom (objs (putObj p x' m))) + R = T"
    unfolding dom T_def using x by (auto simp: refsOf_def putObj_def intro!: sum.cong)
  have ex: "exact T p x" and size: "size T < 2 ^ 62" using assms(1) x by (simp_all add: rcOk_def T_def)
  have "count T p \<le> size T" by (rule count_le_size)
  then have "count T p < 2 ^ 62" using size by linarith
  with ex have "exact T p x'"
    by (simp add: exact_def x'_def assms(3) shared_count)
  then have "exact T q y" if "objs (putObj p x' m) q = Some y" for q y
    using that assms(1) by (auto simp: putObj_def rcOk_def T_def split: if_splits)
  then show "rcOk (putObj p (x\<lparr>rc := rc x OR fgoSharedBit, rcMark := SShared\<rparr>) m) R"
    using assms(1) dom T unfolding rcOk_def x'_def [symmetric] by (simp add: T_def)
  show "shares m (putObj p (x\<lparr>rc := rc x OR fgoSharedBit, rcMark := SShared\<rparr>) m)"
    using assms by (auto simp: shares_def putObj_def fgoState_def)
qed

definition countedObjs :: "rcMem \<Rightarrow> uintptr set" where
  "countedObjs m = {p. fgoState m p = SCounted}"

lemma countedObjs_finite: "rcOk m R \<Longrightarrow> finite (countedObjs m)"
  by (rule finite_subset [of _ "dom (objs m)"]) (auto simp: countedObjs_def fgoState_def rcOk_def split: option.splits)

lemma shareLoop_ok:
  assumes "rcOk m R" and "sharedClosed m (set work)" and "set work \<subseteq> dom (objs m)"
  shows "\<exists>m'. shareLoop m work = Some m' \<and> rcOk m' R \<and> shares m m' \<and> sharedClosed m' {} \<and> (\<forall>c \<in> set work. fgoState m' c \<noteq> SCounted)"
  using assms
proof (induction "(card (countedObjs m), length work)" arbitrary: m work rule: wf_induct_rule [OF wf_lex_prod [OF wf_less_than wf_less_than]])
  case less: 1
  show ?case
  proof (cases work)
    case Nil
    then show ?thesis using less.prems by (simp add: shareLoop.simps)
  next
    case (Cons x rest)
    show ?thesis
    proof (cases "fgoState m x = SCounted")
      case False
      have "sharedClosed m (set rest)" using less.prems(2) False by (auto simp: sharedClosed_def Cons)
      moreover have "shareLoop m work = shareLoop m rest" using False by (subst shareLoop.simps) (simp add: Cons)
      ultimately obtain m' where m': "shareLoop m work = Some m'" "rcOk m' R" "shares m m'" "sharedClosed m' {}"
          "\<forall>c \<in> set rest. fgoState m' c \<noteq> SCounted"
        using less.hyps [of m rest] less.prems by (auto simp: Cons)
      moreover have "fgoState m' x \<noteq> SCounted" using shares_state [OF m'(3), of x] False by auto
      ultimately show ?thesis by (auto simp: Cons)
    next
      case True
      then obtain h where h: "objs m x = Some h" "rcMark h = SCounted"
        by (auto simp: fgoState_def split: option.splits)
      define m1 where "m1 = putObj x (h\<lparr>rc := rc h OR fgoSharedBit, rcMark := SShared\<rparr>) m"
      define push where "push = rev (filter (\<lambda>c. c \<noteq> 0 \<and> fgoState m1 c = SCounted) (slots h))"
      note one = shareOne_ok [OF less.prems(1) h, folded m1_def]
      have state: "fgoState m1 q = (if q = x then SShared else fgoState m q)" for q
        by (simp add: m1_def fgoState_def putObj_def)
      have "countedObjs m = insert x (countedObjs m1)" "x \<notin> countedObjs m1"
        using True by (auto simp: countedObjs_def state)
      then have less1: "card (countedObjs m1) < card (countedObjs m)"
        using countedObjs_finite [OF one(1)] by simp
      have zero: "fgoState m1 0 \<noteq> SCounted" using one(1) by (auto simp: rcOk_def fgoState_def split: option.splits)
      have "sharedClosed m1 (set (push @ rest))"
        unfolding sharedClosed_def
      proof (intro allI impI ballI)
        fix q y c assume q: "objs m1 q = Some y" "rcMark y = SShared" "c \<in> set (slots y)" "fgoState m1 c = SCounted"
        show "c \<in> set (push @ rest)"
        proof (cases "q = x")
          case True
          then have "slots y = slots h" using q(1) by (auto simp: m1_def putObj_def slots_def)
          then show ?thesis using q(3,4) zero by (auto simp: push_def)
        next
          case False
          then have "objs m q = Some y" using q(1) by (simp add: m1_def putObj_def)
          moreover have "fgoState m c = SCounted" "c \<noteq> x" using q(4) by (auto simp: state split: if_splits)
          ultimately show ?thesis using less.prems(2) q(2,3) by (auto simp: sharedClosed_def Cons)
        qed
      qed
      moreover have "set (push @ rest) \<subseteq> dom (objs m1)"
        using less.prems(3) one(2) by (auto simp: push_def Cons shares_def fgoState_def split: option.splits)
      moreover have "shareLoop m work = shareLoop m1 (push @ rest)"
        using True h by (subst shareLoop.simps) (simp add: Cons m1_def push_def Let_def)
      ultimately obtain m' where m': "shareLoop m work = Some m'" "rcOk m' R" "shares m1 m'" "sharedClosed m' {}"
          "\<forall>c \<in> set (push @ rest). fgoState m' c \<noteq> SCounted"
        using less.hyps [of m1 "push @ rest"] less1 one(1) by auto
      moreover have "fgoState m' x \<noteq> SCounted" using shares_state [OF m'(3), of x] state [of x] by auto
      ultimately show ?thesis using shares_trans [OF one(2) m'(3)] by (auto simp: Cons)
    qed
  qed
qed

lemma share_exact:
  assumes "rcOk m R" and "sharedClosed m {}"
  shows "\<exists>m'. fgoShare p m = Some m' \<and> rcOk m' R \<and> shares m m' \<and> sharedClosed m' {} \<and> fgoState m' p \<noteq> SCounted"
proof (cases "fgoState m p = SCounted")
  case True
  then have "set [p] \<subseteq> dom (objs m)" by (auto simp: fgoState_def split: option.splits)
  moreover have "sharedClosed m (set [p])" using assms(2) by (auto simp: sharedClosed_def)
  ultimately show ?thesis
    using shareLoop_ok [OF assms(1), of "[p]"] True by (auto simp: fgoShare_def)
qed (use assms in \<open>simp add: fgoShare_def\<close>)

section \<open>Stores\<close>

text \<open>What \<^verbatim>\<open>fgoGCPtr\<close> asks of an address that holds no nogc object: where the arena is, and whether
  the heap of the garbage collector has a span there.\<close>

record rcHeap =
  arenaLo :: uintptr
  arenaSize :: uintptr
  spanOfHeap :: "uintptr \<Rightarrow> bool"

definition fgoGCPtr :: "rcHeap \<Rightarrow> rcMem \<Rightarrow> uintptr \<Rightarrow> bool" where
  "fgoGCPtr hp m p =
     (if p = 0 \<or> fgoState m p \<noteq> SNone then False
      else p - arenaLo hp < arenaSize hp \<or> spanOfHeap hp p)"

text \<open>A word of no nogc object is not part of the memory modelled.\<close>

definition putWord :: "uintptr \<Rightarrow> nat \<Rightarrow> uintptr \<Rightarrow> rcMem \<Rightarrow> rcMem option" where
  "putWord base off v m = (if objs m base = None then Some m else storePtr base off v m)"

definition storeGC :: "uintptr \<Rightarrow> nat \<Rightarrow> uintptr \<Rightarrow> rcMem \<Rightarrow> rcMem option" where
  "storeGC base off v m =
     Option.bind (fgoRCHandoff v m) (\<lambda>m.
     Option.bind (putWord base off v m) (fgoRCDec v))"

definition swapField :: "uintptr \<Rightarrow> nat \<Rightarrow> uintptr \<Rightarrow> rcMem \<Rightarrow> rcMem option" where
  "swapField base off v m =
     Option.bind (loadPtr base off m) (\<lambda>old.
     Option.bind (storePtr base off v m) (fgoRCDec old))"

definition fgoRCStore :: "rcHeap \<Rightarrow> uintptr \<Rightarrow> nat \<Rightarrow> uintptr \<Rightarrow> rcMem \<Rightarrow> rcMem option" where
  "fgoRCStore hp base off v m =
     (case fgoState m base of
        SCounted \<Rightarrow>
          if \<not> fgoGCPtr hp m v then swapField base off v m
          else Option.bind (fgoRCHandoff base m) (storeGC base off v)
      | SShared \<Rightarrow>
          if \<not> fgoGCPtr hp m v then Option.bind (fgoShare v m) (swapField base off v)
          else Option.bind (fgoRCHandoff base m) (storeGC base off v)
      | _ \<Rightarrow> storeGC base off v m)"

definition fgoRCStoreGC :: "uintptr \<Rightarrow> nat \<Rightarrow> uintptr \<Rightarrow> rcMem \<Rightarrow> rcMem option" where
  "fgoRCStoreGC base off v m = Option.bind (fgoRCHandoff base m) (storeGC base off v)"

definition fgoRCVet :: "rcHeap \<Rightarrow> uintptr \<Rightarrow> uintptr \<Rightarrow> rcMem \<Rightarrow> rcMem option" where
  "fgoRCVet hp p keep m =
     Option.bind (forAll (\<lambda>off found. if found then Some True else Option.bind (loadPtr p off m) (\<lambda>c. Some (fgoGCPtr hp m c)))
        (keepOffs keep) False)
       (\<lambda>found. if found then fgoRCHandoff p m else Some m)"

section \<open>What every operation keeps\<close>

definition rcSafe :: "rcMem \<Rightarrow> uintptr multiset \<Rightarrow> bool" where
  "rcSafe m R \<longleftrightarrow> rcOk m R \<and> handedClosed m {} \<and> sharedClosed m {} \<and>
     (\<forall>p x. objs m p = Some x \<longrightarrow> distinct (map fst (rcFields x)))"

lemma rcSafeD: "rcSafe m R \<Longrightarrow> rcOk m R" "rcSafe m R \<Longrightarrow> handedClosed m {}" "rcSafe m R \<Longrightarrow> sharedClosed m {}"
  "rcSafe m R \<Longrightarrow> objs m p = Some x \<Longrightarrow> distinct (map fst (rcFields x))"
  by (simp_all add: rcSafe_def)

lemma marks_sharedClosed:
  assumes "marks m m'" and "sharedClosed m {}"
  shows "sharedClosed m' {}"
  unfolding sharedClosed_def
proof (intro allI impI ballI)
  fix q y c assume y: "objs m' q = Some y" "rcMark y = SShared" "c \<in> set (slots y)" "fgoState m' c = SCounted"
  have state: "fgoState m' p = fgoState m p \<or> fgoState m p \<noteq> SNone \<and> fgoState m p \<noteq> SHanded \<and> fgoState m' p = SHanded" for p
    using assms(1) by (simp add: marks_def)
  obtain z where z: "objs m q = Some z" using marks_old [OF assms(1) y(1)] by blast
  have "slots y = slots z" using marks_slots [OF assms(1) z y(1)] .
  moreover have "rcMark z = SShared" using state [of q] z y by (auto simp: fgoState_def)
  moreover have "fgoState m c = SCounted" using state [of c] y(4) by auto
  ultimately show "c \<in> {}" using assms(2) z y(3) by (auto simp: sharedClosed_def)
qed

text \<open>When objects go, the others keep marks and fields.\<close>

lemma shrinks_state: "shrinks K m m' \<Longrightarrow> fgoState m' c = SNone \<or> fgoState m' c = fgoState m c"
  by (cases "objs m' c") (auto simp: shrinks_def fgoState_def)

lemma shrinks_old:
  assumes "shrinks K m m'" and "objs m' q = Some y"
  obtains z where "objs m q = Some z" and "rcMark y = rcMark z" and "rcFields y = rcFields z"
proof -
  have "q \<in> dom (objs m)" using assms by (auto simp: shrinks_def)
  then obtain z where "objs m q = Some z" by auto
  then show thesis using assms that by (auto simp: shrinks_def)
qed

lemma shrinks_safe:
  assumes "shrinks K m m'" and "rcSafe m R" and "rcOk m' R'"
  shows "rcSafe m' R'"
  unfolding rcSafe_def
proof (intro conjI allI impI)
  show "rcOk m' R'" by (rule assms(3))
  note state = shrinks_state [OF assms(1)]
  show "handedClosed m' {}"
    unfolding handedClosed_def
  proof (intro allI impI)
    fix q y assume y: "objs m' q = Some y" "rcMark y = SHanded"
    obtain z where z: "objs m q = Some z" "rcMark z = SHanded" "slots y = slots z"
      by (rule shrinks_old [OF assms(1) y(1)]) (use y(2) in \<open>simp add: slots_def\<close>)
    then have "settled m (set (slots z))" using assms(2) by (auto simp: rcSafe_def handedClosed_def)
    then have "fgoState m' c = SNone \<or> fgoState m' c = SHanded" if "c \<in> set (slots z)" for c
      using that state [of c] by (auto simp: settled_def)
    then show "q \<in> {} \<or> settled m' (set (slots y))" using z(3) by (simp add: settled_def)
  qed
  show "sharedClosed m' {}"
    unfolding sharedClosed_def
  proof (intro allI impI ballI)
    fix q y c assume y: "objs m' q = Some y" "rcMark y = SShared" "c \<in> set (slots y)" "fgoState m' c = SCounted"
    obtain z where z: "objs m q = Some z" "rcMark z = SShared" "slots y = slots z"
      by (rule shrinks_old [OF assms(1) y(1)]) (use y(2) in \<open>simp add: slots_def\<close>)
    moreover have "fgoState m c = SCounted" using state [of c] y(4) by simp
    ultimately show "c \<in> {}" using assms(2) y(3) by (auto simp: rcSafe_def sharedClosed_def)
  qed
  show "distinct (map fst (rcFields y))" if "objs m' q = Some y" for q y
    by (rule shrinks_old [OF assms(1) that]) (use rcSafeD(4) [OF assms(2)] in simp)
qed

lemma old_fields:
  assumes "dom (objs m') = dom (objs m)" and "\<forall>p x x'. objs m p = Some x \<longrightarrow> objs m' p = Some x' \<longrightarrow> rcFields x' = rcFields x \<and> rcMixed x' = rcMixed x"
    and "rcSafe m R" and "objs m' q = Some y"
  shows "distinct (map fst (rcFields y))"
proof -
  have "q \<in> dom (objs m)" using assms(1,4) by (simp flip: assms(1) add: domI)
  then obtain z where "objs m q = Some z" by auto
  then show ?thesis using assms(2,4) rcSafeD(4) [OF assms(3)] by simp
qed

lemma handoff_safe:
  assumes "rcSafe m R"
  shows "\<exists>m'. fgoRCHandoff p m = Some m' \<and> rcSafe m' R \<and> marks m m' \<and> settled m' {p}"
proof -
  obtain m' where m': "fgoRCHandoff p m = Some m'" "rcOk m' R" "marks m m'" "handedClosed m' {}" "settled m' {p}"
    using handoff_exact [OF rcSafeD(1,2) [OF assms]] by blast
  have "distinct (map fst (rcFields y))" if "objs m' q = Some y" for q y
    using m'(3) by (intro old_fields [OF _ _ assms that]) (simp_all add: marks_def)
  then have "rcSafe m' R"
    using m'(2,4) marks_sharedClosed [OF m'(3) rcSafeD(3) [OF assms]] by (simp add: rcSafe_def)
  with m' show ?thesis by blast
qed

lemma share_safe:
  assumes "rcSafe m R"
  shows "\<exists>m'. fgoShare p m = Some m' \<and> rcSafe m' R \<and> shares m m' \<and> fgoState m' p \<noteq> SCounted"
proof -
  obtain m' where m': "fgoShare p m = Some m'" "rcOk m' R" "shares m m'" "sharedClosed m' {}" "fgoState m' p \<noteq> SCounted"
    using share_exact [OF rcSafeD(1,3) [OF assms]] by blast
  have "distinct (map fst (rcFields y))" if "objs m' q = Some y" for q y
    using m'(3) by (intro old_fields [OF _ _ assms that]) (simp_all add: shares_def)
  then have "rcSafe m' R"
    using m'(2,4) shares_handedClosed [OF m'(3) rcSafeD(2) [OF assms]] by (simp add: rcSafe_def)
  with m' show ?thesis by blast
qed

lemma dec_safe:
  assumes "rcSafe m (R + live [p])"
  shows "\<exists>m'. fgoRCDec p m = Some m' \<and> rcSafe m' R \<and> shrinks {} m m'"
proof (cases "p = 0")
  case True
  then have "fgoRCDec p m = Some m" using assms
    by (auto simp: fgoRCDec_def fgoState_def rcSafe_def rcOk_def split: option.splits)
  with True assms show ?thesis by (simp add: live_Cons shrinks_def)
next
  case False
  then have "rcOk m (add_mset p R)" using assms by (simp add: rcSafe_def live_Cons)
  from dec_exact [OF this] shrinks_safe assms show ?thesis by blast
qed

lemma dec_none: "fgoState m p = SNone \<Longrightarrow> fgoRCDec p m = Some m"
  by (simp add: fgoRCDec_def)

section \<open>Storing a reference\<close>

lemma putField_state: "objs m base = Some x \<Longrightarrow> fgoState (putObj base (putField off g x) m) q = fgoState m q"
  by (simp add: fgoState_def putObj_def)

lemma putField_refs: "set (slots (putField off g x)) \<subseteq> set (fieldRefs g) \<union> set (slots x)"
  by (auto simp: slots_def putField_def split: if_splits)

lemma swap_parts: "K1 + R1 = K2 + R2 \<Longrightarrow> (K1 + A) + R1 = (K2 + A) + (R2 :: uintptr multiset)"
  by (metis union_assoc union_commute)

lemma putField_rcOk:
  assumes "rcOk m R" and x: "objs m base = Some x" and balance: "kids (putField off g x) + R' = kids x + R"
  shows "rcOk (putObj base (putField off g x) m) R'"
proof -
  let ?m = "putObj base (putField off g x) m"
  define T where "T = refsOf m (dom (objs m)) + R"
  have fin: "finite (dom (objs m))" using assms(1) by (simp add: rcOk_def)
  have dom: "dom (objs ?m) = dom (objs m)" using x by simp
  have "refsOf m (dom (objs m)) = kids x + refsOf m (dom (objs m) - {base})"
    using sum.remove [OF fin domI [of "objs m" base x, OF x], of "\<lambda>q. kids (the (objs m q))"] x by (simp add: refsOf_def)
  moreover have "refsOf ?m (dom (objs m) - {base}) = refsOf m (dom (objs m) - {base})"
    by (auto simp: refsOf_def putObj_def intro!: sum.cong)
  then have "refsOf ?m (dom (objs m)) = kids (putField off g x) + refsOf m (dom (objs m) - {base})"
    using sum.remove [OF fin domI [of "objs m" base x, OF x], of "\<lambda>q. kids (the (objs ?m q))"]
    by (simp add: refsOf_def) (simp add: putObj_def)
  ultimately have T: "refsOf ?m (dom (objs m)) + R' = T"
    using swap_parts [OF balance, of "refsOf m (dom (objs m) - {base})"] by (simp only: T_def)
  have "exact T base x" using rcOk_exact [OF assms(1) x] unfolding T_def .
  then have "exact T base (putField off g x)" by (simp add: exact_def)
  moreover have "exact T q y" if "objs m q = Some y" for q y
    using rcOk_exact [OF assms(1) that] unfolding T_def .
  ultimately have "exact T q y" if "objs ?m q = Some y" for q y
    using that by (cases "q = base") (simp_all add: putObj_def)
  then show ?thesis
    using assms(1) unfolding rcOk_def dom T T_def [symmetric] by blast
qed

lemma putField_safe:
  assumes safe: "rcSafe m R" and x: "objs m base = Some x" and balance: "kids (putField off g x) + R' = kids x + R"
    and handed: "rcMark x = SHanded \<Longrightarrow> settled m (set (fieldRefs g))"
    and counted: "rcMark x = SShared \<Longrightarrow> \<forall>c \<in> set (fieldRefs g). fgoState m c \<noteq> SCounted"
  shows "rcSafe (putObj base (putField off g x) m) R'"
  unfolding rcSafe_def
proof (intro conjI allI impI)
  let ?m = "putObj base (putField off g x) m"
  note state = putField_state [of m base x off g, OF x]
  have new: "q = base \<and> y = putField off g x \<or> q \<noteq> base \<and> objs m q = Some y" if "objs ?m q = Some y" for q y
    using that by (auto simp: putObj_def split: if_splits)
  have settled: "settled ?m A = settled m A" for A by (simp add: settled_def state)
  have sub: "settled m (set (slots (putField off g x)))" if "settled m (set (slots x))" "settled m (set (fieldRefs g))"
    using that putField_refs [of off g x] unfolding settled_def by blast
  show "rcOk ?m R'" by (rule putField_rcOk [OF rcSafeD(1) [OF safe] x balance])
  show "handedClosed ?m {}"
    unfolding handedClosed_def
  proof (intro allI impI)
    fix q y assume y: "objs ?m q = Some y" "rcMark y = SHanded"
    have "settled m (set (slots y))"
    proof (cases "q = base")
      case True
      then have "y = putField off g x" "rcMark x = SHanded" using new [OF y(1)] y(2) by simp_all
      then show ?thesis using sub handed rcSafeD(2) [OF safe] x by (simp add: handedClosed_def)
    next
      case False
      then have "objs m q = Some y" using new [OF y(1)] by simp
      then show ?thesis using y(2) rcSafeD(2) [OF safe] by (simp add: handedClosed_def)
    qed
    then show "q \<in> {} \<or> settled ?m (set (slots y))" by (simp add: settled)
  qed
  show "sharedClosed ?m {}"
    unfolding sharedClosed_def
  proof (intro allI impI ballI)
    fix q y c assume y: "objs ?m q = Some y" "rcMark y = SShared" "c \<in> set (slots y)" "fgoState ?m c = SCounted"
    have c: "fgoState m c = SCounted" using y(4) by (simp only: state)
    have shared: "c \<notin> set (slots z)" if "objs m q = Some z" "rcMark z = SShared" for z
      using that c rcSafeD(3) [OF safe] unfolding sharedClosed_def by blast
    show "c \<in> {}"
    proof (cases "q = base")
      case True
      then have z: "y = putField off g x" "rcMark x = SShared" using new [OF y(1)] y(2) by simp_all
      then have "c \<in> set (fieldRefs g)" using shared [of x] x True y(3) putField_refs [of off g x] by auto
      then show ?thesis using counted [OF z(2)] c by simp
    next
      case False
      then show ?thesis using new [OF y(1)] shared [of y] y(2,3) by simp
    qed
  qed
  show "distinct (map fst (rcFields y))" if "objs ?m q = Some y" for q y
    using new [OF that] rcSafeD(4) [OF safe] x by auto
qed

text \<open>The references around a field of \<open>x\<close>: those of a handed-off object are not counted.\<close>

abbreviation around :: "rcObj \<Rightarrow> uintptr multiset \<Rightarrow> rcField \<Rightarrow> uintptr multiset" where
  "around x R f \<equiv> (if rcMark x = SHanded then R else R + live (fieldRefs f))"

lemma putField_balance:
  assumes "map_of (rcFields x) off = Some f" and "distinct (map fst (rcFields x))"
  shows "kids (putField off g x) + around x R f = kids x + around x R g"
  using putField_slots [OF assms, of g] by (simp add: kids_def ac_simps)

lemma storePtr_safe:
  assumes "rcSafe m (around x R (PtrF v))" and "objs m base = Some x" and "fieldPtr x off = Some old"
    and "rcMark x = SHanded \<Longrightarrow> settled m {v}" and "rcMark x = SShared \<Longrightarrow> fgoState m v \<noteq> SCounted"
  shows "rcSafe (putObj base (setField off v x) m) (around x R (PtrF old))"
  using putField_safe [OF assms(1,2) putField_balance [OF assms(3) [unfolded fieldPtr_map_of] rcSafeD(4) [OF assms(1,2)]]] assms(4,5)
  by simp

lemma swapField_safe:
  assumes "rcSafe m (R + live [v])" and x: "objs m base = Some x" and "rcMark x \<noteq> SHanded" and "fieldPtr x off = Some old"
    and "rcMark x = SShared \<Longrightarrow> fgoState m v \<noteq> SCounted"
  shows "\<exists>m'. swapField base off v m = Some m' \<and> rcSafe m' R"
proof -
  let ?m = "putObj base (setField off v x) m"
  have "rcSafe ?m (R + live [old])"
    using storePtr_safe [OF _ x assms(4), of R v] assms by simp
  from dec_safe [OF this] obtain m' where "fgoRCDec old ?m = Some m'" "rcSafe m' R" by blast
  then show ?thesis
    using x assms(4) by (simp add: swapField_def loadPtr_def storePtr_def)
qed

text \<open>The reference the caller hands over, when \<open>v\<close> is an object.\<close>

definition handedOver :: "rcMem \<Rightarrow> uintptr \<Rightarrow> uintptr multiset" where
  "handedOver m v = (if objs m v = None then {#} else {#v#})"

lemma handedOver_live: "rcOk m R \<Longrightarrow> v = 0 \<or> objs m v \<noteq> None \<Longrightarrow> handedOver m v = live [v]"
  by (auto simp: handedOver_def live_Cons rcOk_def)

lemma handedOver_dom: "dom (objs m') = dom (objs m) \<Longrightarrow> handedOver m' v = handedOver m v"
  unfolding handedOver_def by (metis domIff)

lemma storeGC_safe:
  assumes safe: "rcSafe m (R + handedOver m v)" and "\<And>x. objs m base = Some x \<Longrightarrow> rcMark x = SHanded \<and> fieldPtr x off \<noteq> None"
  shows "\<exists>m'. storeGC base off v m = Some m' \<and> rcSafe m' R"
proof -
  obtain m1 where m1: "fgoRCHandoff v m = Some m1" "rcSafe m1 (R + handedOver m v)" "marks m m1" "settled m1 {v}"
    using handoff_safe [OF safe] by blast
  have dom: "dom (objs m1) = dom (objs m)" using m1(3) by (simp add: marks_def)
  obtain m2 where m2: "putWord base off v m1 = Some m2" "rcSafe m2 (R + handedOver m v)" "dom (objs m2) = dom (objs m)"
  proof (cases "objs m1 base")
    case None
    then show thesis using that [of m1] m1(2) dom by (simp add: putWord_def)
  next
    case (Some y)
    then obtain x where x: "objs m base = Some x" using dom by (metis domD domI)
    have "fgoState m base = SHanded" using assms(2) [OF x] x by (simp add: fgoState_def)
    then have "fgoState m1 base = SHanded" using marks_state [OF m1(3), of base] by auto
    then have mark: "rcMark y = SHanded" using Some by (simp add: fgoState_def)
    have "rcFields y = rcFields x" using m1(3) x Some by (simp add: marks_def)
    then obtain old where old: "fieldPtr y off = Some old" using assms(2) [OF x] by (auto simp: fieldPtr_def)
    have "rcSafe (putObj base (setField off v y) m1) (R + handedOver m v)"
      using storePtr_safe [OF _ Some old, of "R + handedOver m v" v] m1(2,4) mark by simp
    moreover have "putWord base off v m1 = Some (putObj base (setField off v y) m1)"
      using Some old by (simp add: putWord_def storePtr_def)
    moreover have "dom (objs (putObj base (setField off v y) m1)) = dom (objs m)" using Some dom by simp
    ultimately show thesis using that by blast
  qed
  have "\<exists>m'. fgoRCDec v m2 = Some m' \<and> rcSafe m' R"
  proof (cases "objs m v")
    case None
    then have "fgoState m2 v = SNone" using m2(3) by (metis domIff fgoState_def option.case(1))
    then show ?thesis using m2(2) None by (simp add: dec_none handedOver_def)
  next
    case (Some y)
    then have "rcSafe m2 (R + live [v])" using m2(2) handedOver_live [OF rcSafeD(1) [OF safe]] by simp
    from dec_safe [OF this] show ?thesis by blast
  qed
  then show ?thesis by (auto simp: storeGC_def m1(1) m2(1))
qed

lemma fgoRCStoreGC_safe:
  assumes safe: "rcSafe m (R + handedOver m v)" and "\<forall>x. objs m base = Some x \<longrightarrow> fieldPtr x off \<noteq> None"
  shows "\<exists>m'. fgoRCStoreGC base off v m = Some m' \<and> rcSafe m' R"
proof -
  obtain m1 where m1: "fgoRCHandoff base m = Some m1" "rcSafe m1 (R + handedOver m v)" "marks m m1" "settled m1 {base}"
    using handoff_safe [OF safe] by blast
  have dom: "dom (objs m1) = dom (objs m)" using m1(3) by (simp add: marks_def)
  have "rcMark y = SHanded \<and> fieldPtr y off \<noteq> None" if y: "objs m1 base = Some y" for y
  proof -
    obtain x where x: "objs m base = Some x" using dom y by (metis domD domI)
    have "rcFields y = rcFields x" using m1(3) x y by (simp add: marks_def)
    then have "fieldPtr y off \<noteq> None" using assms(2) x by (simp add: fieldPtr_def)
    moreover have "rcMark y \<noteq> SNone" using rcOk_exact [OF rcSafeD(1) [OF m1(2)] y] by (simp add: exact_def)
    then have "rcMark y = SHanded" using m1(4) y by (simp add: settled_def fgoState_def)
    ultimately show ?thesis by simp
  qed
  moreover have "rcSafe m1 (R + handedOver m1 v)" using m1(2) handedOver_dom [OF dom] by simp
  ultimately show ?thesis using storeGC_safe [of m1 R v base off] by (simp add: m1(1) fgoRCStoreGC_def)
qed

lemma store_safe:
  assumes safe: "rcSafe m (R + handedOver m v)" and "\<forall>x. objs m base = Some x \<longrightarrow> fieldPtr x off \<noteq> None"
    and "v = 0 \<or> objs m v \<noteq> None \<or> fgoGCPtr hp m v"
  shows "\<exists>m'. fgoRCStore hp base off v m = Some m' \<and> rcSafe m' R"
proof -
  have gc: "\<exists>m'. Option.bind (fgoRCHandoff base m) (storeGC base off v) = Some m' \<and> rcSafe m' R"
    using fgoRCStoreGC_safe [OF safe assms(2)] by (simp add: fgoRCStoreGC_def)
  show ?thesis
  proof (cases "fgoGCPtr hp m v \<or> fgoState m base = SNone \<or> fgoState m base = SHanded")
    case True
    have "\<exists>m'. storeGC base off v m = Some m' \<and> rcSafe m' R" if "fgoState m base = SNone \<or> fgoState m base = SHanded"
    proof (rule storeGC_safe [OF safe])
      show "rcMark x = SHanded \<and> fieldPtr x off \<noteq> None" if "objs m base = Some x" for x
        using that assms(2) \<open>fgoState m base = SNone \<or> fgoState m base = SHanded\<close> rcOk_exact [OF rcSafeD(1) [OF safe] that]
        by (simp add: fgoState_def exact_def)
    qed
    with gc True show ?thesis by (cases "fgoState m base") (auto simp: fgoRCStore_def)
  next
    case False
    then obtain x old where x: "objs m base = Some x" "rcMark x = fgoState m base" "fieldPtr x off = Some old"
      using assms(2) by (auto simp: fgoState_def split: option.splits)
    have safe': "rcSafe m (R + live [v])" using safe handedOver_live [OF rcSafeD(1) [OF safe]] assms(3) False by simp
    show ?thesis
    proof (cases "fgoState m base = SCounted")
      case True
      then show ?thesis
        using swapField_safe [OF safe' x(1) _ x(3)] x(2) False by (simp add: fgoRCStore_def)
    next
      case notcounted: False
      then have shared: "fgoState m base = SShared" using False by (cases "fgoState m base") auto
      obtain m1 where m1: "fgoShare v m = Some m1" "rcSafe m1 (R + live [v])" "shares m m1" "fgoState m1 v \<noteq> SCounted"
        using share_safe [OF safe'] by blast
      have "base \<in> dom (objs m1)" using m1(3) x(1) by (auto simp: shares_def)
      then obtain y where y: "objs m1 base = Some y" by auto
      have "rcFields y = rcFields x" using m1(3) x(1) y by (simp add: shares_def)
      then have old: "fieldPtr y off = Some old" using x(3) by (simp add: fieldPtr_def)
      have "fgoState m1 base = SShared" using shares_state [OF m1(3), of base] shared by auto
      then have "rcMark y = SShared" using y by (simp add: fgoState_def)
      then show ?thesis
        using swapField_safe [OF m1(2) y _ old] m1(1,4) shared False by (simp add: fgoRCStore_def)
    qed
  qed
qed

text \<open>The address of a global is stored like a reference, and a counted object then holds a pointer
  to no object, whose header its release reads.\<close>

theorem fgoRCStore_global:
  assumes "objs m base = Some x" and "rcMark x = SCounted" and "fieldPtr x off = Some 0" and "v \<noteq> 0" and "objs m v = None"
    and "\<not> fgoGCPtr hp m v" and "objs m 0 = None"
  shows "fgoRCStore hp base off v m = Some (putObj base (setField off v x) m)"
proof -
  have "fgoState (putObj base (setField off v x) m) 0 = SNone"
    using assms(1,7) by (auto simp: fgoState_def putObj_def)
  then show ?thesis
    using assms by (simp add: fgoRCStore_def fgoState_def swapField_def loadPtr_def storePtr_def dec_none)
qed

theorem fgoRCStore_global_witness:
  "fgoRCStore \<lparr>arenaLo = 0, arenaSize = 0, spanOfHeap = (\<lambda>_. False)\<rparr> 16 0 4096
     (putObj 16 \<lparr>rc = 1, rcMark = SCounted, rcFields = [(0, PtrF 0)], rcMixed = False\<rparr> \<lparr>objs = Map.empty, freedMem = []\<rparr>) =
   Some (putObj 16 (setField 0 4096 \<lparr>rc = 1, rcMark = SCounted, rcFields = [(0, PtrF 0)], rcMixed = False\<rparr>)
     (putObj 16 \<lparr>rc = 1, rcMark = SCounted, rcFields = [(0, PtrF 0)], rcMixed = False\<rparr> \<lparr>objs = Map.empty, freedMem = []\<rparr>))"
  by (rule fgoRCStore_global) (simp_all add: putObj_def fieldPtr_def fgoGCPtr_def)

lemma fgoRCDec_global:
  "fgoRCDec 16 (putObj 16 \<lparr>rc = 1, rcMark = SCounted, rcFields = [(0, PtrF 4096)], rcMixed = False\<rparr> \<lparr>objs = Map.empty, freedMem = []\<rparr>) = None"
  by (simp add: fgoRCDec_def fgoState_def putObj_def addRC_def hdrRC_def fgoRCRelease_def Let_def releaseLoop.simps fgoDecChild_def)

lemma fgoRCVet_spec:
  assumes "\<forall>off \<in> set (keepOffs keep). loadPtr p off m \<noteq> None"
  shows "fgoRCVet hp p keep m =
    (if \<exists>off \<in> set (keepOffs keep). fgoGCPtr hp m (the (loadPtr p off m)) then fgoRCHandoff p m else Some m)"
proof -
  have "forAll (\<lambda>off found. if found then Some True else Option.bind (loadPtr p off m) (\<lambda>c. Some (fgoGCPtr hp m c))) offs found =
      Some (found \<or> (\<exists>off \<in> set offs. fgoGCPtr hp m (the (loadPtr p off m))))"
    if "\<forall>off \<in> set offs. loadPtr p off m \<noteq> None" for offs found
    using that by (induction offs arbitrary: found) (auto split: Option.bind_splits)
  from this [OF assms, of False] show ?thesis by (simp add: fgoRCVet_def)
qed

lemma pairMem_shared: "sharedClosed pairMem {}"
  by (auto simp: sharedClosed_def dest!: pairMem_at)

text \<open>
  C25: sharing an object returns, keeps every count exact, and leaves neither the object nor anything
  a shared object holds counted without atomics.
\<close>

theorem fgoShare_exact:
  assumes "rcOk m R" and "sharedClosed m {}"
  shows "\<exists>m'. fgoShare p m = Some m' \<and> rcOk m' R \<and> shares m m' \<and> sharedClosed m' {} \<and> fgoState m' p \<noteq> SCounted"
  using assms by (rule share_exact)

theorem fgoShare_exact_witness:
  "\<exists>m'. fgoShare 16 pairMem = Some m' \<and> rcOk m' {#16#} \<and> shares pairMem m' \<and> sharedClosed m' {} \<and> fgoState m' 16 \<noteq> SCounted"
  by (rule fgoShare_exact [OF pairMem_ok pairMem_shared])

lemma pairMem_safe: "rcSafe pairMem {#16#}"
  using pairMem_ok pairMem_handed pairMem_shared by (auto simp: rcSafe_def dest!: pairMem_at)



end
