(* ===== verification/RcSlices.thy ===== *)
theory RcSlices
  imports RcStore
begin

text \<open>
  \<^verbatim>\<open>src/src/runtime/forgo_rc.go\<close>: slices of nogc pointers in struct fields: building the buffer
  a field takes over, storing it, and moving an element out. The mark \<^verbatim>\<open>fgoPtrsTaint\<close> leaves in a
  buffer's header is passed with the slice.
\<close>

unbundle bit_operations_syntax

section \<open>Building a buffer\<close>

record rcBuf =
  elems :: "uintptr list"
  tainted :: bool

definition fgoPtrsMake :: "nat \<Rightarrow> rcBuf" where
  "fgoPtrsMake n = \<lparr>elems = replicate n 0, tainted = False\<rparr>"

definition fgoPtrsTaint :: "rcBuf \<Rightarrow> rcBuf" where
  "fgoPtrsTaint s = (if elems s \<noteq> [] then s\<lparr>tainted := True\<rparr> else s)"

text \<open>Outside the arena \<^verbatim>\<open>fgoQuick\<close> is \<^verbatim>\<open>fgoNone\<close>.\<close>

definition inArena :: "rcHeap \<Rightarrow> uintptr \<Rightarrow> bool" where
  "inArena hp p \<longleftrightarrow> p - arenaLo hp < arenaSize hp"

definition fgoPtrsAppend1 :: "rcHeap \<Rightarrow> nat \<Rightarrow> uintptr \<Rightarrow> rcMem \<times> rcBuf \<Rightarrow> (rcMem \<times> rcBuf) option" where
  "fgoPtrsAppend1 hp i p ms =
     (case ms of (m, s) \<Rightarrow>
      if length (elems s) \<le> i then None
      else
        let (m, s) =
          (if \<not> inArena hp p then (m, if p \<noteq> 0 then fgoPtrsTaint s else s)
           else if fgoState m p = SCounted then (addRC 1 p m, s)
           else (fgoRCInc p m, if fgoGCPtr hp m p then fgoPtrsTaint s else s))
        in Some (m, s\<lparr>elems := (elems s)[i := p]\<rparr>))"

fun fgoPtrsAppends :: "rcHeap \<Rightarrow> nat \<Rightarrow> uintptr list \<Rightarrow> rcMem \<times> rcBuf \<Rightarrow> (rcMem \<times> rcBuf) option" where
  "fgoPtrsAppends hp i [] ms = Some ms"
| "fgoPtrsAppends hp i (p # src) ms = Option.bind (fgoPtrsAppend1 hp i p ms) (fgoPtrsAppends hp (Suc i) src)"

fun fgoPtrsCopies :: "nat \<Rightarrow> uintptr list \<Rightarrow> rcMem \<times> rcBuf \<Rightarrow> (rcMem \<times> rcBuf) option" where
  "fgoPtrsCopies i [] ms = Some ms"
| "fgoPtrsCopies i (p # src) ms =
     (case ms of (m, s) \<Rightarrow>
      Option.bind (fgoIncObj p m) (\<lambda>m.
        if length (elems s) \<le> i then None
        else fgoPtrsCopies (Suc i) src (m, s\<lparr>elems := (elems s)[i := p]\<rparr>)))"

text \<open>\<open>data\<close> is the address of the elements of \<open>src\<close>.\<close>

definition fgoPtrsAppendN :: "rcHeap \<Rightarrow> nat \<Rightarrow> uintptr \<Rightarrow> uintptr list \<Rightarrow> rcMem \<times> rcBuf \<Rightarrow> (rcMem \<times> rcBuf) option" where
  "fgoPtrsAppendN hp i data src ms =
     (if inArena hp data then fgoPtrsCopies i src ms else fgoPtrsAppends hp i src ms)"

section \<open>Slices in fields\<close>

definition loadSlice :: "uintptr \<Rightarrow> nat \<Rightarrow> rcMem \<Rightarrow> uintptr list option" where
  "loadSlice base off m = Option.bind (objs m base) (\<lambda>x.
     case map_of (rcFields x) off of Some (PtrsF cs) \<Rightarrow> Some cs | _ \<Rightarrow> None)"

text \<open>A slice that is in no nogc object is not part of the memory modelled.\<close>

definition putSlice :: "uintptr \<Rightarrow> nat \<Rightarrow> uintptr list \<Rightarrow> rcMem \<Rightarrow> rcMem option" where
  "putSlice base off cs m =
     (case objs m base of
        None \<Rightarrow> Some m
      | Some x \<Rightarrow> Option.bind (loadSlice base off m) (\<lambda>_. Some (putObj base (putField off (PtrsF cs) x) m)))"

definition fgoPtrsPut :: "uintptr \<Rightarrow> nat \<Rightarrow> rcBuf \<Rightarrow> rcMem \<Rightarrow> rcMem option" where
  "fgoPtrsPut base off ns m =
     (if fgoState m base \<noteq> SCounted then
        if elems ns = [] then putSlice base off [] m
        else Option.bind (forAll fgoRCHandoff (elems ns) m) (\<lambda>m.
             Option.bind (putSlice base off (elems ns) m) (forAll fgoRCDec (elems ns)))
      else
        Option.bind (loadSlice base off m) (\<lambda>old.
        Option.bind (putSlice base off (elems ns) m) (\<lambda>m.
        Option.bind (if tainted ns then fgoRCHandoff base m else Some m) (\<lambda>m.
          if old = [] then Some m else forAll fgoRCDec old m))))"

definition fgoPtrsTake :: "uintptr \<Rightarrow> nat \<Rightarrow> nat \<Rightarrow> rcMem \<Rightarrow> (rcMem \<times> uintptr) option" where
  "fgoPtrsTake holder off i m =
     Option.bind (loadSlice holder off m) (\<lambda>cs.
       if length cs \<le> i then None
       else let p = cs ! i in
         if p = 0 then Some (m, 0)
         else if fgoUnique m holder then Option.bind (putSlice holder off (cs[i := 0]) m) (\<lambda>m. Some (m, p))
         else if fgoState m holder = SCounted then Option.bind (fgoIncObj p m) (\<lambda>m. Some (m, p))
         else Some (fgoRCInc p m, p))"

text \<open>The elements of the copy on the GC heap.\<close>

definition fgoPtrsClone :: "rcHeap \<Rightarrow> uintptr \<Rightarrow> uintptr list \<Rightarrow> rcMem \<Rightarrow> (rcMem \<times> uintptr list) option" where
  "fgoPtrsClone hp data s m =
     (if s = [] then Some (m, [])
      else if \<not> inArena hp data then Some (m, s)
      else Option.bind (forAll fgoRCHandoff s m) (\<lambda>m. Some (m, s)))"

section \<open>Counting the elements\<close>

definition counted :: "rcMem \<Rightarrow> uintptr list \<Rightarrow> uintptr multiset" where
  "counted m cs = mset (filter (\<lambda>c. objs m c \<noteq> None) cs)"

lemma counted_simps [simp]: "counted m [] = {#}" "counted m (c # cs) = handedOver m c + counted m cs"
  by (simp_all add: counted_def handedOver_def)

lemma counted_dom: "dom (objs m') = dom (objs m) \<Longrightarrow> counted m' cs = counted m cs"
  unfolding counted_def by (metis domIff)

lemma counted_live: "rcOk m R \<Longrightarrow> \<forall>c \<in> set cs. c = 0 \<or> objs m c \<noteq> None \<Longrightarrow> counted m cs = live cs"
  by (induction cs) (simp_all add: handedOver_live [of m R] live_Cons)

lemma sameShape_safe: "sameShape m m' \<Longrightarrow> rcSafe m R \<Longrightarrow> rcOk m' R' \<Longrightarrow> rcSafe m' R'"
  using shrinks_safe [of "{}" m m'] shrinks_shape [of m m' "{}" m'] by simp

lemma inc_safe:
  assumes "rcSafe m R" and "size (refsOf m (dom (objs m)) + R) + 1 < 2 ^ 62"
  shows "rcSafe (fgoRCInc p m) (R + handedOver m p) \<and> sameShape m (fgoRCInc p m)"
proof (cases "objs m p")
  case None
  then show ?thesis using assms(1) by (simp add: fgoRCInc_def fgoState_def handedOver_def)
next
  case (Some x)
  have inc: "rcOk (fgoRCInc p m) (R + live [p])" "sameShape m (fgoRCInc p m)"
    using fgoRCInc_ok [OF rcSafeD(1) [OF assms(1)] _ assms(2), of p] Some by (simp_all add: domI)
  moreover have "handedOver m p = live [p]" using Some by (intro handedOver_live [OF rcSafeD(1) [OF assms(1)]]) simp
  ultimately show ?thesis using sameShape_safe [OF inc(2) assms(1)] by simp
qed

lemma append1_safe:
  assumes "rcSafe m R" and "size (refsOf m (dom (objs m)) + R) + 1 < 2 ^ 62" and "i < length (elems s)"
    and "\<forall>p x. objs m p = Some x \<longrightarrow> inArena hp p" and "\<not> inArena hp 0"
  shows "\<exists>m' s'. fgoPtrsAppend1 hp i p (m, s) = Some (m', s') \<and> rcSafe m' (R + handedOver m p) \<and> sameShape m m' \<and>
     elems s' = (elems s)[i := p] \<and> tainted s' = (tainted s \<or> p \<noteq> 0 \<and> objs m p = None)"
proof -
  note inc = inc_safe [OF assms(1,2), of p]
  have ne: "elems s \<noteq> []" using assms(3) by auto
  show ?thesis
  proof (cases "objs m p")
    case None
    have none: "fgoState m p = SNone" using None by (simp add: fgoState_def)
    show ?thesis
    proof (cases "inArena hp p")
      case True
      then have "p \<noteq> 0" "fgoGCPtr hp m p" using assms(5) none by (auto simp: fgoGCPtr_def inArena_def)
      with None none True ne assms(3) inc show ?thesis
        by (simp add: fgoPtrsAppend1_def fgoPtrsTaint_def fgoRCInc_def)
    next
      case False
      with None none ne assms(3) inc show ?thesis
        by (cases "p = 0") (simp_all add: fgoPtrsAppend1_def fgoPtrsTaint_def fgoRCInc_def)
    qed
  next
    case (Some x)
    then have arena: "inArena hp p" using assms(4) by simp
    have state: "fgoState m p \<noteq> SNone"
      using rcOk_exact [OF rcSafeD(1) [OF assms(1)] Some] Some by (simp add: fgoState_def exact_def)
    then have "\<not> fgoGCPtr hp m p" by (simp add: fgoGCPtr_def)
    with Some arena state assms(3) inc show ?thesis
      by (simp add: fgoPtrsAppend1_def fgoRCInc_def)
  qed
qed

lemma list_update_append: "i < length xs \<Longrightarrow> take (Suc i) (xs[i := y]) = take i xs @ [y]"
  by (simp add: take_Suc_conv_app_nth)

lemma appends_safe:
  assumes "rcSafe m R" and "size (refsOf m (dom (objs m)) + R) + length src < 2 ^ 62" and "i + length src \<le> length (elems s)"
    and "\<forall>p x. objs m p = Some x \<longrightarrow> inArena hp p" and "\<not> inArena hp 0"
  shows "\<exists>m' s'. fgoPtrsAppends hp i src (m, s) = Some (m', s') \<and> rcSafe m' (R + counted m src) \<and> sameShape m m' \<and>
     elems s' = take i (elems s) @ src @ drop (i + length src) (elems s) \<and>
     tainted s' = (tainted s \<or> (\<exists>p \<in> set src. p \<noteq> 0 \<and> objs m p = None))"
  using assms
proof (induction src arbitrary: i m s R)
  case Nil
  then show ?case by simp
next
  case (Cons p src)
  obtain m1 s1 where 1: "fgoPtrsAppend1 hp i p (m, s) = Some (m1, s1)" "rcSafe m1 (R + handedOver m p)" "sameShape m m1"
      "elems s1 = (elems s)[i := p]" "tainted s1 = (tainted s \<or> p \<noteq> 0 \<and> objs m p = None)"
    using append1_safe [OF Cons.prems(1) _ _ Cons.prems(4,5), of i s p] Cons.prems(2,3) by auto
  have dom: "dom (objs m1) = dom (objs m)" using 1(3) by (simp add: sameShape_def)
  have none: "objs m1 q = None \<longleftrightarrow> objs m q = None" for q using dom by (metis domIff)
  have "size (handedOver m p) \<le> 1" by (simp add: handedOver_def)
  then have "size (refsOf m1 (dom (objs m1)) + (R + handedOver m p)) + length src < 2 ^ 62"
    using Cons.prems(2) sameShape_refs [OF 1(3)] by simp
  moreover have "\<forall>p x. objs m1 p = Some x \<longrightarrow> inArena hp p" using Cons.prems(4) none by (metis option.exhaust option.distinct(1))
  ultimately obtain m2 s2 where 2: "fgoPtrsAppends hp (Suc i) src (m1, s1) = Some (m2, s2)"
      "rcSafe m2 (R + handedOver m p + counted m1 src)" "sameShape m1 m2"
      "elems s2 = take (Suc i) (elems s1) @ src @ drop (Suc i + length src) (elems s1)"
      "tainted s2 = (tainted s1 \<or> (\<exists>p \<in> set src. p \<noteq> 0 \<and> objs m1 p = None))"
    using Cons.IH [OF 1(2), of "Suc i" s1] Cons.prems(3,5) 1(4) by auto
  have "i < length (elems s)" using Cons.prems(3) by simp
  then have "elems s2 = take i (elems s) @ (p # src) @ drop (i + length (p # src)) (elems s)"
    using 2(4) list_update_append [of i "elems s" p] by (simp add: 1(4))
  with 1 2 sameShape_trans [OF 1(3) 2(3)] show ?case
    by (auto simp: counted_dom [OF dom] none add.assoc)
qed

lemma copies_appends:
  assumes "rcSafe m R" and "size (refsOf m (dom (objs m)) + R) + length src < 2 ^ 62" and "i + length src \<le> length (elems s)"
    and "\<forall>p x. objs m p = Some x \<longrightarrow> inArena hp p" and "\<not> inArena hp 0" and "\<forall>p \<in> set src. p = 0 \<or> objs m p \<noteq> None"
  shows "fgoPtrsCopies i src (m, s) = fgoPtrsAppends hp i src (m, s)"
  using assms
proof (induction src arbitrary: i m s R)
  case (Cons p src)
  obtain m1 s1 where 1: "fgoPtrsAppend1 hp i p (m, s) = Some (m1, s1)" "rcSafe m1 (R + handedOver m p)" "sameShape m m1"
      "elems s1 = (elems s)[i := p]" "tainted s1 = tainted s"
    using append1_safe [OF Cons.prems(1) _ _ Cons.prems(4,5), of i s p] Cons.prems(2,3,6) by auto
  have dom: "dom (objs m1) = dom (objs m)" using 1(3) by (simp add: sameShape_def)
  have none: "objs m1 q = None \<longleftrightarrow> objs m q = None" for q using dom by (metis domIff)
  have inc: "fgoIncObj p m = Some (fgoRCInc p m)"
    using fgoIncObj_inc [OF rcSafeD(1) [OF Cons.prems(1)], of p] Cons.prems(6) by (auto simp: domIff)
  have "m1 = fgoRCInc p m"
    using 1(1) Cons.prems(3) by (auto simp: fgoPtrsAppend1_def Let_def fgoRCInc_def split: if_splits)
      (use Cons.prems(4-6) in \<open>auto simp: fgoState_def split: option.splits\<close>)
  moreover have "s1 = s\<lparr>elems := (elems s)[i := p]\<rparr>" using 1(4,5) by simp
  moreover have "size (handedOver m p) \<le> 1" by (simp add: handedOver_def)
  then have "size (refsOf m1 (dom (objs m1)) + (R + handedOver m p)) + length src < 2 ^ 62"
    using Cons.prems(2) sameShape_refs [OF 1(3)] by simp
  moreover have "\<forall>p x. objs m1 p = Some x \<longrightarrow> inArena hp p" using Cons.prems(4) none by (metis option.exhaust option.distinct(1))
  moreover have "\<forall>p \<in> set src. p = 0 \<or> objs m1 p \<noteq> None" using Cons.prems(6) none by simp
  moreover have "Suc i + length src \<le> length (elems s1)" using Cons.prems(3) 1(4) by simp
  ultimately have "fgoPtrsCopies (Suc i) src (m1, s1) = fgoPtrsAppends hp (Suc i) src (m1, s1)"
    using Cons.IH [OF 1(2)] Cons.prems(5) by blast
  then show ?case
    using inc 1(1) Cons.prems(3) \<open>m1 = fgoRCInc p m\<close> \<open>s1 = s\<lparr>elems := (elems s)[i := p]\<rparr>\<close> by simp
qed simp

text \<open>
  A buffer made and filled with two slices holds their elements in order and counts each of
  them that is an object; it is marked exactly when an element is a pointer that no counted object
  can count.
\<close>

theorem fgoPtrsAppendN_exact:
  assumes safe: "rcSafe m R" and "size (refsOf m (dom (objs m)) + R) + length src < 2 ^ 62" and "i + length src \<le> length (elems s)"
    and "\<forall>p x. objs m p = Some x \<longrightarrow> inArena hp p" and "\<not> inArena hp 0"
    and "inArena hp data \<longrightarrow> (\<forall>p \<in> set src. p = 0 \<or> objs m p \<noteq> None)"
  shows "\<exists>m' s'. fgoPtrsAppendN hp i data src (m, s) = Some (m', s') \<and> rcSafe m' (R + counted m src) \<and>
     elems s' = take i (elems s) @ src @ drop (i + length src) (elems s) \<and>
     tainted s' = (tainted s \<or> (\<exists>p \<in> set src. p \<noteq> 0 \<and> objs m p = None))"
proof -
  have "fgoPtrsAppendN hp i data src (m, s) = fgoPtrsAppends hp i src (m, s)"
    using copies_appends [OF assms(1-5)] assms(6) by (simp add: fgoPtrsAppendN_def)
  then show ?thesis using appends_safe [OF assms(1-5)] by auto
qed

section \<open>Storing a slice\<close>

lemma handoffs_safe:
  assumes "rcSafe m R"
  shows "\<exists>m'. forAll fgoRCHandoff cs m = Some m' \<and> rcSafe m' R \<and> marks m m' \<and> settled m' (set cs)"
  using assms
proof (induction cs arbitrary: m)
  case Nil
  then show ?case by (simp add: settled_def)
next
  case (Cons c cs)
  obtain m1 where 1: "fgoRCHandoff c m = Some m1" "rcSafe m1 R" "marks m m1" "settled m1 {c}"
    using handoff_safe [OF Cons.prems] by blast
  obtain m2 where 2: "forAll fgoRCHandoff cs m1 = Some m2" "rcSafe m2 R" "marks m1 m2" "settled m2 (set cs)"
    using Cons.IH [OF 1(2)] by blast
  have "settled m2 (set (c # cs))" using 2(4) settled_marks [OF 2(3) 1(4)] by (auto simp: settled_def)
  then show ?case using 1(1) 2 marks_trans [OF 1(3) 2(3)] by auto
qed

lemma decs_safe:
  assumes "rcSafe m (R + live cs)"
  shows "\<exists>m'. forAll fgoRCDec cs m = Some m' \<and> rcSafe m' R"
  using assms
proof (induction cs arbitrary: m)
  case (Cons c cs)
  have "rcSafe m (R + live cs + live [c])" using Cons.prems by (simp add: live_Cons ac_simps split: if_splits)
  from dec_safe [OF this] obtain m1 where "fgoRCDec c m = Some m1" "rcSafe m1 (R + live cs)" by blast
  with Cons.IH show ?case by auto
qed simp

lemma loadSlice_Some: "loadSlice base off m = Some cs \<longleftrightarrow> (\<exists>x. objs m base = Some x \<and> map_of (rcFields x) off = Some (PtrsF cs))"
  by (cases "objs m base") (auto simp: loadSlice_def split: option.splits rcField.splits)

lemma put_safe:
  assumes safe: "rcSafe m (R + live (elems ns))" and "objs m base \<noteq> None \<longrightarrow> loadSlice base off m \<noteq> None"
    and "fgoState m base \<noteq> SShared" and "\<not> tainted ns"
  shows "\<exists>m'. fgoPtrsPut base off ns m = Some m' \<and> rcSafe m' R"
proof (cases "fgoState m base = SCounted")
  case True
  then obtain x cs where x: "objs m base = Some x" "rcMark x = SCounted" "map_of (rcFields x) off = Some (PtrsF cs)"
    using assms(2) loadSlice_Some by (fastforce simp: fgoState_def split: option.splits)
  let ?m = "putObj base (putField off (PtrsF (elems ns)) x) m"
  have "rcSafe ?m (R + live cs)"
    using putField_safe [OF safe x(1), of off "PtrsF (elems ns)" "R + live cs"]
      putField_balance [OF x(3) rcSafeD(4) [OF safe x(1)], where R = R and g = "PtrsF (elems ns)"] x(2) by simp
  from decs_safe [OF this] obtain m' where m': "forAll fgoRCDec cs ?m = Some m'" "rcSafe m' R" by blast
  have load: "loadSlice base off m = Some cs" using x loadSlice_Some by blast
  have "putSlice base off (elems ns) m = Some ?m" using x(1) load by (simp add: putSlice_def)
  then show ?thesis using m' True assms(4) load by (auto simp: fgoPtrsPut_def)
next
  case False
  obtain m1 where 1: "forAll fgoRCHandoff (elems ns) m = Some m1" "rcSafe m1 (R + live (elems ns))" "marks m m1" "settled m1 (set (elems ns))"
    using handoffs_safe [OF safe] by blast
  have "\<exists>m2. putSlice base off (elems ns) m1 = Some m2 \<and> rcSafe m2 (R + live (elems ns))"
  proof (cases "objs m1 base")
    case None
    then show ?thesis using 1(2) by (simp add: putSlice_def)
  next
    case (Some y)
    then obtain x where x: "objs m base = Some x" "rcFields y = rcFields x" using marks_old [OF 1(3)] by blast
    then obtain cs where cs: "map_of (rcFields y) off = Some (PtrsF cs)" using assms(2) loadSlice_Some by fastforce
    have "rcMark x \<noteq> SNone" using rcOk_exact [OF rcSafeD(1) [OF safe] x(1)] by (simp add: exact_def)
    then have "fgoState m base = SHanded"
      using False assms(3) x(1) by (cases "rcMark x") (simp_all add: fgoState_def)
    then have "rcMark y = SHanded" using marks_state [OF 1(3), of base] Some by (auto simp: fgoState_def)
    then have "rcSafe (putObj base (putField off (PtrsF (elems ns)) y) m1) (R + live (elems ns))"
      using putField_safe [OF 1(2) Some, of off "PtrsF (elems ns)" "R + live (elems ns)"] 1(4) by (simp add: kids_def)
    moreover have "loadSlice base off m1 = Some cs" using Some cs loadSlice_Some by blast
    ultimately show ?thesis using Some by (simp add: putSlice_def)
  qed
  then obtain m2 where 2: "putSlice base off (elems ns) m1 = Some m2" "rcSafe m2 (R + live (elems ns))" by blast
  from decs_safe [OF 2(2)] obtain m3 where 3: "forAll fgoRCDec (elems ns) m2 = Some m3" "rcSafe m3 R" by blast
  show ?thesis
  proof (cases "elems ns = []")
    case True
    then show ?thesis using 1 2 False by (simp add: fgoPtrsPut_def)
  next
    case ne: False
    then show ?thesis using 1(1) 2(1) 3 False by (simp add: fgoPtrsPut_def)
  qed
qed

lemma take_safe:
  assumes safe: "rcSafe m R" and "loadSlice holder off m = Some cs" and "i < length cs"
    and "cs ! i = 0 \<or> objs m (cs ! i) \<noteq> None" and "size (refsOf m (dom (objs m)) + R) + 1 < 2 ^ 62"
  shows "\<exists>m'. fgoPtrsTake holder off i m = Some (m', cs ! i) \<and> rcSafe m' (R + live [cs ! i])"
proof (cases "cs ! i = 0")
  case True
  then show ?thesis using assms by (simp add: fgoPtrsTake_def live_Cons)
next
  case False
  obtain x where x: "objs m holder = Some x" "map_of (rcFields x) off = Some (PtrsF cs)" using assms(2) loadSlice_Some by blast
  have p: "objs m (cs ! i) \<noteq> None" using assms(4) False by simp
  have inc: "rcSafe (fgoRCInc (cs ! i) m) (R + live [cs ! i])"
    using inc_safe [OF safe assms(5), of "cs ! i"] handedOver_live [OF rcSafeD(1) [OF safe], of "cs ! i"] p by simp
  show ?thesis
  proof (cases "fgoUnique m holder")
    case True
    then have mark: "rcMark x = SCounted" using x(1) by (simp add: fgoUnique_def fgoState_def)
    let ?g = "PtrsF (cs[i := 0])" and ?m = "putObj holder (putField off (PtrsF (cs[i := 0])) x) m"
    have cs: "cs = take i cs @ cs ! i # drop (Suc i) cs" using assms(3) by (simp add: id_take_nth_drop)
    have "live cs = live (cs[i := 0]) + live [cs ! i]"
      using assms(3) by (subst (1) cs) (simp add: upd_conv_take_nth_drop live_Cons)
    then have "live (slots (putField off ?g x)) + live [cs ! i] = live (slots x)"
      using putField_slots [OF x(2) rcSafeD(4) [OF safe x(1)], of ?g] by simp
    then have "kids (putField off ?g x) + (R + live [cs ! i]) = kids x + R"
      using mark by (simp add: kids_def ac_simps)
    from putField_safe [OF safe x(1) this] have "rcSafe ?m (R + live [cs ! i])" using mark by simp
    then show ?thesis using True assms(2,3) False x(1) by (simp add: fgoPtrsTake_def putSlice_def)
  next
    case no: False
    have "fgoIncObj (cs ! i) m = Some (fgoRCInc (cs ! i) m)"
      using fgoIncObj_inc [OF rcSafeD(1) [OF safe], of "cs ! i"] p by (simp add: domIff)
    then show ?thesis using no assms(2,3) False inc by (simp add: fgoPtrsTake_def Let_def)
  qed
qed

text \<open>
  A shared object is treated like a handed-off one, although its release drops the references of
  its slices: the element's count goes below that of a handed-off object without references.
\<close>

definition sharedMem :: rcMem where
  "sharedMem = \<lparr>objs = [16 \<mapsto> \<lparr>rc = fgoSharedBit + 1, rcMark = SShared, rcFields = [(0, PtrsF [])], rcMixed = False\<rparr>,
                           32 \<mapsto> \<lparr>rc = 1, rcMark = SCounted, rcFields = [], rcMixed = False\<rparr>], freedMem = []\<rparr>"

lemma fgoPtrsPut_shared:
  "\<exists>m1 m2. fgoPtrsPut 16 0 \<lparr>elems = [32], tainted = False\<rparr> sharedMem = Some m1 \<and> hdrRC m1 32 = fgoHeld \<and>
     fgoRCDec 16 m1 = Some m2 \<and> hdrRC m2 32 = fgoHeld - 1"
  by (simp add: fgoPtrsPut_def sharedMem_def fgoState_def fgoRCHandoff_def fgoHandOne_def putObj_def handLoop.simps putSlice_def
      loadSlice_def putField_def fgoRCDec_def addRC_def hdrRC_def fgoSharedDec_def fgoRCRelease_def Let_def releaseLoop.simps
      fgoDecChild_def freeObj_def fgoHeld_def fgoSharedBit_def)

theorem fgoPtrsAppendN_exact_witness:
  "\<exists>m' s'. fgoPtrsAppendN \<lparr>arenaLo = 16, arenaSize = 64, spanOfHeap = (\<lambda>_. False)\<rparr> 1 4096 [32, 4096] (pairMem, fgoPtrsMake 3) = Some (m', s') \<and>
     rcSafe m' ({#16#} + counted pairMem [32, 4096]) \<and>
     elems s' = take 1 (elems (fgoPtrsMake 3)) @ [32, 4096] @ drop (1 + length [32, 4096 :: uintptr]) (elems (fgoPtrsMake 3)) \<and>
     tainted s' = (tainted (fgoPtrsMake 3) \<or> (\<exists>p \<in> set [32, 4096]. p \<noteq> 0 \<and> objs pairMem p = None))"
  by (rule fgoPtrsAppendN_exact [OF pairMem_safe])
    (auto simp: pairMem_dom pairMem_refs fgoPtrsMake_def inArena_def dest!: pairMem_at)

text \<open>An object at 16 whose slice has the object at 32.\<close>

definition sliceMem :: rcMem where
  "sliceMem = \<lparr>objs = [16 \<mapsto> \<lparr>rc = 1, rcMark = SCounted, rcFields = [(0, PtrsF [32])], rcMixed = False\<rparr>,
                          32 \<mapsto> \<lparr>rc = 1, rcMark = SCounted, rcFields = [], rcMixed = False\<rparr>], freedMem = []\<rparr>"

lemma sliceMem_at:
  "objs sliceMem p = Some x \<Longrightarrow>
     p = 16 \<and> x = \<lparr>rc = 1, rcMark = SCounted, rcFields = [(0, PtrsF [32])], rcMixed = False\<rparr> \<or>
     p = 32 \<and> x = \<lparr>rc = 1, rcMark = SCounted, rcFields = [], rcMixed = False\<rparr>"
  by (auto simp: sliceMem_def split: if_splits)

lemma sliceMem_dom: "dom (objs sliceMem) = {16, 32}"
  by (auto simp: sliceMem_def)

lemma sliceMem_refs: "refsOf sliceMem {16, 32} = {#32#}"
  by (simp add: refsOf_def) (simp add: sliceMem_def kids_def slots_def live_def)

lemma sliceMem_safe: "rcSafe sliceMem {#16#}"
proof -
  have "rcOk sliceMem {#16#}"
    unfolding rcOk_def sliceMem_dom sliceMem_refs by (auto simp: exact_def dest!: sliceMem_at)
  then show ?thesis by (auto simp: rcSafe_def handedClosed_def sharedClosed_def dest!: sliceMem_at)
qed

lemma sliceMem_slice: "loadSlice 16 0 sliceMem = Some [32]"
  by (simp add: sliceMem_def loadSlice_def)

text \<open>
  Storing a slice into a field of an object that is not shared keeps every count exact and what
  handed-off objects hold handed off.
\<close>

theorem fgoPtrsPut_safe:
  assumes safe: "rcSafe m (R + live (elems ns))" and "objs m base \<noteq> None \<longrightarrow> loadSlice base off m \<noteq> None"
    and "fgoState m base \<noteq> SShared" and "\<not> tainted ns"
  shows "\<exists>m'. fgoPtrsPut base off ns m = Some m' \<and> rcSafe m' R"
  using assms by (rule put_safe)

theorem fgoPtrsPut_safe_witness: "\<exists>m'. fgoPtrsPut 16 0 (fgoPtrsMake 2) sliceMem = Some m' \<and> rcSafe m' {#16#}"
  by (rule fgoPtrsPut_safe)
    (use sliceMem_safe in \<open>simp_all add: fgoPtrsMake_def live_def sliceMem_slice numeral_2_eq_2\<close>, simp add: sliceMem_def fgoState_def)

text \<open>
  Moving an element out of a slice field gives a reference to it and keeps every count exact,
  whether it takes the slice's reference or adds one.
\<close>

theorem fgoPtrsTake_safe:
  assumes safe: "rcSafe m R" and "loadSlice holder off m = Some cs" and "i < length cs"
    and "cs ! i = 0 \<or> objs m (cs ! i) \<noteq> None" and "size (refsOf m (dom (objs m)) + R) + 1 < 2 ^ 62"
  shows "\<exists>m'. fgoPtrsTake holder off i m = Some (m', cs ! i) \<and> rcSafe m' (R + live [cs ! i])"
  using assms by (rule take_safe)

theorem fgoPtrsTake_safe_witness: "\<exists>m'. fgoPtrsTake 16 0 0 sliceMem = Some (m', [32] ! 0) \<and> rcSafe m' ({#16#} + live [[32] ! 0])"
  by (rule fgoPtrsTake_safe [OF sliceMem_safe sliceMem_slice])
    (simp_all add: sliceMem_dom sliceMem_refs, simp add: sliceMem_def)

end
