(* ===== verification/RcRun.thy ===== *)
theory RcRun
  imports RcSlices
begin

text \<open>
  The operations of \<^verbatim>\<open>src/src/runtime/forgo_rc.go\<close> together: programs compiled under
  \<^verbatim>\<open>//fgo:nogc\<close> as sequences of steps on the memory and the multiset of the references their
  frames hold. A step that adds a reference keeps their number below \<open>2 ^ 62\<close>, which the address
  space does.
\<close>

section \<open>New objects\<close>

fun zeroField :: "rcField \<Rightarrow> bool" where
  "zeroField (PtrF c) = (c = 0)"
| "zeroField (PtrsF cs) = (cs = [])"
| "zeroField (StrF s) = (s = [])"

definition newObj :: "uintptr \<Rightarrow> (nat \<times> rcField) list \<Rightarrow> bool \<Rightarrow> rcMem \<Rightarrow> rcMem" where
  "newObj p fs mixed m = putObj p \<lparr>rc = 1, rcMark = SCounted, rcFields = fs, rcMixed = mixed\<rparr> m"

text \<open>The allocator gives memory that nothing uses; the collector frees nothing an object it has
  been handed still points into.\<close>

definition freshObj :: "rcMem \<Rightarrow> uintptr \<Rightarrow> bool" where
  "freshObj m p \<longleftrightarrow> p \<noteq> 0 \<and> objs m p = None \<and> (\<forall>q x. objs m q = Some x \<longrightarrow> p \<notin> set (slots x))"

definition room :: "nat \<Rightarrow> rcMem \<Rightarrow> uintptr multiset \<Rightarrow> bool" where
  "room n m R \<longleftrightarrow> size (refsOf m (dom (objs m)) + R) + n < 2 ^ 62"

lemma newObj_safe:
  assumes safe: "rcSafe m R" and "freshObj m p" and "room 1 m R" and fs: "\<forall>f \<in> set fs. zeroField (snd f)" "distinct (map fst fs)"
  shows "rcSafe (newObj p fs mixed m) (add_mset p R)"
proof -
  define x where "x = \<lparr>rc = 1, rcMark = SCounted, rcFields = fs, rcMixed = mixed\<rparr>"
  define T where "T = refsOf m (dom (objs m)) + R"
  let ?m = "putObj p x m"
  have p: "p \<noteq> 0" "p \<notin> dom (objs m)" using assms(2) by (auto simp: freshObj_def)
  have ok: "finite (dom (objs m))" "0 \<notin> dom (objs m)" "set_mset T \<subseteq> dom (objs m)" "\<And>q y. objs m q = Some y \<Longrightarrow> exact T q y"
    using rcSafeD(1) [OF safe] by (simp_all add: rcOk_def T_def)
  have slots: "c = 0" if c: "c \<in> set (slots x)" for c
  proof -
    obtain f where "f \<in> set fs" "c \<in> set (fieldRefs (snd f))" using c by (auto simp: x_def slots_def)
    then show ?thesis using fs(1) by (cases "snd f") force+
  qed
  then have "filter (\<lambda>c. c \<noteq> 0) (slots x) = []" by (auto simp: filter_empty_conv)
  then have kids: "kids x = {#}" by (simp add: kids_def live_def flip: mset_filter)
  have dom: "dom (objs ?m) = insert p (dom (objs m))" by (auto simp: putObj_def)
  have "refsOf ?m (insert p (dom (objs m))) = kids x + refsOf ?m (dom (objs m))"
    using ok(1) p(2) by (simp add: refsOf_def) (simp add: putObj_def)
  also have "refsOf ?m (dom (objs m)) = refsOf m (dom (objs m))"
    using p(2) by (auto simp: refsOf_def putObj_def intro!: sum.cong)
  finally have T: "refsOf ?m (dom (objs ?m)) + add_mset p R = add_mset p T"
    by (simp add: dom kids T_def)
  have "count T p = 0" using ok(3) p(2) by (auto simp: count_eq_zero_iff)
  then have "exact (add_mset p T) p x" by (simp add: exact_def x_def)
  moreover have "exact (add_mset p T) q y" if "objs m q = Some y" for q y
    using ok(4) [OF that] that p(2) by (auto simp: exact_def)
  ultimately have "exact (add_mset p T) q y" if "objs ?m q = Some y" for q y
    using that by (cases "q = p") (simp_all add: putObj_def)
  moreover have "size (add_mset p T) < 2 ^ 62" using assms(3) by (simp add: room_def T_def)
  ultimately have "rcOk ?m (add_mset p R)"
    unfolding rcOk_def T unfolding dom using ok p by auto
  moreover have state: "fgoState ?m q = (if q = p then SCounted else fgoState m q)" for q
    by (simp add: fgoState_def putObj_def x_def)
  have "handedClosed ?m {}"
    unfolding handedClosed_def
  proof (intro allI impI)
    fix q y assume y: "objs ?m q = Some y" "rcMark y = SHanded"
    then have q: "objs m q = Some y" by (auto simp: putObj_def x_def split: if_splits)
    then have "settled m (set (slots y))" using rcSafeD(2) [OF safe] y(2) by (simp add: handedClosed_def)
    moreover have "p \<notin> set (slots y)" using assms(2) q by (simp add: freshObj_def)
    ultimately show "q \<in> {} \<or> settled ?m (set (slots y))" by (auto simp: settled_def state)
  qed
  moreover have "sharedClosed ?m {}"
    unfolding sharedClosed_def
  proof (intro allI impI ballI)
    fix q y c assume y: "objs ?m q = Some y" "rcMark y = SShared" "c \<in> set (slots y)" "fgoState ?m c = SCounted"
    then have q: "objs m q = Some y" by (auto simp: putObj_def x_def split: if_splits)
    then have "c \<noteq> p" using assms(2) y(3) by (auto simp: freshObj_def)
    then have "fgoState m c = SCounted" using y(4) state by simp
    then show "c \<in> {}" using rcSafeD(3) [OF safe] q y(2,3) by (auto simp: sharedClosed_def)
  qed
  moreover have "distinct (map fst (rcFields y))" if "objs ?m q = Some y" for q y
    using that fs(2) rcSafeD(4) [OF safe] by (auto simp: putObj_def x_def split: if_splits)
  ultimately show ?thesis by (simp add: rcSafe_def newObj_def x_def)
qed

text \<open>What the collector frees: objects it was handed, whose count is zero and which nothing it
  still keeps points to.\<close>

lemma sweep_safe:
  assumes safe: "rcSafe m R" and x: "objs m p = Some x" "rcMark x = SHanded" "rc x = fgoHeld"
  shows "rcSafe (freeObj p True m) R"
proof -
  define T where "T = refsOf m (dom (objs m)) + R"
  let ?m = "freeObj p True m"
  have ok: "finite (dom (objs m))" "0 \<notin> dom (objs m)" "size T < 2 ^ 62" "set_mset T \<subseteq> dom (objs m)"
    "\<And>q y. objs m q = Some y \<Longrightarrow> exact T q y"
    using rcSafeD(1) [OF safe] by (simp_all add: rcOk_def T_def)
  have "count T p \<le> size T" by (rule count_le_size)
  then have "count T p < 2 ^ 62" using ok(3) by linarith
  moreover have "of_nat (2 ^ 63 + count T p) = (of_nat (2 ^ 63 + 0) :: uintptr)"
    using ok(5) [OF x(1)] x(2,3) by (simp add: exact_def fgo_flags)
  ultimately have "2 ^ 63 + count T p = 2 ^ 63 + 0"
    using of_nat_inj [of "2 ^ 63 + count T p" "2 ^ 63 + 0"] by simp
  then have p: "p \<notin># T" by (simp add: not_in_iff)
  have "refsOf m (dom (objs m)) = kids x + refsOf m (dom (objs m) - {p})"
    using sum.remove [OF ok(1) domI [of "objs m" p x, OF x(1)], of "\<lambda>q. kids (the (objs m q))"] x by (simp add: refsOf_def)
  then have "refsOf ?m (dom (objs ?m)) + R = T"
    using freeObj_refs [OF ok(1), of p True "{}"] x(2) by (simp add: T_def kids_def freeObj_dom)
  then have "rcOk ?m R"
    unfolding rcOk_def using ok p by (auto simp: freeObj_dom) (auto simp: freeObj_def split: if_splits)
  moreover have "shrinks {} m ?m"
    using shrinks_free [of m p True ?m] x(1) by simp
  ultimately show ?thesis using shrinks_safe [OF _ safe] by blast
qed

section \<open>Runs\<close>

inductive rcStep :: "rcHeap \<Rightarrow> rcMem \<times> uintptr multiset \<Rightarrow> rcMem \<times> uintptr multiset \<Rightarrow> bool" for hp where
  new: "freshObj m p \<Longrightarrow> room 1 m R \<Longrightarrow> \<forall>f \<in> set fs. zeroField (snd f) \<Longrightarrow> distinct (map fst fs) \<Longrightarrow>
    rcStep hp (m, R) (newObj p fs mixed m, add_mset p R)"
| inc: "objs m p \<noteq> None \<Longrightarrow> room 1 m R \<Longrightarrow> rcStep hp (m, R) (fgoRCInc p m, add_mset p R)"
| dec: "fgoRCDec p m = Some m' \<Longrightarrow> rcStep hp (m, add_mset p R) (m', R)"
| decKeep: "objs m p = Some x \<Longrightarrow> rcMark x \<noteq> SHanded \<Longrightarrow> keepable x (keepOffs keep) \<Longrightarrow> room 65 m R \<Longrightarrow>
    fgoRCDecKeep p keep m = Some m' \<Longrightarrow> rcStep hp (m, add_mset p R) (m', R + live (kept x (keepOffs keep)))"
| dropReuse: "fgoRCDropReuse p m = Some (m', token) \<Longrightarrow> rcStep hp (m, add_mset p R) (m', R)"
| dropReuseKeep: "objs m p = Some x \<Longrightarrow> rcMark x \<noteq> SHanded \<Longrightarrow> keepable x (keepOffs keep) \<Longrightarrow> room 65 m R \<Longrightarrow>
    fgoRCDropReuseKeep p keep m = Some (m', token) \<Longrightarrow> rcStep hp (m, add_mset p R) (m', R + live (kept x (keepOffs keep)))"
| handoff: "fgoRCHandoff p m = Some m' \<Longrightarrow> rcStep hp (m, R) (m', R)"
| share: "fgoShare p m = Some m' \<Longrightarrow> rcStep hp (m, R) (m', R)"
| store: "\<forall>x. objs m base = Some x \<longrightarrow> fieldPtr x off \<noteq> None \<Longrightarrow> v = 0 \<or> objs m v \<noteq> None \<or> fgoGCPtr hp m v \<Longrightarrow>
    fgoRCStore hp base off v m = Some m' \<Longrightarrow> rcStep hp (m, R + handedOver m v) (m', R)"
| storeGC: "\<forall>x. objs m base = Some x \<longrightarrow> fieldPtr x off \<noteq> None \<Longrightarrow>
    fgoRCStoreGC base off v m = Some m' \<Longrightarrow> rcStep hp (m, R + handedOver m v) (m', R)"
| ptrsPut: "objs m base \<noteq> None \<longrightarrow> loadSlice base off m \<noteq> None \<Longrightarrow> fgoState m base \<noteq> SShared \<Longrightarrow> \<not> tainted ns \<Longrightarrow>
    fgoPtrsPut base off ns m = Some m' \<Longrightarrow> rcStep hp (m, R + live (elems ns)) (m', R)"
| ptrsTake: "loadSlice holder off m = Some cs \<Longrightarrow> i < length cs \<Longrightarrow> cs ! i = 0 \<or> objs m (cs ! i) \<noteq> None \<Longrightarrow> room 1 m R \<Longrightarrow>
    fgoPtrsTake holder off i m = Some (m', c) \<Longrightarrow> rcStep hp (m, R) (m', R + live [c])"
| sweep: "objs m p = Some x \<Longrightarrow> rcMark x = SHanded \<Longrightarrow> rc x = fgoHeld \<Longrightarrow> rcStep hp (m, R) (freeObj p True m, R)"

lemma tokenOk_shrinks: "tokenOk p token m m' \<Longrightarrow> \<exists>K. shrinks K m m'"
  by (auto simp: tokenOk_def)

lemma rcStep_safe:
  assumes "rcStep hp (m, R) (m', R')" and "rcSafe m R"
  shows "rcSafe m' R'"
  using assms
proof (cases rule: rcStep.cases)
  case (new p fs mixed)
  then show ?thesis using newObj_safe [OF assms(2)] by simp
next
  case (inc p)
  have "p \<noteq> 0" using inc(3) rcSafeD(1) [OF assms(2)] by (auto simp: rcOk_def)
  then have "rcOk m' (add_mset p R)" "sameShape m m'"
    using inc fgoRCInc_ok [OF rcSafeD(1) [OF assms(2)], of p] by (simp_all add: room_def live_Cons domIff)
  then show ?thesis
    using shrinks_safe [OF _ assms(2)] shrinks_shape [of m m' "{}" m'] inc by simp
next
  case (dec p)
  then show ?thesis
    using dec_exact [of m p R'] rcSafeD(1) [OF assms(2)] shrinks_safe [OF _ assms(2)] by fastforce
next
  case (decKeep p x keep R1)
  then show ?thesis
    using decKeep_exact [of m p R1 x keep] rcSafeD(1) [OF assms(2)] shrinks_safe [OF _ assms(2)]
    by (fastforce simp: room_def)
next
  case (dropReuse p token)
  then show ?thesis
    using dropReuse_exact [of m p R'] rcSafeD(1) [OF assms(2)] shrinks_safe [OF _ assms(2)] tokenOk_shrinks by fastforce
next
  case (dropReuseKeep p x keep R1 token)
  then show ?thesis
    using dropReuseKeep_exact [of m p R1 x keep] rcSafeD(1) [OF assms(2)] shrinks_safe [OF _ assms(2)] tokenOk_shrinks
    by (fastforce simp: room_def)
next
  case (handoff p)
  then show ?thesis using handoff_safe [OF assms(2), of p] by simp
next
  case (share p)
  then show ?thesis using share_safe [OF assms(2), of p] by simp
next
  case (store base off v)
  then show ?thesis using store_safe [of m R' v base off hp] assms(2) by simp
next
  case (storeGC base off v)
  then show ?thesis using fgoRCStoreGC_safe [of m R' v base off] assms(2) by simp
next
  case (ptrsPut base off ns)
  then show ?thesis using put_safe [of m R' ns base off] assms(2) by simp
next
  case (ptrsTake holder off cs i c)
  then show ?thesis using take_safe [OF assms(2), of holder off cs i] by (auto simp: room_def)
next
  case (sweep p x)
  then show ?thesis using sweep_safe [OF assms(2)] by simp
qed

definition emptyMem :: rcMem where
  "emptyMem = \<lparr>objs = Map.empty, freedMem = []\<rparr>"

lemma emptyMem_safe: "rcSafe emptyMem {#}"
  by (simp add: rcSafe_def rcOk_def emptyMem_def refsOf_def handedClosed_def sharedClosed_def)

lemma runs_rcSafe:
  assumes "(rcStep hp)\<^sup>*\<^sup>* (emptyMem, {#}) (m, R)"
  shows "rcSafe m R"
  using assms
proof (induction rule: rtranclp_induct2)
  case refl
  show ?case by (rule emptyMem_safe)
next
  case (step m1 R1 m2 R2)
  then show ?case using rcStep_safe by blast
qed

lemma rcOk_kids:
  assumes "rcOk m R" and "objs m q = Some x"
  shows "set_mset (kids x) \<subseteq> dom (objs m)"
proof -
  have "finite (dom (objs m))" "set_mset (refsOf m (dom (objs m))) \<subseteq> dom (objs m)"
    using assms(1) by (simp_all add: rcOk_def)
  with kids_refsOf [of m q x] assms(2) show ?thesis by (meson subset_trans)
qed


text \<open>
  No operation reads the header of memory that holds no object, whatever the run before it.
\<close>

theorem runs_never_stuck:
  assumes "(rcStep hp)\<^sup>*\<^sup>* (emptyMem, {#}) (m, R)"
  shows "fgoRCHandoff q m \<noteq> None \<and> fgoShare q m \<noteq> None \<and> (p \<in># R \<longrightarrow> fgoRCDec p m \<noteq> None \<and> fgoRCDropReuse p m \<noteq> None)"
proof -
  have safe: "rcSafe m R" by (rule runs_rcSafe [OF assms])
  have "fgoRCDec p m \<noteq> None \<and> fgoRCDropReuse p m \<noteq> None" if p: "p \<in># R"
  proof -
    obtain R1 where "R = add_mset p R1" using multi_member_split [OF p] by blast
    then have "rcOk m (add_mset p R1)" using rcSafeD(1) [OF safe] by simp
    from dec_exact [OF this] dropReuse_exact [OF this] show ?thesis by auto
  qed
  then show ?thesis using handoff_safe [OF safe, of q] share_safe [OF safe, of q] by auto
qed


section \<open>An example run\<close>

definition oneMem :: rcMem where
  "oneMem = newObj 16 [(0, PtrF 0)] False emptyMem"

lemma oneMem_run: "(rcStep hp)\<^sup>*\<^sup>* (emptyMem, {#}) (oneMem, {#16#})"
proof -
  have "rcStep hp (emptyMem, {#}) (newObj 16 [(0, PtrF 0)] False emptyMem, {#16#})"
    by (rule rcStep.new) (simp_all add: freshObj_def emptyMem_def room_def refsOf_def)
  then show ?thesis by (simp add: oneMem_def r_into_rtranclp)
qed




theorem runs_never_stuck_witness:
  "fgoRCHandoff 16 oneMem \<noteq> None \<and> fgoShare 16 oneMem \<noteq> None \<and>
    ((16 :: uintptr) \<in># {#16#} \<longrightarrow> fgoRCDec 16 oneMem \<noteq> None \<and> fgoRCDropReuse 16 oneMem \<noteq> None)"
  by (rule runs_never_stuck [OF oneMem_run])

definition doneMem :: rcMem where
  "doneMem = \<lparr>objs = Map.empty, freedMem = [16]\<rparr>"

lemma doneMem_run: "(rcStep hp)\<^sup>*\<^sup>* (emptyMem, {#}) (doneMem, {#})"
proof -
  have "fgoRCDec 16 oneMem = Some doneMem"
    by (simp add: oneMem_def newObj_def emptyMem_def doneMem_def fgoRCDec_def fgoState_def putObj_def addRC_def hdrRC_def
        fgoRCRelease_def Let_def releaseLoop.simps fgoDecChild_def freeObj_def)
  then have "rcStep hp (oneMem, {#16#}) (doneMem, {#})" by (rule rcStep.dec)
  with oneMem_run show ?thesis by (rule rtranclp.rtrancl_into_rtrancl)
qed


end
