(* ===== verification/RcState.thy ===== *)
theory RcState
  imports RcStore
begin

unbundle bit_operations_syntax

text \<open>
  \<^verbatim>\<open>src/src/runtime/forgo_rc.go\<close>: how the state of an object is found from a pointer. One byte per
  16 bytes of the arena marks the starts of the objects that were handed off or shared, and a
  counter per chunk tells whether it has any mark. \<open>RcCount\<close> keeps the state with the object; the
  theorems here show that the bytes and counters stand for that.
\<close>

section \<open>The arena\<close>

abbreviation fgoNone :: "8 word" where "fgoNone \<equiv> 0"
abbreviation fgoCounted :: "8 word" where "fgoCounted \<equiv> 1"
abbreviation fgoHanded :: "8 word" where "fgoHanded \<equiv> 2"
abbreviation fgoMaybe :: "8 word" where "fgoMaybe \<equiv> 3"
abbreviation fgoBufData :: "8 word" where "fgoBufData \<equiv> 4"
abbreviation fgoBufPtrs :: "8 word" where "fgoBufPtrs \<equiv> 5"
abbreviation fgoShared :: "8 word" where "fgoShared \<equiv> 6"
abbreviation rcAlign :: nat where "rcAlign \<equiv> 16"
abbreviation rcChunk :: nat where "rcChunk \<equiv> 65536"
abbreviation rcArenaSize :: nat where "rcArenaSize \<equiv> 64 * 2 ^ 30"

text \<open>\<open>typSize\<close> is the size of the type in the header of an object, \<open>bufSize\<close> the header word of a
  buffer.\<close>

record fgoArena =
  aLo :: uintptr
  aSize :: uintptr
  chunks :: "nat \<Rightarrow> 32 word"
  state :: "nat \<Rightarrow> 8 word"
  typSize :: "uintptr \<Rightarrow> uintptr option"
  bufSize :: "uintptr \<Rightarrow> uintptr"

definition off :: "fgoArena \<Rightarrow> uintptr \<Rightarrow> nat" where
  "off a p = unat (p - aLo a)"

definition fgoQuick :: "fgoArena \<Rightarrow> uintptr \<Rightarrow> 8 word" where
  "fgoQuick a p =
     (if off a p \<ge> rcArenaSize then fgoNone
      else if chunks a (off a p div rcChunk) \<noteq> 0 then fgoMaybe
      else fgoCounted)"

text \<open>The address the \<open>i\<close>th byte of \<open>state\<close> is for.\<close>

definition startAt :: "fgoArena \<Rightarrow> nat \<Rightarrow> uintptr" where
  "startAt a i = aLo a + of_nat (i * rcAlign)"

definition fgoHandedSize :: "fgoArena \<Rightarrow> uintptr \<Rightarrow> 8 word \<Rightarrow> uintptr" where
  "fgoHandedSize a obj k =
     (if k = fgoHanded then (case typSize a obj of Some n \<Rightarrow> n | None \<Rightarrow> 0) else bufSize a obj - 16)"

text \<open>The loop of \<open>fgoHandedObj\<close>, for \<open>i + 1\<close> from \<open>n\<close> down.\<close>

fun handedFrom :: "fgoArena \<Rightarrow> uintptr \<Rightarrow> nat \<Rightarrow> nat \<Rightarrow> uintptr" where
  "handedFrom a p first 0 = 0"
| "handedFrom a p first (Suc i) =
     (if Suc i \<le> first then 0
      else let k = state a i in
        if k = fgoNone \<or> k = fgoCounted \<or> k = fgoShared then handedFrom a p first i
        else let obj = startAt a i in
          if p < obj + fgoHandedSize a obj k \<or> p = obj then obj else 0)"

definition fgoHandedObj :: "fgoArena \<Rightarrow> uintptr \<Rightarrow> uintptr" where
  "fgoHandedObj a p =
     (let d = off a p in
      if d \<ge> unat (aSize a) then 0
      else if chunks a (d div rcChunk) = 0 then 0
      else handedFrom a p (d div rcChunk * (rcChunk div rcAlign)) (Suc (d div rcAlign)))"

definition fgoStateSlow :: "fgoArena \<Rightarrow> uintptr \<Rightarrow> 8 word" where
  "fgoStateSlow a p =
     (let k = state a (off a p div rcAlign) in
      if k = fgoHanded then fgoHanded
      else if k = fgoShared then fgoShared
      else if fgoHandedObj a p \<noteq> 0 then fgoNone
      else fgoCounted)"

definition fgoStateAt :: "fgoArena \<Rightarrow> uintptr \<Rightarrow> 8 word" where
  "fgoStateAt a p = (let s = fgoQuick a p in if s \<noteq> fgoMaybe then s else fgoStateSlow a p)"

definition fgoMarkHanded :: "uintptr \<Rightarrow> 8 word \<Rightarrow> fgoArena \<Rightarrow> fgoArena" where
  "fgoMarkHanded p s a =
     (let d = off a p; c = d div rcChunk;
          a = (if s \<noteq> fgoNone then a\<lparr>chunks := (chunks a)(c := chunks a c + 1)\<rparr> else a);
          a = a\<lparr>state := (state a)(d div rcAlign := s)\<rparr>
      in if s = fgoNone then a\<lparr>chunks := (chunks a)(c := chunks a c - 1)\<rparr> else a)"

definition fgoKindOf :: "fgoArena \<Rightarrow> uintptr \<Rightarrow> 8 word" where
  "fgoKindOf a p = state a (off a p div rcAlign)"

section \<open>What the bytes stand for\<close>

text \<open>\<open>ext\<close> gives the sizes of the objects and buffers in use by their addresses, \<open>mk\<close> their marks.
  \<open>fits\<close> says where they may lie: aligned, in one chunk each, apart from each other.\<close>

definition fits :: "fgoArena \<Rightarrow> (uintptr \<Rightarrow> nat option) \<Rightarrow> bool" where
  "fits a ext \<longleftrightarrow> unat (aLo a) \<noteq> 0 \<and> unat (aLo a) + rcArenaSize < 2 ^ 64 \<and> unat (aSize a) \<le> rcArenaSize \<and>
     (\<forall>p n. ext p = Some n \<longrightarrow> rcAlign dvd off a p \<and> off a p mod rcChunk + n \<le> rcChunk \<and> off a p + n \<le> unat (aSize a) \<and>
        off a p < unat (aSize a)) \<and>
     (\<forall>p q n n'. ext p = Some n \<longrightarrow> ext q = Some n' \<longrightarrow> p \<noteq> q \<longrightarrow> off a p + n \<le> off a q \<or> off a q + n' \<le> off a p)"

definition marked :: "fgoArena \<Rightarrow> (uintptr \<Rightarrow> 8 word) \<Rightarrow> nat \<Rightarrow> uintptr set" where
  "marked a mk c = {p. mk p \<noteq> fgoNone \<and> off a p div rcChunk = c}"

definition marksOk :: "fgoArena \<Rightarrow> (uintptr \<Rightarrow> nat option) \<Rightarrow> (uintptr \<Rightarrow> 8 word) \<Rightarrow> bool" where
  "marksOk a ext mk \<longleftrightarrow>
     (\<forall>p. mk p \<noteq> fgoNone \<longrightarrow> mk p \<in> {fgoHanded, fgoBufData, fgoBufPtrs, fgoShared} \<and>
        (\<exists>n. ext p = Some n \<and> (mk p \<noteq> fgoShared \<longrightarrow> fgoHandedSize a p (mk p) = of_nat n))) \<and>
     (\<forall>i < rcArenaSize div rcAlign. state a i = mk (startAt a i)) \<and>
     (\<forall>c. chunks a c = of_nat (card (marked a mk c)))"

definition handed :: "(uintptr \<Rightarrow> 8 word) \<Rightarrow> uintptr \<Rightarrow> bool" where
  "handed mk q \<longleftrightarrow> mk q = fgoHanded \<or> mk q = fgoBufData \<or> mk q = fgoBufPtrs"

lemma off_inject: "off a p = off a q \<longleftrightarrow> p = q"
  by (simp add: off_def word_unat_eq_iff [symmetric])

lemma at_off: "aLo a + of_nat (off a p) = p"
  by (simp add: off_def)

lemma unat_of_small: "i < 2 ^ 64 \<Longrightarrow> unat (of_nat i :: uintptr) = i"
  by (simp add: unsigned_of_nat take_bit_nat_eq_self)

lemma off_at: "i < rcArenaSize \<Longrightarrow> off a (aLo a + of_nat i) = i"
  by (simp add: off_def unat_of_small)

lemma off_startAt: "i * rcAlign < rcArenaSize \<Longrightarrow> off a (startAt a i) = i * rcAlign"
  unfolding startAt_def by (rule off_at)

lemma startAt_off: "rcAlign dvd off a p \<Longrightarrow> startAt a (off a p div rcAlign) = p"
  unfolding startAt_def by (simp only: dvd_div_mult_self at_off)

lemma unat_at:
  assumes "fits a ext" and "off a p < rcArenaSize"
  shows "unat p = unat (aLo a) + off a p"
proof -
  have "unat (aLo a) + off a p < 2 ^ 64" using assms by (simp add: fits_def)
  then have "unat (aLo a + (p - aLo a)) = unat (aLo a) + unat (p - aLo a)"
    unfolding off_def by (subst unat_add_lem [THEN iffD1]) simp_all
  then show ?thesis by (simp add: off_def)
qed

lemma fitsD:
  assumes "fits a ext" and "ext p = Some n"
  shows "rcAlign dvd off a p" "off a p mod rcChunk + n \<le> rcChunk" "off a p + n \<le> unat (aSize a)" "off a p < unat (aSize a)"
    "off a p < rcArenaSize" "p \<noteq> 0"
proof -
  show "rcAlign dvd off a p" "off a p mod rcChunk + n \<le> rcChunk" "off a p + n \<le> unat (aSize a)" "off a p < unat (aSize a)"
    using assms by (simp_all add: fits_def)
  then show lt: "off a p < rcArenaSize" using assms(1) by (simp add: fits_def)
  show "p \<noteq> 0" using unat_at [OF assms(1) lt] assms(1) by (auto simp: fits_def)
qed

lemma fits_apart:
  "fits a ext \<Longrightarrow> ext p = Some n \<Longrightarrow> ext q = Some n' \<Longrightarrow> p \<noteq> q \<Longrightarrow> off a p + n \<le> off a q \<or> off a q + n' \<le> off a p"
  by (simp add: fits_def)

lemma card_window:
  assumes inj: "inj_on f S" and range: "\<And>x. x \<in> S \<Longrightarrow> c * k \<le> f x \<and> f x < c * k + (k :: nat)"
  shows "finite S" and "card S \<le> k"
proof -
  have sub: "f ` S \<subseteq> {c * k ..< c * k + k}" using range by auto
  then show "finite S" using finite_imageD [OF _ inj] finite_subset by blast
  from sub have "card (f ` S) \<le> k" using card_mono [OF _ sub] by simp
  then show "card S \<le> k" by (simp add: card_image [OF inj])
qed

lemma div_window: "0 < k \<Longrightarrow> m div k * k \<le> m \<and> m < m div k * k + (k :: nat)"
  by (metis div_mult_mod_eq le_add1 mod_less_divisor nat_add_left_cancel_less)

lemma marked_card:
  shows "finite (marked a mk c)" and "card (marked a mk c) \<le> rcChunk"
proof -
  have inj: "inj_on (off a) (marked a mk c)" by (simp add: inj_on_def off_inject)
  have "c * rcChunk \<le> off a p \<and> off a p < c * rcChunk + rcChunk" if "p \<in> marked a mk c" for p
    using that div_window [of rcChunk "off a p"] by (auto simp: marked_def)
  then show "finite (marked a mk c)" "card (marked a mk c) \<le> rcChunk"
    using card_window [OF inj, of c rcChunk] by blast+
qed

lemma of_nat_zero: "n < 2 ^ 32 \<Longrightarrow> (of_nat n :: 32 word) = 0 \<longleftrightarrow> n = 0"
  by (auto simp: word_of_nat_eq_0_iff dest: nat_dvd_not_less [rotated])

lemma chunks_zero:
  assumes "marksOk a ext mk"
  shows "chunks a c = 0 \<longleftrightarrow> marked a mk c = {}"
proof -
  have "chunks a c = of_nat (card (marked a mk c))" using assms by (simp add: marksOk_def)
  moreover have "card (marked a mk c) < 2 ^ 32"
    by (rule le_less_trans [OF marked_card(2)]) simp
  ultimately show ?thesis using of_nat_zero marked_card(1) by (simp only: card_0_eq)
qed

lemma state_at:
  assumes "marksOk a ext mk" and "i < rcArenaSize div rcAlign"
  shows "state a i = mk (startAt a i)"
  using assms by (simp add: marksOk_def)

lemma state_start:
  assumes "fits a ext" and "marksOk a ext mk" and "ext p = Some n"
  shows "state a (off a p div rcAlign) = mk p"
proof -
  have "off a p div rcAlign < rcArenaSize div rcAlign"
    using fitsD(1,5) [OF assms(1,3)] by auto
  then show ?thesis
    using state_at [OF assms(2), of "off a p div rcAlign"] fitsD(1) [OF assms(1,3)] by (simp only: startAt_off)
qed

text \<open>Where a pointer points into.\<close>

definition holds :: "fgoArena \<Rightarrow> (uintptr \<Rightarrow> nat option) \<Rightarrow> uintptr \<Rightarrow> uintptr \<Rightarrow> bool" where
  "holds a ext q p \<longleftrightarrow> (\<exists>n. ext q = Some n \<and> off a q \<le> off a p \<and> (off a p < off a q + n \<or> p = q))"

lemma holds_unique:
  assumes "fits a ext" and "holds a ext q p" and "ext r = Some n" and "off a q < off a r" and "off a r \<le> off a p"
  shows False
proof -
  obtain k where k: "ext q = Some k" "off a p < off a q + k \<or> p = q" using assms(2) by (auto simp: holds_def)
  moreover have "q \<noteq> r" using assms(4) by auto
  ultimately show False using fits_apart [OF assms(1) k(1) assms(3)] assms(4,5) by auto
qed

lemma below_end:
  assumes "fits a ext" and "ext q = Some n" and "off a p < rcArenaSize"
  shows "p < q + of_nat n \<longleftrightarrow> off a p < off a q + n"
proof -
  have le: "off a q + n \<le> rcArenaSize" using fitsD(3) [OF assms(1,2)] assms(1) by (simp add: fits_def)
  then have "unat (of_nat n :: uintptr) = n" by (simp add: unat_of_small)
  moreover have "unat q = unat (aLo a) + off a q" by (rule unat_at [OF assms(1) fitsD(5) [OF assms(1,2)]])
  moreover have "unat (aLo a) + rcArenaSize < 2 ^ 64" using assms(1) by (simp add: fits_def)
  ultimately have "unat (q + of_nat n) = unat (aLo a) + off a q + n"
    using le by (subst unat_add_lem [THEN iffD1]) simp_all
  then show ?thesis using unat_at [OF assms(1,3)] by (simp add: word_less_nat_alt)
qed

lemma handedFrom_finds:
  assumes fits: "fits a ext" and marks: "marksOk a ext mk" and q: "handed mk q" "holds a ext q p" and p: "off a p < rcArenaSize"
    and n: "off a q div rcAlign < n" "n \<le> Suc (off a p div rcAlign)" and first: "first \<le> off a q div rcAlign"
  shows "handedFrom a p first n = q"
  using n
proof (induction n)
  case 0
  then show ?case by simp
next
  case (Suc i)
  obtain k where k: "ext q = Some k" "off a p < off a q + k \<or> p = q" "off a q \<le> off a p" using q(2) by (auto simp: holds_def)
  have i: "i * rcAlign \<le> off a p" "i < rcArenaSize div rcAlign" using Suc.prems(2) p by auto
  show ?case
  proof (cases "i = off a q div rcAlign")
    case True
    have obj: "startAt a i = q"
      using fitsD(1) [OF fits k(1)] by (simp only: True startAt_off)
    have "mk q \<noteq> fgoNone" "mk q \<noteq> fgoShared" using q(1) by (auto simp: handed_def)
    then have "fgoHandedSize a q (mk q) = of_nat k"
      using marks k(1) by (auto simp: marksOk_def)
    then show ?thesis
      using q(1) first below_end [OF fits k(1) p] k(2) obj state_start [OF fits marks k(1)]
      by (auto simp: True handed_def Let_def)
  next
    case False
    let ?r = "startAt a i"
    have lt: "off a q div rcAlign < i" using Suc.prems(1) False by simp
    have "i * rcAlign < rcArenaSize" using i p by linarith
    then have r: "off a ?r = i * rcAlign" by (rule off_startAt)
    have "\<not> handed mk ?r"
    proof
      assume "handed mk ?r"
      then have "mk ?r \<noteq> fgoNone" by (auto simp: handed_def)
      then obtain m where m: "ext ?r = Some m" using marks by (auto simp: marksOk_def)
      have "off a q < off a ?r" unfolding r using lt by (simp add: div_less_iff_less_mult)
      with holds_unique [OF fits q(2) m] i(1) show False by (simp add: r)
    qed
    moreover have "mk ?r = fgoNone \<or> mk ?r \<in> {fgoHanded, fgoBufData, fgoBufPtrs, fgoShared}"
      using marks by (auto simp: marksOk_def)
    ultimately have "state a i = fgoNone \<or> state a i = fgoCounted \<or> state a i = fgoShared"
      using state_at [OF marks i(2)] by (auto simp: handed_def)
    then show ?thesis
      using Suc.IH [OF lt] Suc.prems(2) lt first by (auto simp: Let_def)
  qed
qed

lemma handedFrom_none:
  assumes fits: "fits a ext" and marks: "marksOk a ext mk" and none: "\<And>q. handed mk q \<Longrightarrow> \<not> holds a ext q p" and p: "off a p < rcArenaSize"
    and "n \<le> Suc (off a p div rcAlign)"
  shows "handedFrom a p first n = 0"
  using assms(5)
proof (induction n)
  case 0
  then show ?case by simp
next
  case (Suc i)
  let ?r = "startAt a i"
  have i: "i * rcAlign \<le> off a p" "i < rcArenaSize div rcAlign" using Suc.prems p by auto
  then have "i * rcAlign < rcArenaSize" using p by linarith
  then have r: "off a ?r = i * rcAlign" by (rule off_startAt)
  have st: "state a i = mk ?r" by (rule state_at [OF marks i(2)])
  have "\<not> (p < ?r + fgoHandedSize a ?r (state a i) \<or> p = ?r)" if h: "handed mk ?r"
  proof -
    have "mk ?r \<noteq> fgoNone" "mk ?r \<noteq> fgoShared" using h by (auto simp: handed_def)
    then obtain m where m: "ext ?r = Some m" "fgoHandedSize a ?r (mk ?r) = of_nat m" using marks by (auto simp: marksOk_def)
    have "\<not> holds a ext ?r p" by (rule none [OF h])
    then show ?thesis
      using below_end [OF fits m(1) p] m i(1) by (auto simp: holds_def r st)
  qed
  moreover have "mk ?r = fgoNone \<or> mk ?r \<in> {fgoHanded, fgoBufData, fgoBufPtrs, fgoShared}"
    using marks by (auto simp: marksOk_def)
  ultimately show ?case
    using Suc.IH Suc.prems st by (auto simp: Let_def handed_def)
qed

lemma fgoHandedObj_exact:
  assumes fits: "fits a ext" and marks: "marksOk a ext mk"
  shows "handed mk q \<Longrightarrow> holds a ext q p \<Longrightarrow> fgoHandedObj a p = q"
    and "(\<And>q. handed mk q \<Longrightarrow> \<not> holds a ext q p) \<Longrightarrow> fgoHandedObj a p = 0"
proof -
  assume q: "handed mk q" "holds a ext q p"
  obtain n where n: "ext q = Some n" "off a q \<le> off a p" "off a p < off a q + n \<or> p = q" using q(2) by (auto simp: holds_def)
  note f = fitsD [OF fits n(1)]
  have "off a p < unat (aSize a)" using n f(3,4) by auto
  moreover have arena: "off a p < rcArenaSize" using calculation fits by (simp add: fits_def)
  moreover have same: "off a p div rcChunk = off a q div rcChunk"
  proof -
    have "off a q div rcChunk * rcChunk \<le> off a p" using n(2) by (meson div_times_less_eq_dividend le_trans)
    moreover have "off a p < (off a q div rcChunk + 1) * rcChunk"
    proof (cases "p = q")
      case False
      then have "off a p < off a q + n" using n(3) by simp
      also have "\<dots> = off a q div rcChunk * rcChunk + (off a q mod rcChunk + n)" by (simp only: div_mult_mod_eq flip: add.assoc)
      finally have "off a p < off a q div rcChunk * rcChunk + rcChunk" using f(2) by (meson add_left_mono less_le_trans)
      then show ?thesis by simp
    qed (use div_window [of rcChunk "off a q"] in simp)
    ultimately show ?thesis by (intro div_nat_eqI) (simp_all add: algebra_simps)
  qed
  moreover have "q \<in> marked a mk (off a p div rcChunk)" using q(1) same by (auto simp: marked_def handed_def)
  then have "chunks a (off a p div rcChunk) \<noteq> 0" using chunks_zero [OF marks] by auto
  moreover have "off a p div rcChunk * 4096 \<le> off a q div rcAlign"
    unfolding same using div_times_less_eq_dividend [of "off a q" rcChunk] by linarith
  moreover have "off a q div rcAlign < Suc (off a p div rcAlign)" using n(2) by (simp add: div_le_mono less_Suc_eq_le)
  ultimately show "fgoHandedObj a p = q"
    using handedFrom_finds [OF fits marks q arena, of "Suc (off a p div rcAlign)" "off a p div rcChunk * 4096"]
    by (simp add: fgoHandedObj_def Let_def)
next
  assume "\<And>q. handed mk q \<Longrightarrow> \<not> holds a ext q p"
  then show "fgoHandedObj a p = 0"
    using handedFrom_none [OF fits marks, of p "Suc (off a p div rcAlign)"] fits
    by (auto simp: fgoHandedObj_def Let_def fits_def)
qed

section \<open>The state of a pointer\<close>

lemma holds_start: "ext p = Some n \<Longrightarrow> holds a ext p p"
  by (simp add: holds_def)

lemma holds_other:
  assumes "fits a ext" and "ext p = Some n" and "holds a ext q p"
  shows "q = p"
proof (rule ccontr)
  assume "q \<noteq> p"
  obtain k where "ext q = Some k" "off a q \<le> off a p" "off a p < off a q + k" using assms(3) \<open>q \<noteq> p\<close> by (auto simp: holds_def)
  with fits_apart [OF assms(1) _ assms(2) \<open>q \<noteq> p\<close>] have "off a p = off a q" by fastforce
  then show False using \<open>q \<noteq> p\<close> by (simp add: off_inject)
qed

lemma arena_of_start: "fits a ext \<Longrightarrow> ext p = Some n \<Longrightarrow> fgoQuick a p \<noteq> fgoNone"
  using fitsD(5) [of a ext p n] by (simp add: fgoQuick_def)

lemma fgoStateAt_start:
  assumes fits: "fits a ext" and marks: "marksOk a ext mk" and p: "ext p = Some n"
  shows "fgoStateAt a p = (if mk p = fgoNone then fgoCounted else if mk p = fgoHanded \<or> mk p = fgoShared then mk p else fgoNone)"
proof -
  have st: "state a (off a p div rcAlign) = mk p" by (rule state_start [OF fits marks p])
  have lt: "off a p < rcArenaSize" by (rule fitsD(5) [OF fits p])
  show ?thesis
  proof (cases "mk p = fgoNone")
    case True
    have "\<not> holds a ext q p" if "handed mk q" for q
      using holds_other [OF fits p, of q] that True by (auto simp: handed_def)
    then have "fgoHandedObj a p = 0" by (rule fgoHandedObj_exact(2) [OF fits marks])
    then show ?thesis using lt st True by (simp add: fgoStateAt_def fgoQuick_def fgoStateSlow_def)
  next
    case False
    then have "p \<in> marked a mk (off a p div rcChunk)" by (simp add: marked_def)
    then have "fgoQuick a p = fgoMaybe" using chunks_zero [OF marks] lt by (auto simp: fgoQuick_def)
    moreover have "fgoHandedObj a p = p" if "handed mk p"
      by (rule fgoHandedObj_exact(1) [OF fits marks that holds_start [of ext p n a, OF p]])
    moreover have "mk p \<in> {fgoHanded, fgoBufData, fgoBufPtrs, fgoShared}" using marks False by (simp add: marksOk_def)
    ultimately show ?thesis using st False fitsD(6) [OF fits p] by (auto simp: fgoStateAt_def fgoStateSlow_def handed_def)
  qed
qed

text \<open>Between \<open>q\<close> and the end of its object no other object starts.\<close>

lemma state_inside:
  assumes fits: "fits a ext" and marks: "marksOk a ext mk" and q: "holds a ext q p" and "off a q div rcAlign < off a p div rcAlign"
  shows "state a (off a p div rcAlign) = fgoNone"
proof -
  let ?r = "startAt a (off a p div rcAlign)"
  obtain n where n: "ext q = Some n" "off a p < off a q + n \<or> p = q" using q by (auto simp: holds_def)
  have "unat (aSize a) \<le> rcArenaSize" using fits by (simp add: fits_def)
  then have p: "off a p < rcArenaSize" using n(2) fitsD(3,5) [OF fits n(1)] by auto
  then have i: "off a p div rcAlign < rcArenaSize div rcAlign" by auto
  have le: "off a p div rcAlign * rcAlign \<le> off a p" by simp
  then have r: "off a ?r = off a p div rcAlign * rcAlign" using p by (intro off_startAt) simp
  have "mk ?r = fgoNone"
  proof (rule ccontr)
    assume "mk ?r \<noteq> fgoNone"
    then obtain m where "ext ?r = Some m" using marks by (auto simp: marksOk_def)
    moreover have "off a q < off a ?r" unfolding r using assms(4) by (simp add: div_less_iff_less_mult)
    moreover have "off a ?r \<le> off a p" unfolding r by (rule le)
    ultimately show False by (rule holds_unique [OF fits q])
  qed
  then show ?thesis using state_at [OF marks i] by simp
qed

lemma fgoStateAt_inside:
  assumes fits: "fits a ext" and marks: "marksOk a ext mk" and q: "handed mk q" "holds a ext q p"
  shows "off a p \<ge> off a q + rcAlign \<Longrightarrow> fgoStateAt a p = fgoNone"
    and "off a p < off a q + rcAlign \<Longrightarrow> mk q = fgoHanded \<Longrightarrow> fgoStateAt a p = fgoHanded"
proof -
  obtain n where n: "ext q = Some n" "off a q \<le> off a p" "off a p < off a q + n \<or> p = q" using q by (auto simp: holds_def)
  have obj: "fgoHandedObj a p = q" by (rule fgoHandedObj_exact(1) [OF fits marks q])
  have q0: "q \<noteq> 0" by (rule fitsD(6) [OF fits n(1)])
  have "fgoHandedObj a p \<noteq> 0" using obj q0 by simp
  then have "chunks a (off a p div rcChunk) \<noteq> 0" "off a p < unat (aSize a)"
    by (auto simp: fgoHandedObj_def Let_def split: if_splits)
  then have quick: "fgoQuick a p = fgoMaybe" using fits by (simp add: fgoQuick_def fits_def)
  show "fgoStateAt a p = fgoNone" if "off a p \<ge> off a q + rcAlign"
  proof -
    have "off a q div rcAlign < off a p div rcAlign"
      using div_le_mono [OF that, of rcAlign] by simp
    then have "state a (off a p div rcAlign) = fgoNone" by (rule state_inside [OF fits marks q(2)])
    then show ?thesis using quick obj q0 by (simp add: fgoStateAt_def fgoStateSlow_def)
  qed
  show "fgoStateAt a p = fgoHanded" if "off a p < off a q + rcAlign" "mk q = fgoHanded"
  proof -
    obtain k where k: "off a q = rcAlign * k" using fitsD(1) [OF fits n(1)] by blast
    have "off a p div rcAlign = k" using that(1) n(2) unfolding k by (intro div_nat_eqI) (simp_all add: algebra_simps)
    then have "off a p div rcAlign = off a q div rcAlign" by (simp add: k)
    then have "state a (off a p div rcAlign) = fgoHanded" using state_start [OF fits marks n(1)] that(2) by simp
    then show ?thesis using quick by (simp add: fgoStateAt_def fgoStateSlow_def)
  qed
qed

section \<open>Marking\<close>

lemma startAt_inject: "i * rcAlign < rcArenaSize \<Longrightarrow> off a p = i * rcAlign \<longleftrightarrow> startAt a i = p"
  using off_startAt [of i a] off_inject [of a p "startAt a i"] by auto

lemma marked_upd:
  assumes "mk p = fgoNone" and "s \<noteq> fgoNone"
  shows "marked a (mk(p := s)) c = (if off a p div rcChunk = c then insert p (marked a mk c) else marked a mk c)"
    and "p \<notin> marked a mk c"
  using assms by (auto simp: marked_def)

lemma marked_same: "mk p \<noteq> fgoNone \<Longrightarrow> s \<noteq> fgoNone \<Longrightarrow> marked a (mk(p := s)) c = marked a mk c"
  by (auto simp: marked_def)

lemma marked_arena [simp]:
  "marked (a\<lparr>state := f\<rparr>) mk c = marked a mk c" "marked (a\<lparr>chunks := g\<rparr>) mk c = marked a mk c"
  by (simp_all add: marked_def off_def)

lemma off_arena [simp]: "off (a\<lparr>state := f\<rparr>) p = off a p" "off (a\<lparr>chunks := g\<rparr>) p = off a p"
  "startAt (a\<lparr>state := f\<rparr>) i = startAt a i" "startAt (a\<lparr>chunks := g\<rparr>) i = startAt a i"
  "fgoHandedSize (a\<lparr>state := f\<rparr>) p k = fgoHandedSize a p k" "fgoHandedSize (a\<lparr>chunks := g\<rparr>) p k = fgoHandedSize a p k"
  by (simp_all add: off_def startAt_def fgoHandedSize_def)

lemma fits_arena [simp]: "fits (a\<lparr>state := f\<rparr>) ext = fits a ext" "fits (a\<lparr>chunks := g\<rparr>) ext = fits a ext"
  by (simp_all add: fits_def)

lemma state_upd:
  assumes fits: "fits a ext" and marks: "marksOk a ext mk" and p: "ext p = Some n" and i: "i < rcArenaSize div rcAlign"
  shows "((state a)(off a p div rcAlign := s)) i = (mk(p := s)) (startAt a i)"
proof (cases "i = off a p div rcAlign")
  case True
  then show ?thesis using startAt_off [OF fitsD(1) [OF fits p]] by simp
next
  case False
  have "startAt a i \<noteq> p"
  proof
    assume "startAt a i = p"
    moreover have "i * rcAlign < rcArenaSize" using i by simp
    ultimately have "off a p = i * rcAlign" using off_startAt by blast
    then show False using False by simp
  qed
  then show ?thesis using False state_at [OF marks i] by simp
qed

lemma marksOkI:
  assumes "\<And>q. mk q \<noteq> fgoNone \<Longrightarrow> mk q \<in> {fgoHanded, fgoBufData, fgoBufPtrs, fgoShared} \<and>
      (\<exists>n. ext q = Some n \<and> (mk q \<noteq> fgoShared \<longrightarrow> fgoHandedSize a q (mk q) = of_nat n))"
    and "\<And>i. i < rcArenaSize div rcAlign \<Longrightarrow> state a i = mk (startAt a i)"
    and "\<And>c. chunks a c = of_nat (card (marked a mk c))"
  shows "marksOk a ext mk"
  using assms unfolding marksOk_def by blast

lemma marksOkD:
  assumes "marksOk a ext mk"
  shows "mk q \<noteq> fgoNone \<Longrightarrow> mk q \<in> {fgoHanded, fgoBufData, fgoBufPtrs, fgoShared} \<and>
      (\<exists>n. ext q = Some n \<and> (mk q \<noteq> fgoShared \<longrightarrow> fgoHandedSize a q (mk q) = of_nat n))"
    and "chunks a c = of_nat (card (marked a mk c))"
  using assms by (simp_all add: marksOk_def)

lemma marksOk_mark:
  assumes fits: "fits a ext" and marks: "marksOk a ext mk" and p: "ext p = Some n" and new: "mk p = fgoNone"
    and s: "s \<in> {fgoHanded, fgoBufData, fgoBufPtrs, fgoShared}" "s \<noteq> fgoShared \<Longrightarrow> fgoHandedSize a p s = of_nat n"
  shows "marksOk (fgoMarkHanded p s a) ext (mk(p := s))"
proof -
  have s0: "s \<noteq> fgoNone" using s(1) by auto
  let ?a = "a\<lparr>chunks := (chunks a)(off a p div rcChunk := chunks a (off a p div rcChunk) + 1),
              state := (state a)(off a p div rcAlign := s)\<rparr>"
  have a: "fgoMarkHanded p s a = ?a" using s0 by (simp add: fgoMarkHanded_def Let_def)
  show ?thesis
    unfolding a
  proof (rule marksOkI)
    show "chunks ?a c = of_nat (card (marked ?a (mk(p := s)) c))" for c
      using marksOkD(2) [OF marks, of c] marked_upd [of mk p, OF new s0, of a c] marked_card(1) [of a mk c]
      by (cases "c = off a p div rcChunk") simp_all
    show "state ?a i = (mk(p := s)) (startAt ?a i)" if "i < rcArenaSize div rcAlign" for i
      using state_upd [OF fits marks p that] by simp
  qed (use marksOkD(1) [OF marks] p s in \<open>auto split: if_splits\<close>)
qed

lemma marksOk_unmark:
  assumes fits: "fits a ext" and marks: "marksOk a ext mk" and p: "ext p = Some n" and old: "mk p \<noteq> fgoNone"
  shows "marksOk (fgoMarkHanded p fgoNone a) ext (mk(p := fgoNone))"
proof -
  let ?a = "a\<lparr>state := (state a)(off a p div rcAlign := fgoNone),
              chunks := (chunks a)(off a p div rcChunk := chunks a (off a p div rcChunk) - 1)\<rparr>"
  have a: "fgoMarkHanded p fgoNone a = ?a" by (simp add: fgoMarkHanded_def Let_def)
  let ?mk = "mk(p := fgoNone)"
  have "mk = ?mk(p := mk p)" by simp
  then have "marked a mk c = (if off a p div rcChunk = c then insert p (marked a ?mk c) else marked a ?mk c)" "p \<notin> marked a ?mk c" for c
    using marked_upd [of ?mk p "mk p" a c] old by simp_all
  note split = this
  show ?thesis
    unfolding a
  proof (rule marksOkI)
    show "chunks ?a c = of_nat (card (marked ?a ?mk c))" for c
      using marksOkD(2) [OF marks, of c] split [of c] marked_card(1) [of a ?mk c]
      by (cases "c = off a p div rcChunk") simp_all
    show "state ?a i = ?mk (startAt ?a i)" if "i < rcArenaSize div rcAlign" for i
      using state_upd [OF fits marks p that] by simp
  qed (use marksOkD(1) [OF marks] in \<open>auto split: if_splits\<close>)
qed

lemma marksOk_restate:
  assumes fits: "fits a ext" and marks: "marksOk a ext mk" and p: "ext p = Some n" and old: "mk p \<noteq> fgoNone"
    and s: "s \<in> {fgoHanded, fgoBufData, fgoBufPtrs, fgoShared}" "s \<noteq> fgoShared \<Longrightarrow> fgoHandedSize a p s = of_nat n"
  shows "marksOk (a\<lparr>state := (state a)(off a p div rcAlign := s)\<rparr>) ext (mk(p := s))"
proof -
  have s0: "s \<noteq> fgoNone" using s(1) by auto
  let ?a = "a\<lparr>state := (state a)(off a p div rcAlign := s)\<rparr>"
  show ?thesis
  proof (rule marksOkI)
    show "chunks ?a c = of_nat (card (marked ?a (mk(p := s)) c))" for c
      using marksOkD(2) [OF marks] marked_same [of mk p, OF old s0] by simp
    show "state ?a i = (mk(p := s)) (startAt ?a i)" if "i < rcArenaSize div rcAlign" for i
      using state_upd [OF fits marks p that] by simp
  qed (use marksOkD(1) [OF marks] p s in \<open>auto split: if_splits\<close>)
qed

section \<open>The memory of objects\<close>

text \<open>The marks that handing off, sharing and freeing one object leave.\<close>

definition handOneMarks :: "uintptr \<Rightarrow> uintptr \<Rightarrow> fgoArena \<Rightarrow> fgoArena" where
  "handOneMarks cnt p a =
     (if cnt AND fgoSharedBit \<noteq> 0 then a\<lparr>state := (state a)(off a p div rcAlign := fgoHanded)\<rparr>
      else fgoMarkHanded p fgoHanded a)"

definition freeMarks :: "uintptr \<Rightarrow> fgoArena \<Rightarrow> fgoArena" where
  "freeMarks p a = (if fgoQuick a p = fgoMaybe \<and> fgoKindOf a p = fgoShared then fgoMarkHanded p fgoNone a else a)"

fun stateByte :: "rcState \<Rightarrow> 8 word" where
  "stateByte SNone = fgoNone"
| "stateByte SCounted = fgoCounted"
| "stateByte SHanded = fgoHanded"
| "stateByte SShared = fgoShared"

fun markByte :: "rcState \<Rightarrow> 8 word" where
  "markByte SShared = fgoShared"
| "markByte SHanded = fgoHanded"
| "markByte s = fgoNone"

definition represents :: "fgoArena \<Rightarrow> (uintptr \<Rightarrow> nat option) \<Rightarrow> (uintptr \<Rightarrow> 8 word) \<Rightarrow> rcMem \<Rightarrow> bool" where
  "represents a ext mk m \<longleftrightarrow> fits a ext \<and> marksOk a ext mk \<and>
     (\<forall>p x. objs m p = Some x \<longrightarrow> rcMark x \<noteq> SNone \<and> mk p = markByte (rcMark x) \<and>
        (\<exists>n. ext p = Some n \<and> typSize a p = Some (of_nat n)))"

lemma representsD:
  assumes "represents a ext mk m"
  shows "fits a ext" "marksOk a ext mk"
    and "objs m p = Some x \<Longrightarrow> rcMark x \<noteq> SNone \<and> mk p = markByte (rcMark x) \<and> (\<exists>n. ext p = Some n \<and> typSize a p = Some (of_nat n))"
  using assms by (auto simp: represents_def)

lemma mark_represents:
  assumes rep: "represents a ext mk m" and x: "objs m p = Some x" and y: "rcMark y = SHanded \<or> rcMark y = SShared"
    and marks: "marksOk a' ext (mk(p := markByte (rcMark y)))" and a': "fits a' ext = fits a ext" "typSize a' = typSize a"
  shows "represents a' ext (mk(p := markByte (rcMark y))) (putObj p y m)"
  using representsD [OF rep] x y marks a' by (auto simp: represents_def putObj_def)

lemma fgoMarkHanded_arena [simp]:
  "fits (fgoMarkHanded p s a) ext = fits a ext" "typSize (fgoMarkHanded p s a) = typSize a"
  by (simp_all add: fgoMarkHanded_def Let_def)

lemma handOne_represents:
  assumes rep: "represents a ext mk m" and x: "objs m p = Some x" "rcMark x \<noteq> SHanded"
    and flag: "rc x AND fgoSharedBit \<noteq> 0 \<longleftrightarrow> rcMark x = SShared" and m': "fgoHandOne p m = Some m'"
  shows "represents (handOneMarks (rc x) p a) ext (mk(p := fgoHanded)) m'"
proof -
  note r = representsD [OF rep] representsD(3) [OF rep x(1)]
  obtain n where n: "ext p = Some n" "typSize a p = Some (of_nat n)" using r(4) by blast
  then have size: "fgoHandedSize a p fgoHanded = of_nat n" by (simp add: fgoHandedSize_def)
  obtain y where y: "m' = putObj p y m" "rcMark y = SHanded" using m' x(1) by (auto simp: fgoHandOne_def)
  have "marksOk (handOneMarks (rc x) p a) ext (mk(p := fgoHanded))"
  proof (cases "rcMark x = SShared")
    case True
    then show ?thesis
      using marksOk_restate [OF r(1,2) n(1), of fgoHanded] flag r(4) size by (simp add: handOneMarks_def)
  next
    case False
    then have "mk p = fgoNone" using r(4) x(2) by (cases "rcMark x") simp_all
    then show ?thesis
      using marksOk_mark [OF r(1,2) n(1), of fgoHanded] flag False size by (simp add: handOneMarks_def)
  qed
  then show ?thesis
    using mark_represents [OF rep x(1), of y "handOneMarks (rc x) p a"] y by (simp add: handOneMarks_def)
qed

lemma shareOne_represents:
  assumes rep: "represents a ext mk m" and x: "objs m p = Some x" "rcMark x = SCounted"
  shows "represents (fgoMarkHanded p fgoShared a) ext (mk(p := fgoShared)) (putObj p (x\<lparr>rc := c, rcMark := SShared\<rparr>) m)"
proof -
  note r = representsD [OF rep] representsD(3) [OF rep x(1)]
  obtain n where n: "ext p = Some n" using r(4) by blast
  have "marksOk (fgoMarkHanded p fgoShared a) ext (mk(p := fgoShared))"
    using marksOk_mark [OF r(1,2) n, of fgoShared] r(4) x(2) by simp
  then show ?thesis
    using mark_represents [OF rep x(1), of "x\<lparr>rc := c, rcMark := SShared\<rparr>"] by simp
qed

lemma fits_remove: "fits a ext \<Longrightarrow> fits a (ext(p := None))"
  by (simp add: fits_def)

lemma marksOk_remove:
  assumes "marksOk a ext mk" and "mk p = fgoNone"
  shows "marksOk a (ext(p := None)) mk"
proof (rule marksOkI)
  show "mk q \<in> {fgoHanded, fgoBufData, fgoBufPtrs, fgoShared} \<and>
      (\<exists>n. (ext(p := None)) q = Some n \<and> (mk q \<noteq> fgoShared \<longrightarrow> fgoHandedSize a q (mk q) = of_nat n))"
    if "mk q \<noteq> fgoNone" for q
    using marksOkD(1) [OF assms(1) that] that assms(2) by (cases "q = p") simp_all
qed (use state_at [OF assms(1)] marksOkD(2) [OF assms(1)] in simp_all)

lemma free_represents:
  assumes rep: "represents a ext mk m" and x: "objs m p = Some x" "rcMark x \<noteq> SHanded"
  shows "represents (freeMarks p a) (ext(p := None)) (mk(p := fgoNone)) (freeObj p free m)"
proof -
  note r = representsD [OF rep] representsD(3) [OF rep x(1)]
  obtain n where n: "ext p = Some n" using r(4) by blast
  have kind: "fgoKindOf a p = mk p" using state_start [OF r(1,2) n] by (simp add: fgoKindOf_def)
  have "marksOk (freeMarks p a) ext (mk(p := fgoNone))"
  proof (cases "rcMark x = SShared")
    case True
    then have mk: "mk p = fgoShared" using r(4) by simp
    then have "p \<in> marked a mk (off a p div rcChunk)" by (simp add: marked_def)
    then have "fgoQuick a p = fgoMaybe" using chunks_zero [OF r(2)] fitsD(5) [OF r(1) n] by (auto simp: fgoQuick_def)
    then show ?thesis using marksOk_unmark [OF r(1,2) n] mk kind by (simp add: freeMarks_def)
  next
    case False
    then have "mk p = fgoNone" using r(4) x(2) by (cases "rcMark x") simp_all
    then show ?thesis using kind r(2) by (simp add: freeMarks_def fun_upd_idem)
  qed
  then have "marksOk (freeMarks p a) (ext(p := None)) (mk(p := fgoNone))" by (rule marksOk_remove) simp
  moreover have a: "fits (freeMarks p a) ext = fits a ext" "typSize (freeMarks p a) = typSize a" for ext by (simp_all add: freeMarks_def)
  moreover have "fits (freeMarks p a) (ext(p := None))" unfolding a by (rule fits_remove [OF r(1)])
  moreover have "rcMark y \<noteq> SNone \<and> (mk(p := fgoNone)) q = markByte (rcMark y) \<and> (\<exists>n. (ext(p := None)) q = Some n \<and> typSize a q = Some (of_nat n))"
    if "objs (freeObj p free m) q = Some y" for q y
  proof -
    have "q \<noteq> p" "objs m q = Some y" using that by (auto simp: freeObj_def split: if_splits)
    then show ?thesis using r(3) [of q y] by simp
  qed
  ultimately show ?thesis unfolding represents_def a by blast
qed

text \<open>
  C11: \<open>fgoState\<close> reads the state of the object from the bytes and counters of the arena, as the
  memory of objects has it, whichever way objects were marked.
\<close>

theorem fgoState_refines:
  assumes "represents a ext mk m" and "objs m p = Some x"
  shows "fgoStateAt a p = stateByte (fgoState m p)"
proof -
  note r = representsD [OF assms(1)] representsD(3) [OF assms(1,2)]
  obtain n where n: "ext p = Some n" using r(4) by blast
  show ?thesis
    using fgoStateAt_start [OF r(1,2) n] r(4) assms(2) by (cases "rcMark x") (simp_all add: fgoState_def)
qed

text \<open>
  C37: handing off, sharing and freeing an object leave bytes and counters that stand for the memory
  after it.
\<close>

theorem marks_follow:
  assumes "represents a ext mk m" and "objs m p = Some x" and "rcMark x \<noteq> SHanded"
    and "rc x AND fgoSharedBit \<noteq> 0 \<longleftrightarrow> rcMark x = SShared"
  shows "represents (handOneMarks (rc x) p a) ext (mk(p := fgoHanded)) (the (fgoHandOne p m)) \<and>
    (rcMark x = SCounted \<longrightarrow>
       represents (fgoMarkHanded p fgoShared a) ext (mk(p := fgoShared)) (putObj p (x\<lparr>rc := rc x OR fgoSharedBit, rcMark := SShared\<rparr>) m)) \<and>
    represents (freeMarks p a) (ext(p := None)) (mk(p := fgoNone)) (freeObj p free m)"
  using handOne_represents [OF assms] shareOne_represents [OF assms(1,2)] free_represents [OF assms(1-3)] assms(2)
  by (auto simp: fgoHandOne_def)

text \<open>
  A pointer that is not to the start of an object is not counted, if it is outside the arena or
  at least 16 bytes into an object or buffer that was handed off.
\<close>

theorem fgoState_elsewhere:
  assumes "fits a ext" and "marksOk a ext mk"
    and "off a p \<ge> rcArenaSize \<or> (\<exists>q. handed mk q \<and> holds a ext q p \<and> off a p \<ge> off a q + rcAlign)"
  shows "fgoStateAt a p = fgoNone"
  using assms(3)
proof
  assume "\<exists>q. handed mk q \<and> holds a ext q p \<and> off a p \<ge> off a q + rcAlign"
  then show ?thesis using fgoStateAt_inside(1) [OF assms(1,2)] by blast
qed (simp add: fgoStateAt_def fgoQuick_def)

text \<open>
  A pointer to the second word of an object that was handed off is taken for the object itself,
  so that counting it changes the word before it in the header of the object, its type.
\<close>

theorem fgoState_second_word:
  assumes "fits a ext" and "marksOk a ext mk" and "ext q = Some n" and "n \<ge> 16" and "mk q = fgoHanded"
  shows "fgoStateAt a (q + 8) = fgoHanded"
proof -
  have q: "off a q + n \<le> unat (aSize a)" "unat (aSize a) \<le> rcArenaSize" "unat (aLo a) + rcArenaSize < 2 ^ 64"
    using fitsD(3) [OF assms(1,3)] assms(1) by (simp_all add: fits_def)
  have "unat ((q - aLo a) + 8) = off a q + 8"
    using q assms(4) by (subst unat_add_lem [THEN iffD1]) (simp_all add: off_def)
  then have "off a (q + 8) = off a q + 8" by (simp add: off_def algebra_simps)
  moreover from this have "holds a ext q (q + 8)" using assms(3,4) by (simp add: holds_def)
  ultimately show ?thesis
    using fgoStateAt_inside(2) [OF assms(1,2), of q "q + 8"] assms(5) by (simp add: handed_def)
qed

section \<open>An example arena\<close>

text \<open>A handed-off object of 24 bytes at the start of the arena after its header, and a counted one.\<close>

definition twoArena :: fgoArena where
  "twoArena = fgoMarkHanded (2 ^ 40 + 16) fgoHanded \<lparr>aLo = 2 ^ 40, aSize = 4194304, chunks = (\<lambda>_. 0), state = (\<lambda>_. 0),
     typSize = [2 ^ 40 + 16 \<mapsto> 24, 2 ^ 40 + 64 \<mapsto> 8], bufSize = (\<lambda>_. 0)\<rparr>"

definition twoExt :: "uintptr \<Rightarrow> nat option" where
  "twoExt = [2 ^ 40 + 16 \<mapsto> 24, 2 ^ 40 + 64 \<mapsto> 8]"

definition twoMem :: rcMem where
  "twoMem = \<lparr>objs = [2 ^ 40 + 16 \<mapsto> \<lparr>rc = fgoHeld + 1, rcMark = SHanded, rcFields = [], rcMixed = False\<rparr>,
                      2 ^ 40 + 64 \<mapsto> \<lparr>rc = 1, rcMark = SCounted, rcFields = [], rcMixed = False\<rparr>], freedMem = []\<rparr>"

lemma two_fits: "fits \<lparr>aLo = 2 ^ 40, aSize = 4194304, chunks = c, state = s, typSize = ts, bufSize = b\<rparr> twoExt"
  by (auto simp: fits_def twoExt_def off_def split: if_splits)

lemma twoArena_fits: "fits twoArena twoExt"
  unfolding twoArena_def fgoMarkHanded_arena by (rule two_fits)

lemma two_marks: "marksOk twoArena twoExt ((\<lambda>_. fgoNone)(2 ^ 40 + 16 := fgoHanded))"
  unfolding twoArena_def
proof (rule marksOk_mark [OF two_fits])
  show "marksOk \<lparr>aLo = 2 ^ 40, aSize = 4194304, chunks = (\<lambda>_. 0), state = (\<lambda>_. 0),
     typSize = [2 ^ 40 + 16 \<mapsto> 24, 2 ^ 40 + 64 \<mapsto> 8], bufSize = (\<lambda>_. 0)\<rparr> twoExt (\<lambda>_. fgoNone)"
    by (simp add: marksOk_def marked_def)
  show "twoExt (2 ^ 40 + 16) = Some 24" by (simp add: twoExt_def)
qed (simp_all add: fgoHandedSize_def)

lemma two_represents: "represents twoArena twoExt ((\<lambda>_. fgoNone)(2 ^ 40 + 16 := fgoHanded)) twoMem"
  unfolding represents_def
proof (intro conjI two_marks)
  show "fits twoArena twoExt" by (rule twoArena_fits)
qed (auto simp: twoMem_def twoArena_def twoExt_def split: if_splits)

theorem fgoState_refines_witness: "fgoStateAt twoArena (2 ^ 40 + 64) = stateByte (fgoState twoMem (2 ^ 40 + 64))"
  by (rule fgoState_refines [OF two_represents]) (simp add: twoMem_def)

theorem marks_follow_witness:
  "represents (handOneMarks 1 (2 ^ 40 + 64) twoArena) twoExt ((\<lambda>_. fgoNone)(2 ^ 40 + 16 := fgoHanded, 2 ^ 40 + 64 := fgoHanded))
     (the (fgoHandOne (2 ^ 40 + 64) twoMem))"
  by (rule marks_follow [OF two_represents, of "2 ^ 40 + 64" "\<lparr>rc = 1, rcMark = SCounted, rcFields = [], rcMixed = False\<rparr>", simplified rcObj.simps, THEN conjunct1])
    (simp_all add: twoMem_def fgoSharedBit_def)

theorem fgoState_elsewhere_witness: "fgoStateAt twoArena 0 = fgoNone"
proof (rule fgoState_elsewhere [OF _ two_marks])
  show "fits twoArena twoExt" by (rule twoArena_fits)
  show "off twoArena 0 \<ge> rcArenaSize \<or>
    (\<exists>q. handed ((\<lambda>_. fgoNone)(2 ^ 40 + 16 := fgoHanded)) q \<and> holds twoArena twoExt q 0 \<and> off twoArena 0 \<ge> off twoArena q + rcAlign)"
    by (simp add: twoArena_def off_def fgoMarkHanded_def Let_def)
qed

theorem fgoState_second_word_witness: "fgoStateAt twoArena (2 ^ 40 + 16 + 8) = fgoHanded"
proof (rule fgoState_second_word [OF _ two_marks])
  show "fits twoArena twoExt" by (rule twoArena_fits)
  show "twoExt (2 ^ 40 + 16) = Some 24" by (simp add: twoExt_def)
qed simp_all

end
