(* ===== verification/RcEsc.thy ===== *)
theory RcEsc
  imports RcCount
begin

text \<open>
  \<^verbatim>\<open>src/src/runtime/forgo_rc.go\<close>: the table of records of the objects handed off to the garbage
  collector, an open addressing hash table. A record is kept in its slot; the list of freed records
  that are used again is left out.
\<close>

unbundle bit_operations_syntax

section \<open>Table\<close>

record escRec =
  eobj :: uintptr
  emark :: "32 word"

datatype escSlot = EmptySlot | TombSlot | RecSlot escRec

record escTab =
  emask :: uintptr
  eused :: nat
  eslots :: "escSlot list"

record escSt =
  etab :: "escTab option"
  elive :: nat

definition fgoEscHash :: "uintptr \<Rightarrow> uintptr" where
  "fgoEscHash p = drop_bit 7 (drop_bit 4 p * 0x9E3779B97F4A7C15)"

text \<open>Every loop over the table walks from slot \<open>i\<close> until it finds one it stops at.\<close>

partial_function (option) probe :: "(escSlot \<Rightarrow> bool) \<Rightarrow> escTab \<Rightarrow> uintptr \<Rightarrow> uintptr option" where
  [code]: "probe stop t i = (if stop (eslots t ! unat i) then Some i else probe stop t ((i + 1) AND emask t))"

fun findStops :: "uintptr \<Rightarrow> escSlot \<Rightarrow> bool" where
  "findStops p EmptySlot = True"
| "findStops p TombSlot = False"
| "findStops p (RecSlot r) = (eobj r = p)"

definition fgoEscFind :: "escTab option \<Rightarrow> uintptr \<Rightarrow> (uintptr \<times> escRec) option option" where
  "fgoEscFind ot p =
     (case ot of
        None \<Rightarrow> Some None
      | Some t \<Rightarrow> Option.bind (probe (findStops p) t (fgoEscHash p AND emask t)) (\<lambda>i.
          case eslots t ! unat i of RecSlot r \<Rightarrow> Some (Some (i, r)) | _ \<Rightarrow> Some None))"

definition fgoEscNewTab :: "nat \<Rightarrow> escTab" where
  "fgoEscNewTab n = \<lparr>emask = of_nat n - 1, eused = 0, eslots = replicate n EmptySlot\<rparr>"

definition isEmpty :: "escSlot \<Rightarrow> bool" where
  "isEmpty s \<longleftrightarrow> s = EmptySlot"

definition isFree :: "escSlot \<Rightarrow> bool" where
  "isFree s \<longleftrightarrow> s = EmptySlot \<or> s = TombSlot"

definition putSlot :: "uintptr \<Rightarrow> escSlot \<Rightarrow> escTab \<Rightarrow> escTab" where
  "putSlot i s t = t\<lparr>eslots := (eslots t)[unat i := s]\<rparr>"

text \<open>Records move to a new table in the order of their slots.\<close>

fun rehash :: "escSlot list \<Rightarrow> escTab \<Rightarrow> escTab option" where
  "rehash [] nt = Some nt"
| "rehash (RecSlot r # ss) nt =
     Option.bind (probe isEmpty nt (fgoEscHash (eobj r) AND emask nt)) (\<lambda>i.
       rehash ss ((putSlot i (RecSlot r) nt)\<lparr>eused := eused nt + 1\<rparr>))"
| "rehash (_ # ss) nt = rehash ss nt"

definition escGrow :: "escSt \<Rightarrow> escTab option" where
  "escGrow st =
     (case etab st of
        None \<Rightarrow> Some (fgoEscNewTab 1024)
      | Some t \<Rightarrow>
          if (eused t + 1) * 2 > length (eslots t) then
            rehash (eslots t)
              (fgoEscNewTab (if (elive st + 1) * 4 > length (eslots t) then length (eslots t) * 2 else length (eslots t)))
          else Some t)"

definition fgoEscInsert :: "uintptr \<Rightarrow> 32 word \<Rightarrow> escSt \<Rightarrow> escSt option" where
  "fgoEscInsert p cyc st =
     Option.bind (escGrow st) (\<lambda>t.
     Option.bind (probe isFree t (fgoEscHash p AND emask t)) (\<lambda>i.
       let t1 = (if eslots t ! unat i = EmptySlot then t\<lparr>eused := eused t + 1\<rparr> else t) in
       Some \<lparr>etab = Some (putSlot i (RecSlot \<lparr>eobj = p, emark = cyc\<rparr>) t1), elive = elive st + 1\<rparr>))"

text \<open>The sweeper's pass: records it drops leave their slots, the last one found comes first.\<close>

fun sweepSlots :: "(escRec \<Rightarrow> bool) \<Rightarrow> escSlot list \<Rightarrow> nat \<Rightarrow> escRec list \<Rightarrow> escSlot list \<times> nat \<times> escRec list" where
  "sweepSlots dead [] n dropped = ([], n, dropped)"
| "sweepSlots dead (s # ss) n dropped =
     (case s of
        RecSlot r \<Rightarrow>
          if dead r then (case sweepSlots dead ss (n - 1) (r # dropped) of (ss', n', d) \<Rightarrow> (TombSlot # ss', n', d))
          else (case sweepSlots dead ss n dropped of (ss', n', d) \<Rightarrow> (s # ss', n', d))
      | _ \<Rightarrow> (case sweepSlots dead ss n dropped of (ss', n', d) \<Rightarrow> (s # ss', n', d)))"

definition escSweep :: "(escRec \<Rightarrow> bool) \<Rightarrow> escSt \<Rightarrow> (escSt \<times> escRec list) option" where
  "escSweep dead st =
     (case etab st of
        None \<Rightarrow> Some (st, [])
      | Some t \<Rightarrow>
          (case sweepSlots dead (eslots t) (elive st) [] of (ss, n, dropped) \<Rightarrow>
             Option.bind
               (if n * 8 < eused t \<and> eused t > 1024 then rehash ss (fgoEscNewTab (length ss))
                else Some (t\<lparr>eslots := ss\<rparr>))
               (\<lambda>t. Some (\<lparr>etab = Some t, elive = n\<rparr>, dropped))))"

section \<open>Well-formed tables\<close>

definition home :: "escTab \<Rightarrow> uintptr \<Rightarrow> nat" where
  "home t p = unat (fgoEscHash p AND emask t)"

definition step :: "escTab \<Rightarrow> nat \<Rightarrow> nat \<Rightarrow> nat" where
  "step t i j = (i + j) mod length (eslots t)"

definition sized :: "escTab \<Rightarrow> bool" where
  "sized t \<longleftrightarrow> (\<exists>k. 10 \<le> k \<and> k \<le> 30 \<and> length (eslots t) = 2 ^ k \<and> emask t = of_nat (2 ^ k) - 1)"

definition recs :: "escSlot list \<Rightarrow> escRec set" where
  "recs ss = {r. RecSlot r \<in> set ss}"

definition fullSlots :: "escSlot list \<Rightarrow> nat set" where
  "fullSlots ss = {i. i < length ss \<and> ss ! i \<noteq> EmptySlot}"

text \<open>A walk from the home of a record to its slot meets no empty slot before it.\<close>

definition found :: "escTab \<Rightarrow> nat \<Rightarrow> bool" where
  "found t i \<longleftrightarrow> (\<forall>r. eslots t ! i = RecSlot r \<longrightarrow>
     (\<exists>j < length (eslots t). step t (home t (eobj r)) j = i \<and> (\<forall>j' < j. eslots t ! step t (home t (eobj r)) j' \<noteq> EmptySlot)))"

definition tabOk :: "escTab \<Rightarrow> bool" where
  "tabOk t \<longleftrightarrow> sized t \<and> eused t = card (fullSlots (eslots t)) \<and> eused t * 2 \<le> length (eslots t) \<and>
     (\<forall>i < length (eslots t). found t i) \<and>
     (\<forall>i < length (eslots t). \<forall>j < length (eslots t). \<forall>r r'. eslots t ! i = RecSlot r \<longrightarrow> eslots t ! j = RecSlot r' \<longrightarrow>
        eobj r = eobj r' \<longrightarrow> i = j)"

definition recsOf :: "escSt \<Rightarrow> escRec set" where
  "recsOf st = (case etab st of None \<Rightarrow> {} | Some t \<Rightarrow> recs (eslots t))"

definition escOk :: "escSt \<Rightarrow> bool" where
  "escOk st \<longleftrightarrow> (case etab st of None \<Rightarrow> True | Some t \<Rightarrow> tabOk t) \<and> elive st = card (recsOf st)"

section \<open>Walking\<close>

lemma sized_mask:
  assumes "sized t"
  shows "unat (w AND emask t) = unat w mod length (eslots t)" and "0 < length (eslots t)" and "length (eslots t) < 2 ^ 63"
proof -
  obtain k where k: "10 \<le> k" "k \<le> 30" "length (eslots t) = 2 ^ k" "emask t = of_nat (2 ^ k) - 1"
    using assms by (auto simp: sized_def)
  have "emask t = mask k" using k(4) by (simp add: mask_eq_exp_minus_1)
  then have "w AND emask t = take_bit k w" by (simp add: take_bit_eq_mask)
  then have "unat (w AND emask t) = take_bit k (unat w)" by (simp only: unsigned_take_bit_eq)
  then show "unat (w AND emask t) = unat w mod length (eslots t)" unfolding k(3) take_bit_eq_mod .
  show "0 < length (eslots t)" by (simp add: k(3))
  show "length (eslots t) < 2 ^ 63"
    unfolding k(3) by (rule power_strict_increasing) (use k(2) in simp_all)
qed

lemma home_less: "sized t \<Longrightarrow> home t p < length (eslots t)"
  using sized_mask(2) [of t] by (simp add: home_def sized_mask(1))

lemma step_less: "sized t \<Longrightarrow> step t i j < length (eslots t)"
  using sized_mask(2) [of t] by (simp add: step_def)

lemma step_0: "i < length (eslots t) \<Longrightarrow> step t i 0 = i"
  by (simp add: step_def)

lemma next_slot:
  assumes "sized t" and "unat i < length (eslots t)"
  shows "unat ((i + 1) AND emask t) = step t (unat i) 1"
proof -
  have "unat i + 1 < 2 ^ 64" using assms(2) sized_mask(3) [OF assms(1)] by simp
  then have "unat (i + 1) = unat i + 1" by (subst unat_add_lem [THEN iffD1]) simp_all
  then show ?thesis by (simp add: sized_mask(1) [OF assms(1)] step_def)
qed

lemma step_step: "step t (step t i 1) j = step t i (Suc j)"
  by (simp add: step_def mod_simps)

text \<open>The walk returns the first slot it stops at.\<close>

lemma probe_first:
  assumes "sized t" and "unat i < length (eslots t)" and "stop (eslots t ! step t (unat i) j)"
    and "\<And>j'. j' < j \<Longrightarrow> \<not> stop (eslots t ! step t (unat i) j')"
  shows "\<exists>i'. probe stop t i = Some i' \<and> unat i' = step t (unat i) j"
  using assms(2-4)
proof (induction j arbitrary: i)
  case 0
  then show ?case by (subst probe.simps) (simp add: step_0)
next
  case (Suc j)
  let ?i = "(i + 1) AND emask t"
  have i: "unat ?i = step t (unat i) 1" by (rule next_slot [OF assms(1) Suc.prems(1)])
  have "\<exists>i'. probe stop t ?i = Some i' \<and> unat i' = step t (unat ?i) j"
  proof (rule Suc.IH)
    show "unat ?i < length (eslots t)" unfolding i by (rule step_less [OF assms(1)])
    show "stop (eslots t ! step t (unat ?i) j)" unfolding i step_step by (rule Suc.prems(2))
    show "\<not> stop (eslots t ! step t (unat ?i) j')" if "j' < j" for j'
      unfolding i step_step by (rule Suc.prems(3)) (use that in simp)
  qed
  moreover have "\<not> stop (eslots t ! unat i)" using Suc.prems(3) [of 0] step_0 [OF Suc.prems(1)] by simp
  ultimately show ?case unfolding i step_step by (subst probe.simps) simp
qed

lemma step_onto:
  assumes "sized t" and "i < length (eslots t)" and "i' < length (eslots t)"
  shows "\<exists>j < length (eslots t). step t i j = i'"
proof (cases "i \<le> i'")
  case True
  then show ?thesis using assms by (intro exI [of _ "i' - i"]) (simp add: step_def)
next
  case False
  then show ?thesis using assms by (intro exI [of _ "length (eslots t) + i' - i"]) (simp add: step_def)
qed

lemma probe_stops:
  assumes "sized t" and "i < length (eslots t)" and "stop (eslots t ! i)" and start: "unat s < length (eslots t)"
  obtains i' j where "probe stop t s = Some i'" and "unat i' = step t (unat s) j" and "j < length (eslots t)"
    and "stop (eslots t ! unat i')" and "\<And>j'. j' < j \<Longrightarrow> \<not> stop (eslots t ! step t (unat s) j')"
proof -
  obtain j0 where j0: "j0 < length (eslots t)" "step t (unat s) j0 = i" using step_onto [OF assms(1) start assms(2)] by blast
  define j where "j = (LEAST j. stop (eslots t ! step t (unat s) j))"
  have stop: "stop (eslots t ! step t (unat s) j)" unfolding j_def by (rule LeastI [of _ j0]) (simp add: j0(2) assms(3))
  have least: "\<not> stop (eslots t ! step t (unat s) j')" if "j' < j" for j' using that not_less_Least unfolding j_def by blast
  have "j \<le> j0" unfolding j_def by (rule Least_le) (simp add: j0(2) assms(3))
  then have "j < length (eslots t)" using j0(1) by simp
  with probe_first [OF assms(1) start, of stop j, OF stop least] stop least show thesis by (metis that)
qed

section \<open>Finding\<close>

lemma tabOkD:
  assumes "tabOk t"
  shows "sized t" "eused t = card (fullSlots (eslots t))" "eused t * 2 \<le> length (eslots t)"
    and "i < length (eslots t) \<Longrightarrow> found t i"
    and "i < length (eslots t) \<Longrightarrow> i' < length (eslots t) \<Longrightarrow> eslots t ! i = RecSlot r \<Longrightarrow> eslots t ! i' = RecSlot r' \<Longrightarrow>
      eobj r = eobj r' \<Longrightarrow> i = i'"
  using assms by (simp_all add: tabOk_def)

lemma tabOkI:
  assumes "sized t" and "eused t = card (fullSlots (eslots t))" and "eused t * 2 \<le> length (eslots t)"
    and "\<And>i. i < length (eslots t) \<Longrightarrow> found t i"
    and "\<And>i i' r r'. i < length (eslots t) \<Longrightarrow> i' < length (eslots t) \<Longrightarrow> eslots t ! i = RecSlot r \<Longrightarrow> eslots t ! i' = RecSlot r' \<Longrightarrow>
      eobj r = eobj r' \<Longrightarrow> i = i'"
  shows "tabOk t"
  using assms unfolding tabOk_def by blast

lemma finite_fullSlots [simp]: "finite (fullSlots ss)"
  by (simp add: fullSlots_def)

lemma empty_slot:
  assumes "tabOk t"
  obtains i where "i < length (eslots t)" and "eslots t ! i = EmptySlot"
proof -
  have "card (fullSlots (eslots t)) < length (eslots t)"
    using tabOkD(2,3) [OF assms] sized_mask(2) [OF tabOkD(1) [OF assms]] by linarith
  then have "card (fullSlots (eslots t)) < card {0..<length (eslots t)}" by simp
  then have "\<not> {0..<length (eslots t)} \<subseteq> fullSlots (eslots t)"
    using card_mono [OF finite_fullSlots] by (meson not_le)
  then show thesis using that by (auto simp: fullSlots_def)
qed

lemma home_start: "unat (fgoEscHash p AND emask t) = home t p"
  by (simp add: home_def)

text \<open>A walk that stops at empty slots ends.\<close>

lemma probe_home:
  assumes "tabOk t" and "\<And>s. s = EmptySlot \<Longrightarrow> stop s"
  obtains i j where "probe stop t (fgoEscHash p AND emask t) = Some i" and "unat i = step t (home t p) j" and "j < length (eslots t)"
    and "unat i < length (eslots t)" and "stop (eslots t ! unat i)" and "\<And>j'. j' < j \<Longrightarrow> \<not> stop (eslots t ! step t (home t p) j')"
proof -
  note size = tabOkD(1) [OF assms(1)]
  obtain e where e: "e < length (eslots t)" "eslots t ! e = EmptySlot" by (rule empty_slot [OF assms(1)])
  have start: "unat (fgoEscHash p AND emask t) < length (eslots t)" unfolding home_start by (rule home_less [OF size])
  show thesis
    by (rule probe_stops [OF size e(1) _ start, of stop, OF assms(2) [OF e(2)], unfolded home_start])
      (rule that, auto simp: step_less [OF size])
qed

lemma findStops_iff: "findStops p s \<longleftrightarrow> s = EmptySlot \<or> (\<exists>r. s = RecSlot r \<and> eobj r = p)"
  by (cases s) simp_all

lemma find_exact:
  assumes "tabOk t"
  shows "(\<exists>r i. fgoEscFind (Some t) p = Some (Some (i, r)) \<and> eobj r = p \<and> unat i < length (eslots t) \<and> eslots t ! unat i = RecSlot r) \<or>
    fgoEscFind (Some t) p = Some None \<and> p \<notin> eobj ` recs (eslots t)"
proof -
  obtain i j where i: "probe (findStops p) t (fgoEscHash p AND emask t) = Some i" "unat i = step t (home t p) j"
      "j < length (eslots t)" "unat i < length (eslots t)" "findStops p (eslots t ! unat i)"
      "\<And>j'. j' < j \<Longrightarrow> \<not> findStops p (eslots t ! step t (home t p) j')"
    by (rule probe_home [OF assms, of "findStops p" p]) auto
  note lt = i(4)
  show ?thesis
  proof (cases "eslots t ! unat i = EmptySlot")
    case True
    have "p \<notin> eobj ` recs (eslots t)"
    proof
      assume "p \<in> eobj ` recs (eslots t)"
      then obtain r where "RecSlot r \<in> set (eslots t)" and p: "p = eobj r" by (auto simp: recs_def)
      then obtain k where k: "k < length (eslots t)" "eslots t ! k = RecSlot r" by (auto simp: in_set_conv_nth)
      then obtain j' where j': "step t (home t p) j' = k" "\<And>j''. j'' < j' \<Longrightarrow> eslots t ! step t (home t p) j'' \<noteq> EmptySlot"
        using tabOkD(4) [OF assms k(1)] p by (auto simp: found_def)
      have "\<not> j' < j" using i(6) [of j'] j'(1) k(2) p by auto
      moreover have "\<not> j < j'" using j'(2) [of j] True i(2) by auto
      ultimately have "j' = j" by simp
      then show False using True i(2) j'(1) k(2) by simp
    qed
    then show ?thesis using i(1) True by (simp add: fgoEscFind_def)
  next
    case False
    then obtain r where "eslots t ! unat i = RecSlot r" "eobj r = p" using i(5) by (auto simp: findStops_iff)
    then show ?thesis using i(1) lt by (simp add: fgoEscFind_def)
  qed
qed

section \<open>Placing a record\<close>

lemma length_putSlot [simp]: "length (eslots (putSlot i s t)) = length (eslots t)" "emask (putSlot i s t) = emask t" "eused (putSlot i s t) = eused t"
  by (simp_all add: putSlot_def)

lemma walk_put [simp]: "home (putSlot i s t) p = home t p" "step (putSlot i s t) k j = step t k j"
  "home (t\<lparr>eused := n\<rparr>) p = home t p" "step (t\<lparr>eused := n\<rparr>) k j = step t k j"
  by (simp_all add: home_def step_def)

lemma sized_put [simp]: "sized (putSlot i s t) = sized t" "sized (t\<lparr>eused := n\<rparr>) = sized t"
  by (simp_all add: sized_def)

lemma eslots_put: "unat i < length (eslots t) \<Longrightarrow> eslots (putSlot i s t) ! k = (if k = unat i then s else eslots t ! k)"
  by (simp add: putSlot_def nth_list_update)

lemma fullSlots_put:
  assumes "i < length ss" and "s \<noteq> EmptySlot"
  shows "fullSlots (ss[i := s]) = insert i (fullSlots ss)"
  using assms by (auto simp: fullSlots_def nth_list_update)

lemma recs_put:
  assumes "i < length ss" and "isFree (ss ! i)"
  shows "recs (ss[i := RecSlot r]) = insert r (recs ss)"
proof -
  have "r' \<in> recs (ss[i := RecSlot r]) \<longleftrightarrow> r' = r \<or> r' \<in> recs ss" for r'
  proof -
    have "RecSlot r' \<in> set (ss[i := RecSlot r]) \<longleftrightarrow> (\<exists>k < length ss. (if k = i then RecSlot r else ss ! k) = RecSlot r')"
      by (auto simp: in_set_conv_nth nth_list_update)
    also have "\<dots> \<longleftrightarrow> r' = r \<or> (\<exists>k < length ss. ss ! k = RecSlot r')"
      using assms by (metis escSlot.inject escSlot.simps(4) escSlot.simps(6) isFree_def)
    finally show ?thesis by (auto simp: recs_def in_set_conv_nth)
  qed
  then show ?thesis by blast
qed

text \<open>Putting a record into the first free slot on its walk keeps the table in order.\<close>

lemma tabOk_put:
  assumes ok: "tabOk t" and new: "eobj r \<notin> eobj ` recs (eslots t)" and j: "unat i = step t (home t (eobj r)) j" "j < length (eslots t)"
    and free: "isFree (eslots t ! unat i)" "\<And>j'. j' < j \<Longrightarrow> eslots t ! step t (home t (eobj r)) j' \<noteq> EmptySlot"
    and room: "(eused t + 1) * 2 \<le> length (eslots t)"
    and u: "u = (if eslots t ! unat i = EmptySlot then eused t + 1 else eused t)"
  shows "tabOk ((putSlot i (RecSlot r) t)\<lparr>eused := u\<rparr>)" and "recs (eslots (putSlot i (RecSlot r) t)) = insert r (recs (eslots t))"
proof -
  let ?t = "(putSlot i (RecSlot r) t)\<lparr>eused := u\<rparr>"
  have lt: "unat i < length (eslots t)" unfolding j(1) by (rule step_less [OF tabOkD(1) [OF ok]])
  note at = eslots_put [OF lt]
  have keep: "eslots t ! k \<noteq> EmptySlot \<Longrightarrow> eslots ?t ! k \<noteq> EmptySlot" for k by (simp add: at)
  have old: "eobj r' \<noteq> eobj r" if "k < length (eslots t)" "eslots t ! k = RecSlot r'" for k r'
    using new that nth_mem [OF that(1)] by (force simp: recs_def image_iff)
  have full: "fullSlots (eslots ?t) = insert (unat i) (fullSlots (eslots t))"
    using fullSlots_put [OF lt, of "RecSlot r"] by (simp add: putSlot_def)
  have "u = card (fullSlots (eslots ?t))"
    unfolding full using tabOkD(2) [OF ok] lt by (simp add: u fullSlots_def card_insert_if)
  moreover have "found ?t k" if k: "k < length (eslots ?t)" for k
    unfolding found_def
  proof (intro allI impI)
    fix r' assume r': "eslots ?t ! k = RecSlot r'"
    show "\<exists>j < length (eslots ?t). step ?t (home ?t (eobj r')) j = k \<and> (\<forall>j' < j. eslots ?t ! step ?t (home ?t (eobj r')) j' \<noteq> EmptySlot)"
    proof (cases "k = unat i")
      case True
      then have "r' = r" using r' by (simp add: at)
      then show ?thesis using True j free(2) keep by auto
    next
      case False
      then have "eslots t ! k = RecSlot r'" using r' by (simp add: at)
      then show ?thesis using tabOkD(4) [OF ok, of k] k keep unfolding found_def by fastforce
    qed
  qed
  moreover have "k = k'" if "k < length (eslots ?t)" "k' < length (eslots ?t)" "eslots ?t ! k = RecSlot s" "eslots ?t ! k' = RecSlot s'" "eobj s = eobj s'" for k k' s s'
    using that tabOkD(5) [OF ok, of k k' s s'] old [of k s] old [of k' s'] by (auto simp: at split: if_splits)
  moreover have "u * 2 \<le> length (eslots ?t)" using room tabOkD(3) [OF ok] by (simp add: u)
  ultimately show "tabOk ?t" using tabOkD(1) [OF ok] by (simp add: tabOk_def)
  show "recs (eslots (putSlot i (RecSlot r) t)) = insert r (recs (eslots t))"
    using recs_put [OF lt free(1)] by (simp add: putSlot_def)
qed

section \<open>Moving records to a new table\<close>

fun recList :: "escSlot list \<Rightarrow> escRec list" where
  "recList [] = []"
| "recList (RecSlot r # ss) = r # recList ss"
| "recList (_ # ss) = recList ss"

lemma set_recList: "set (recList ss) = recs ss"
  by (induction ss rule: recList.induct) (auto simp: recs_def)

lemma distinct_recList:
  assumes "\<And>i j r r'. i < length ss \<Longrightarrow> j < length ss \<Longrightarrow> ss ! i = RecSlot r \<Longrightarrow> ss ! j = RecSlot r' \<Longrightarrow> eobj r = eobj r' \<Longrightarrow> i = j"
  shows "distinct (map eobj (recList ss))"
  using assms
proof (induction ss)
  case (Cons s ss)
  have tail: "i = j" if "i < length ss" "j < length ss" "ss ! i = RecSlot r" "ss ! j = RecSlot r'" "eobj r = eobj r'" for i j r r'
    using Cons.prems [of "Suc i" "Suc j" r r'] that by simp
  have "distinct (map eobj (recList ss))" by (rule Cons.IH [OF tail])
  moreover have "eobj r \<noteq> eobj r'" if "s = RecSlot r" "r' \<in> set (recList ss)" for r r'
  proof
    assume eq: "eobj r = eobj r'"
    have "RecSlot r' \<in> set ss" using that(2) by (simp add: set_recList recs_def)
    then obtain i where "i < length ss" "ss ! i = RecSlot r'" by (auto simp: in_set_conv_nth)
    then show False using Cons.prems [of 0 "Suc i" r r'] that(1) eq by simp
  qed
  ultimately show ?case by (cases s) auto
qed simp

lemma tabOk_distinct: "tabOk t \<Longrightarrow> distinct (map eobj (recList (eslots t)))"
  by (rule distinct_recList) (rule tabOkD(5))

lemma card_recs:
  assumes "tabOk t"
  shows "card (recs (eslots t)) = length (recList (eslots t))"
proof -
  have "distinct (recList (eslots t))" using tabOk_distinct [OF assms] by (simp add: distinct_map)
  then show ?thesis by (simp add: distinct_card flip: set_recList)
qed

lemma newTab_ok:
  assumes "10 \<le> k" and "k \<le> 30"
  shows "tabOk (fgoEscNewTab (2 ^ k))" and "recs (eslots (fgoEscNewTab (2 ^ k))) = {}" and "eused (fgoEscNewTab (2 ^ k)) = 0"
    and "length (eslots (fgoEscNewTab n)) = n"
proof -
  have "fullSlots (replicate (2 ^ k) EmptySlot) = {}" by (auto simp: fullSlots_def)
  then show "tabOk (fgoEscNewTab (2 ^ k))"
    using assms by (auto simp: tabOk_def sized_def fgoEscNewTab_def found_def)
qed (auto simp: fgoEscNewTab_def recs_def)

lemma rehash_ok:
  assumes "tabOk nt" and "distinct (map eobj (recList ss))" and "eobj ` set (recList ss) \<inter> eobj ` recs (eslots nt) = {}"
    and "(eused nt + length (recList ss)) * 2 \<le> length (eslots nt)"
  shows "\<exists>t. rehash ss nt = Some t \<and> tabOk t \<and> recs (eslots t) = recs (eslots nt) \<union> set (recList ss) \<and>
    eused t = eused nt + length (recList ss) \<and> length (eslots t) = length (eslots nt)"
  using assms
proof (induction ss nt rule: rehash.induct)
  case (2 r ss nt)
  obtain i j where i: "probe isEmpty nt (fgoEscHash (eobj r) AND emask nt) = Some i" "unat i = step nt (home nt (eobj r)) j"
      "j < length (eslots nt)" "unat i < length (eslots nt)" "isEmpty (eslots nt ! unat i)"
      "\<And>j'. j' < j \<Longrightarrow> \<not> isEmpty (eslots nt ! step nt (home nt (eobj r)) j')"
    by (rule probe_home [OF 2(2), of isEmpty "eobj r"]) (auto simp: isEmpty_def)
  define nt1 where "nt1 = (putSlot i (RecSlot r) nt)\<lparr>eused := eused nt + 1\<rparr>"
  have new: "eobj r \<notin> eobj ` recs (eslots nt)" using 2(4) by auto
  have put: "tabOk nt1" "recs (eslots nt1) = insert r (recs (eslots nt))"
    unfolding nt1_def
    using tabOk_put [OF 2(2) new i(2,3), of "eused nt + 1"] i(5,6) 2(5) by (simp_all add: isEmpty_def isFree_def)
  have "\<exists>t. rehash ss nt1 = Some t \<and> tabOk t \<and> recs (eslots t) = recs (eslots nt1) \<union> set (recList ss) \<and>
    eused t = eused nt1 + length (recList ss) \<and> length (eslots t) = length (eslots nt1)"
    by (rule 2(1) [OF i(1), folded nt1_def, OF put(1)]) (use 2(3-5) put in \<open>auto simp: nt1_def\<close>)
  then show ?case using i(1) put by (auto simp: nt1_def)
qed auto

section \<open>Inserting\<close>

lemma escOkD: "escOk st \<Longrightarrow> etab st = Some t \<Longrightarrow> tabOk t" "escOk st \<Longrightarrow> elive st = card (recsOf st)"
  by (auto simp: escOk_def)

lemma recs_used: "tabOk t \<Longrightarrow> length (recList (eslots t)) \<le> eused t"
proof -
  assume ok: "tabOk t"
  have le: "length (recList ss) \<le> card (fullSlots ss)" for ss
  proof (induction ss)
    case (Cons s ss)
    have "fullSlots (s # ss) = (if s = EmptySlot then {} else {0}) \<union> Suc ` fullSlots ss"
    proof (rule set_eqI)
      show "i \<in> fullSlots (s # ss) \<longleftrightarrow> i \<in> (if s = EmptySlot then {} else {0}) \<union> Suc ` fullSlots ss" for i
        by (cases i) (auto simp: fullSlots_def)
    qed
    then have "card (fullSlots (s # ss)) = (if s = EmptySlot then 0 else 1) + card (fullSlots ss)"
      by (simp add: card_image card_insert_if)
    then show ?case using Cons by (cases s) simp_all
  qed simp
  then show ?thesis using tabOkD(2) [OF ok] by simp
qed

lemma escGrow_ok:
  assumes "escOk st" and "elive st < 2 ^ 28"
  shows "\<exists>t. escGrow st = Some t \<and> tabOk t \<and> recs (eslots t) = recsOf st \<and> (eused t + 1) * 2 \<le> length (eslots t)"
proof (cases "etab st")
  case None
  then show ?thesis using newTab_ok [of 10] by (simp add: escGrow_def recsOf_def)
next
  case (Some t)
  have ok: "tabOk t" by (rule escOkD(1) [OF assms(1) Some])
  have live: "elive st = length (recList (eslots t))"
    using escOkD(2) [OF assms(1)] card_recs [OF ok] Some by (simp add: recsOf_def)
  show ?thesis
  proof (cases "(eused t + 1) * 2 > length (eslots t)")
    case True
    obtain k where k: "10 \<le> k" "k \<le> 30" "length (eslots t) = 2 ^ k" using tabOkD(1) [OF ok] by (auto simp: sized_def)
    define k' where "k' = (if (elive st + 1) * 4 > length (eslots t) then Suc k else k)"
    have n: "(if (elive st + 1) * 4 > length (eslots t) then length (eslots t) * 2 else length (eslots t)) = 2 ^ k'"
      by (simp add: k'_def k(3))
    have "k < 30" if "(elive st + 1) * 4 > length (eslots t)"
    proof -
      have "(2 :: nat) ^ k < 2 ^ 30" using that assms(2) unfolding k(3) by simp
      then show ?thesis by (rule power_less_imp_less_exp [rotated]) simp
    qed
    then have k': "10 \<le> k'" "k' \<le> 30" using k(1,2) by (auto simp: k'_def)
    have "elive st * 2 \<le> 2 ^ k" using recs_used [OF ok] tabOkD(3) [OF ok] by (simp add: live k(3))
    moreover have "(2 :: nat) ^ 10 \<le> 2 ^ k" by (rule power_increasing [OF k(1)]) simp
    ultimately have room: "(elive st + 1) * 2 \<le> 2 ^ k'" by (auto simp: k'_def k(3))
    have "\<exists>t'. rehash (eslots t) (fgoEscNewTab (2 ^ k')) = Some t' \<and> tabOk t' \<and>
      recs (eslots t') = recs (eslots (fgoEscNewTab (2 ^ k'))) \<union> set (recList (eslots t)) \<and>
      eused t' = eused (fgoEscNewTab (2 ^ k')) + length (recList (eslots t)) \<and> length (eslots t') = length (eslots (fgoEscNewTab (2 ^ k')))"
      by (rule rehash_ok [OF newTab_ok(1) [OF k'] tabOk_distinct [OF ok]]) (use newTab_ok [OF k'] room live in simp_all)
    moreover have "escGrow st = rehash (eslots t) (fgoEscNewTab (2 ^ k'))" using True by (simp add: escGrow_def Some n [symmetric])
    ultimately show ?thesis
      using room live newTab_ok [OF k'] by (auto simp: Some recsOf_def set_recList)
  qed (use Some ok in \<open>simp add: escGrow_def recsOf_def\<close>)
qed

lemma insert_ok:
  assumes "escOk st" and "p \<notin> eobj ` recsOf st" and "elive st < 2 ^ 28"
  shows "\<exists>st'. fgoEscInsert p cyc st = Some st' \<and> escOk st' \<and> recsOf st' = insert \<lparr>eobj = p, emark = cyc\<rparr> (recsOf st)"
proof -
  let ?r = "\<lparr>eobj = p, emark = cyc\<rparr>"
  obtain t where t: "escGrow st = Some t" "tabOk t" "recs (eslots t) = recsOf st" "(eused t + 1) * 2 \<le> length (eslots t)"
    using escGrow_ok [OF assms(1,3)] by blast
  obtain i j where i: "probe isFree t (fgoEscHash p AND emask t) = Some i" "unat i = step t (home t p) j"
      "j < length (eslots t)" "unat i < length (eslots t)" "isFree (eslots t ! unat i)"
      "\<And>j'. j' < j \<Longrightarrow> \<not> isFree (eslots t ! step t (home t p) j')"
    by (rule probe_home [OF t(2), of isFree p]) (auto simp: isFree_def)
  define u where "u = (if eslots t ! unat i = EmptySlot then eused t + 1 else eused t)"
  have put: "tabOk ((putSlot i (RecSlot ?r) t)\<lparr>eused := u\<rparr>)" "recs (eslots (putSlot i (RecSlot ?r) t)) = insert ?r (recs (eslots t))"
    using tabOk_put [OF t(2), of ?r i j u] assms(2) t(3,4) i u_def by (auto simp: isFree_def)
  have res: "fgoEscInsert p cyc st = Some \<lparr>etab = Some ((putSlot i (RecSlot ?r) t)\<lparr>eused := u\<rparr>), elive = elive st + 1\<rparr>"
    using t(1) i(1) by (simp add: fgoEscInsert_def u_def putSlot_def Let_def)
  have "finite (recsOf st)" unfolding t(3) [symmetric] set_recList [symmetric] by simp
  moreover have "?r \<notin> recsOf st" using assms(2) by (auto simp: image_iff)
  ultimately have "card (insert ?r (recsOf st)) = elive st + 1" using escOkD(2) [OF assms(1)] by simp
  then show ?thesis using res put t(3) by (simp add: escOk_def recsOf_def)
qed

section \<open>Sweeping\<close>

definition buried :: "(escRec \<Rightarrow> bool) \<Rightarrow> escSlot \<Rightarrow> escSlot" where
  "buried dead s = (case s of RecSlot r \<Rightarrow> if dead r then TombSlot else s | _ \<Rightarrow> s)"

lemma sweepSlots_exact:
  "sweepSlots dead ss n dropped =
     (map (buried dead) ss, n - length (filter dead (recList ss)), rev (filter dead (recList ss)) @ dropped)"
proof (induction ss arbitrary: n dropped)
  case (Cons s ss)
  then show ?case by (cases s) (simp_all add: buried_def)
qed simp

lemma buried_simps [simp]:
  "buried dead s = EmptySlot \<longleftrightarrow> s = EmptySlot" "buried dead s = RecSlot r \<longleftrightarrow> s = RecSlot r \<and> \<not> dead r"
  by (auto simp: buried_def split: escSlot.splits)

lemma recList_buried: "recList (map (buried dead) ss) = filter (\<lambda>r. \<not> dead r) (recList ss)"
  by (induction ss rule: recList.induct) (simp_all add: buried_def)

lemma tabOk_buried:
  assumes "tabOk t"
  shows "tabOk (t\<lparr>eslots := map (buried dead) (eslots t)\<rparr>)" (is "tabOk ?t")
proof -
  have walk: "home ?t p = home t p" "step ?t i j = step t i j" for p i j by (simp_all add: home_def step_def)
  have lt: "step t i j < length (eslots t)" for i j by (rule step_less [OF tabOkD(1) [OF assms]])
  have "fullSlots (map (buried dead) (eslots t)) = fullSlots (eslots t)" by (auto simp: fullSlots_def)
  moreover have "sized ?t" using tabOkD(1) [OF assms] by (simp add: sized_def)
  moreover have "found ?t i" if "i < length (eslots ?t)" for i
    using tabOkD(4) [OF assms, of i] that lt by (fastforce simp: found_def walk)
  moreover have "i = j" if "i < length (eslots ?t)" "j < length (eslots ?t)" "eslots ?t ! i = RecSlot r" "eslots ?t ! j = RecSlot r'" "eobj r = eobj r'" for i j r r'
    using tabOkD(5) [OF assms, of i j r r'] that by simp
  ultimately show ?thesis using tabOkD(2,3) [OF assms] by (intro tabOkI) simp_all
qed

lemma sweep_ok:
  assumes "escOk st"
  shows "\<exists>st' ds. escSweep dead st = Some (st', ds) \<and> escOk st' \<and> recsOf st' = {r \<in> recsOf st. \<not> dead r} \<and>
    set ds = {r \<in> recsOf st. dead r} \<and> distinct (map eobj ds)"
proof (cases "etab st")
  case None
  then show ?thesis using assms by (auto simp: escSweep_def recsOf_def)
next
  case (Some t)
  have ok: "tabOk t" by (rule escOkD(1) [OF assms Some])
  let ?ss = "map (buried dead) (eslots t)" and ?ds = "rev (filter dead (recList (eslots t)))"
  let ?n = "elive st - length (filter dead (recList (eslots t)))"
  have live: "elive st = length (recList (eslots t))"
    using escOkD(2) [OF assms] card_recs [OF ok] Some by (simp add: recsOf_def)
  have n: "?n = length (recList ?ss)"
    using sum_length_filter_compl [of dead "recList (eslots t)"] by (simp add: live recList_buried)
  have recs: "recs ?ss = {r \<in> recsOf st. \<not> dead r}"
    by (simp add: recList_buried recsOf_def Some flip: set_recList)
  have ds: "set ?ds = {r \<in> recsOf st. dead r}" "distinct (map eobj ?ds)"
    using tabOk_distinct [OF ok] by (auto simp: recsOf_def Some rev_map [symmetric] distinct_map_filter simp flip: set_recList)
  have tab: "tabOk (t\<lparr>eslots := ?ss\<rparr>)" by (rule tabOk_buried [OF ok])
  have "\<exists>t'. (if ?n * 8 < eused t \<and> eused t > 1024 then rehash ?ss (fgoEscNewTab (length ?ss)) else Some (t\<lparr>eslots := ?ss\<rparr>)) = Some t' \<and>
      tabOk t' \<and> recs (eslots t') = recs ?ss"
  proof (cases "?n * 8 < eused t \<and> eused t > 1024")
    case True
    obtain k where k: "10 \<le> k" "k \<le> 30" "length (eslots t) = 2 ^ k" using tabOkD(1) [OF ok] by (auto simp: sized_def)
    have "\<exists>t'. rehash ?ss (fgoEscNewTab (2 ^ k)) = Some t' \<and> tabOk t' \<and>
        recs (eslots t') = recs (eslots (fgoEscNewTab (2 ^ k))) \<union> set (recList ?ss) \<and>
        eused t' = eused (fgoEscNewTab (2 ^ k)) + length (recList ?ss) \<and> length (eslots t') = length (eslots (fgoEscNewTab (2 ^ k)))"
    proof (rule rehash_ok [OF newTab_ok(1) [OF k(1,2)]])
      show "distinct (map eobj (recList ?ss))" using tabOk_distinct [OF tab] by simp
      show "(eused (fgoEscNewTab (2 ^ k)) + length (recList ?ss)) * 2 \<le> length (eslots (fgoEscNewTab (2 ^ k)))"
        using True tabOkD(3) [OF ok] n k(3) newTab_ok [OF k(1,2)] by simp
    qed (simp add: newTab_ok [OF k(1,2)])
    then show ?thesis using True k(3) newTab_ok(2) [OF k(1,2)] by (auto simp: set_recList)
  qed (use tab in auto)
  then obtain t' where t': "(if ?n * 8 < eused t \<and> eused t > 1024 then rehash ?ss (fgoEscNewTab (length ?ss)) else Some (t\<lparr>eslots := ?ss\<rparr>)) = Some t'"
      "tabOk t'" "recs (eslots t') = recs ?ss" by blast
  have "escSweep dead st = Some (\<lparr>etab = Some t', elive = ?n\<rparr>, ?ds)"
    using t'(1) by (simp add: escSweep_def Some sweepSlots_exact)
  moreover have "card (recs ?ss) = ?n" using card_recs [OF tab] n by simp
  ultimately show ?thesis using t'(2,3) recs ds by (simp add: escOk_def recsOf_def)
qed

section \<open>Stamping\<close>

text \<open>The garbage collector finds a record and sets its mark.\<close>

definition escStamp :: "uintptr \<Rightarrow> 32 word \<Rightarrow> escSt \<Rightarrow> escSt" where
  "escStamp i cyc st =
     (case etab st of
        None \<Rightarrow> st
      | Some t \<Rightarrow> (case eslots t ! unat i of
          RecSlot r \<Rightarrow> st\<lparr>etab := Some (putSlot i (RecSlot (r\<lparr>emark := cyc\<rparr>)) t)\<rparr>
        | _ \<Rightarrow> st))"

lemma stamp_ok:
  assumes "escOk st" and "etab st = Some t" and i: "unat i < length (eslots t)" "eslots t ! unat i = RecSlot r"
  shows "escOk (escStamp i cyc st)" and "recsOf (escStamp i cyc st) = insert (r\<lparr>emark := cyc\<rparr>) (recsOf st - {r})"
proof -
  let ?r = "r\<lparr>emark := cyc\<rparr>"
  let ?t = "putSlot i (RecSlot ?r) t"
  have ok: "tabOk t" by (rule escOkD(1) [OF assms(1,2)])
  note at = eslots_put [OF i(1)]
  have st: "escStamp i cyc st = st\<lparr>etab := Some ?t\<rparr>" using assms(2) i(2) by (simp add: escStamp_def)
  have full: "fullSlots (eslots ?t) = fullSlots (eslots t)"
    using i by (auto simp: fullSlots_def at putSlot_def nth_list_update)
  have empty: "eslots ?t ! k = EmptySlot \<longleftrightarrow> eslots t ! k = EmptySlot" for k using i by (simp add: at)
  have obj: "\<exists>r''. eslots t ! k = RecSlot r'' \<and> eobj r'' = eobj r'" if "eslots ?t ! k = RecSlot r'" for k r'
    using that i(2) by (auto simp: at split: if_splits)
  have "found ?t k" if "k < length (eslots ?t)" for k
    unfolding found_def
  proof (intro allI impI)
    fix r' assume "eslots ?t ! k = RecSlot r'"
    then obtain r'' where "eslots t ! k = RecSlot r''" "eobj r'' = eobj r'" using obj by blast
    then show "\<exists>j < length (eslots ?t). step ?t (home ?t (eobj r')) j = k \<and> (\<forall>j' < j. eslots ?t ! step ?t (home ?t (eobj r')) j' \<noteq> EmptySlot)"
      using tabOkD(4) [OF ok, of k] that unfolding found_def empty by fastforce
  qed
  moreover have "k = k'" if k: "k < length (eslots ?t)" "k' < length (eslots ?t)" "eslots ?t ! k = RecSlot s" "eslots ?t ! k' = RecSlot s'" "eobj s = eobj s'" for k k' s s'
  proof -
    obtain u u' where "eslots t ! k = RecSlot u" "eobj u = eobj s" "eslots t ! k' = RecSlot u'" "eobj u' = eobj s'"
      using obj k(3,4) by metis
    then show ?thesis using tabOkD(5) [OF ok, of k k' u u'] k by simp
  qed
  ultimately have tab: "tabOk ?t" using tabOkD(1-3) [OF ok] by (simp add: tabOk_def full)
  have r: "r \<in> recs (eslots t)" using i by (auto simp: recs_def in_set_conv_nth)
  have recs: "recs (eslots ?t) = insert ?r (recs (eslots t) - {r})"
  proof (intro set_eqI iffI)
    fix r' assume "r' \<in> recs (eslots ?t)"
    then obtain k where k: "k < length (eslots t)" "eslots ?t ! k = RecSlot r'" by (auto simp: recs_def in_set_conv_nth)
    then show "r' \<in> insert ?r (recs (eslots t) - {r})"
      using i tabOkD(5) [OF ok k(1) i(1), of r' r] by (auto simp: at recs_def in_set_conv_nth split: if_splits)
  next
    fix r' assume "r' \<in> insert ?r (recs (eslots t) - {r})"
    then consider "r' = ?r" | "r' \<in> recs (eslots t)" "r' \<noteq> r" by blast
    then show "r' \<in> recs (eslots ?t)"
    proof cases
      case 1
      then have "eslots ?t ! unat i = RecSlot r'" by (simp add: at)
      then show ?thesis using i(1) nth_mem [of "unat i" "eslots ?t"] by (simp add: recs_def)
    next
      case 2
      then obtain k where k: "k < length (eslots t)" "eslots t ! k = RecSlot r'" by (auto simp: recs_def in_set_conv_nth)
      then have "eslots ?t ! k = RecSlot r'" using 2(2) i(2) by (auto simp: at)
      then show ?thesis using k(1) nth_mem [of k "eslots ?t"] by (simp add: recs_def)
    qed
  qed
  show "recsOf (escStamp i cyc st) = insert ?r (recsOf st - {r})" using recs assms(2) by (simp add: st recsOf_def)
  have "eobj s \<noteq> eobj r" if s: "s \<in> recs (eslots t) - {r}" for s
  proof -
    obtain k where k: "k < length (eslots t)" "eslots t ! k = RecSlot s" using s by (auto simp: recs_def in_set_conv_nth)
    then show ?thesis using tabOkD(5) [OF ok k(1) i(1) k(2) i(2)] i(2) s by auto
  qed
  then have "?r \<notin> recs (eslots t) - {r}" by force
  moreover have "finite (recs (eslots t))" by (simp flip: set_recList)
  ultimately have "card (recs (eslots ?t)) = card (recs (eslots t))"
    using r card_Suc_Diff1 [of "recs (eslots t)" r] by (simp add: recs)
  then show "escOk (escStamp i cyc st)"
    using tab escOkD(2) [OF assms(1)] assms(2) by (simp add: st escOk_def recsOf_def)
qed

section \<open>The table as a map\<close>

text \<open>\<open>fgoEscMark\<close> finds the record of an object and stamps it, unless this cycle did already.\<close>

definition escMark :: "uintptr \<Rightarrow> 32 word \<Rightarrow> escSt \<Rightarrow> escSt option" where
  "escMark p cyc st =
     Option.bind (fgoEscFind (etab st) p) (\<lambda>f.
       case f of
         None \<Rightarrow> Some st
       | Some (i, r) \<Rightarrow> Some (if emark r = cyc then st else escStamp i cyc st))"

definition lookupMark :: "escSt \<Rightarrow> uintptr \<Rightarrow> 32 word option option" where
  "lookupMark st p = map_option (map_option (\<lambda>(i, r). emark r)) (fgoEscFind (etab st) p)"

definition escDrop :: "uintptr list \<Rightarrow> escSt \<Rightarrow> escSt option" where
  "escDrop ps st = map_option fst (escSweep (\<lambda>r. eobj r \<in> set ps) st)"

definition emptyEsc :: escSt where
  "emptyEsc = \<lparr>etab = None, elive = 0\<rparr>"

datatype escOp = HandOp uintptr "32 word" | MarkOp uintptr "32 word" | DropOp "uintptr list"

fun recordRun :: "(uintptr \<Rightarrow> 32 word \<Rightarrow> 't \<Rightarrow> 't option) \<Rightarrow> (uintptr \<Rightarrow> 32 word \<Rightarrow> 't \<Rightarrow> 't option) \<Rightarrow>
    (uintptr list \<Rightarrow> 't \<Rightarrow> 't option) \<Rightarrow> escOp list \<Rightarrow> 't \<Rightarrow> 't option" where
  "recordRun ins mrk drp [] t = Some t"
| "recordRun ins mrk drp (HandOp p c # ops) t = Option.bind (ins p c t) (recordRun ins mrk drp ops)"
| "recordRun ins mrk drp (MarkOp p c # ops) t = Option.bind (mrk p c t) (recordRun ins mrk drp ops)"
| "recordRun ins mrk drp (DropOp ps # ops) t = Option.bind (drp ps t) (recordRun ins mrk drp ops)"

text \<open>The same operations on a map, where at most \<open>cap\<close> objects are handed off, each once while
  its record is there.\<close>

fun mapRun :: "nat \<Rightarrow> escOp list \<Rightarrow> (uintptr \<Rightarrow> 32 word option) \<Rightarrow> (uintptr \<Rightarrow> 32 word option) option" where
  "mapRun cap [] m = Some m"
| "mapRun cap (HandOp p c # ops) m = (case cap of 0 \<Rightarrow> None | Suc cap \<Rightarrow> if m p \<noteq> None then None else mapRun cap ops (m(p \<mapsto> c)))"
| "mapRun cap (MarkOp p c # ops) m = mapRun cap ops (if m p = None then m else m(p \<mapsto> c))"
| "mapRun cap (DropOp ps # ops) m = mapRun cap ops (m |` (- set ps))"

locale record_table =
  fixes ok :: "'t \<Rightarrow> bool" and abs :: "'t \<Rightarrow> uintptr \<Rightarrow> 32 word option" and cap :: nat
    and ins :: "uintptr \<Rightarrow> 32 word \<Rightarrow> 't \<Rightarrow> 't option" and mrk :: "uintptr \<Rightarrow> 32 word \<Rightarrow> 't \<Rightarrow> 't option"
    and drp :: "uintptr list \<Rightarrow> 't \<Rightarrow> 't option" and lookup :: "'t \<Rightarrow> uintptr \<Rightarrow> 32 word option option"
  assumes abs_finite: "ok t \<Longrightarrow> finite (dom (abs t))"
    and lookup_abs: "ok t \<Longrightarrow> lookup t p = Some (abs t p)"
    and ins_abs: "ok t \<Longrightarrow> abs t p = None \<Longrightarrow> card (dom (abs t)) < cap \<Longrightarrow> \<exists>t'. ins p c t = Some t' \<and> ok t' \<and> abs t' = (abs t)(p \<mapsto> c)"
    and mrk_abs: "ok t \<Longrightarrow> \<exists>t'. mrk p c t = Some t' \<and> ok t' \<and> abs t' = (if abs t p = None then abs t else (abs t)(p \<mapsto> c))"
    and drp_abs: "ok t \<Longrightarrow> \<exists>t'. drp ps t = Some t' \<and> ok t' \<and> abs t' = abs t |` (- set ps)"
begin

lemma run_abs:
  assumes "ok t" and "card (dom (abs t)) + n \<le> cap" and "mapRun n ops (abs t) = Some m"
  shows "\<exists>t'. recordRun ins mrk drp ops t = Some t' \<and> ok t' \<and> abs t' = m"
  using assms
proof (induction ops arbitrary: t n)
  case (Cons op ops)
  show ?case
  proof (cases op)
    case (HandOp p c)
    obtain k where k: "n = Suc k" "abs t p = None" "mapRun k ops ((abs t)(p \<mapsto> c)) = Some m"
      using Cons.prems(3) HandOp by (auto split: nat.splits if_splits)
    obtain t' where t': "ins p c t = Some t'" "ok t'" "abs t' = (abs t)(p \<mapsto> c)"
      using ins_abs [OF Cons.prems(1) k(2), of c] Cons.prems(2) k(1) by auto
    have "p \<notin> dom (abs t)" using k(2) by (simp add: domIff)
    then have "card (dom (abs t')) = Suc (card (dom (abs t)))" using abs_finite [OF Cons.prems(1)] by (simp add: t'(3))
    then have "\<exists>t''. recordRun ins mrk drp ops t' = Some t'' \<and> ok t'' \<and> abs t'' = m"
      using Cons.prems(2) k(1,3) by (intro Cons.IH [OF t'(2), of k]) (simp_all only: t'(3))
    then show ?thesis using t'(1) HandOp by simp
  next
    case (MarkOp p c)
    obtain t' where t': "mrk p c t = Some t'" "ok t'" "abs t' = (if abs t p = None then abs t else (abs t)(p \<mapsto> c))"
      using mrk_abs [OF Cons.prems(1)] by blast
    have "dom (abs t') = dom (abs t)" by (auto simp: t'(3))
    then have "\<exists>t''. recordRun ins mrk drp ops t' = Some t'' \<and> ok t'' \<and> abs t'' = m"
      using Cons.prems(2,3) MarkOp by (intro Cons.IH [OF t'(2), of n]) (simp_all add: t'(3) split: if_splits)
    then show ?thesis using t'(1) MarkOp by simp
  next
    case (DropOp ps)
    obtain t' where t': "drp ps t = Some t'" "ok t'" "abs t' = abs t |` (- set ps)"
      using drp_abs [OF Cons.prems(1)] by blast
    have "card (dom (abs t')) \<le> card (dom (abs t))"
      using abs_finite [OF Cons.prems(1)] by (intro card_mono) (auto simp: t'(3))
    then show ?thesis using Cons.IH [of t' n] t' Cons.prems(2,3) DropOp by simp
  qed
qed simp

lemma run_lookup:
  assumes "ok t" and "card (dom (abs t)) + n \<le> cap" and "mapRun n ops (abs t) = Some m"
  shows "\<exists>t'. recordRun ins mrk drp ops t = Some t' \<and> (\<forall>p. lookup t' p = Some (m p))"
  using run_abs [OF assms] lookup_abs by metis

end

definition escMap :: "escSt \<Rightarrow> uintptr \<Rightarrow> 32 word option" where
  "escMap st = (case etab st of None \<Rightarrow> Map.empty | Some t \<Rightarrow> map_of (map (\<lambda>r. (eobj r, emark r)) (recList (eslots t))))"

lemma escMap_Some:
  assumes "escOk st"
  shows "escMap st p = Some c \<longleftrightarrow> \<lparr>eobj = p, emark = c\<rparr> \<in> recsOf st"
proof (cases "etab st")
  case (Some t)
  have "distinct (map fst (map (\<lambda>r. (eobj r, emark r)) (recList (eslots t))))"
    using tabOk_distinct [OF escOkD(1) [OF assms Some]] by (simp add: o_def)
  then have "escMap st p = Some c \<longleftrightarrow> (p, c) \<in> set (map (\<lambda>r. (eobj r, emark r)) (recList (eslots t)))"
    by (simp only: escMap_def Some option.case map_of_eq_Some_iff)
  also have "\<dots> \<longleftrightarrow> \<lparr>eobj = p, emark = c\<rparr> \<in> recsOf st"
  proof -
    have "(p, c) = (eobj r, emark r) \<longleftrightarrow> r = \<lparr>eobj = p, emark = c\<rparr>" for r by (cases r) auto
    then show ?thesis by (simp add: recsOf_def Some image_iff set_recList)
  qed
  finally show ?thesis .
qed (simp add: escMap_def recsOf_def)

lemma escMap_eqI:
  assumes "escOk st" and "\<And>p c. \<lparr>eobj = p, emark = c\<rparr> \<in> recsOf st \<longleftrightarrow> m p = Some c"
  shows "escMap st = m"
proof
  show "escMap st p = m p" for p
    using escMap_Some [OF assms(1), of p] assms(2) [of p] by (metis option.exhaust)
qed

lemma escMap_None:
  assumes "escOk st"
  shows "escMap st p = None \<longleftrightarrow> p \<notin> eobj ` recsOf st"
proof (cases "escMap st p")
  case None
  have "\<lparr>eobj = eobj r, emark = emark r\<rparr> = r" for r by simp
  then show ?thesis using None escMap_Some [OF assms, of p] by (metis imageE option.distinct(1))
next
  case (Some c)
  then have "\<lparr>eobj = p, emark = c\<rparr> \<in> recsOf st" using escMap_Some [OF assms] by simp
  then show ?thesis using Some by (force simp: image_iff)
qed

lemma recsOf_unique:
  assumes "escOk st" and "r \<in> recsOf st" and "r' \<in> recsOf st" and "eobj r = eobj r'"
  shows "r = r'"
proof (cases "etab st")
  case (Some t)
  then show ?thesis
    using tabOk_distinct [OF escOkD(1) [OF assms(1) Some]] assms(2-4)
    by (auto simp: recsOf_def distinct_map inj_on_def simp flip: set_recList)
qed (use assms in \<open>simp add: recsOf_def\<close>)

lemma finite_recsOf: "finite (recsOf st)"
  by (simp add: recsOf_def split: option.splits flip: set_recList)

lemma dom_escMap: "escOk st \<Longrightarrow> dom (escMap st) = eobj ` recsOf st"
  by (rule set_eqI) (simp add: domIff escMap_None)

lemma card_escMap: "escOk st \<Longrightarrow> card (dom (escMap st)) = elive st"
  using recsOf_unique [of st] by (simp add: dom_escMap escOkD(2) card_image inj_on_def)

lemma find_cases:
  assumes "escOk st"
  obtains (found) i r where "fgoEscFind (etab st) p = Some (Some (i, r))" "r \<in> recsOf st" "eobj r = p"
      "escMap st p = Some (emark r)" "\<And>c. escOk (escStamp i c st)" "\<And>c. recsOf (escStamp i c st) = insert (r\<lparr>emark := c\<rparr>) (recsOf st - {r})"
    | (missing) "fgoEscFind (etab st) p = Some None" "escMap st p = None"
proof (cases "etab st")
  case None
  show thesis by (rule missing) (simp_all add: fgoEscFind_def escMap_def None)
next
  case (Some t)
  have ok: "tabOk t" by (rule escOkD(1) [OF assms Some])
  consider r i where "fgoEscFind (Some t) p = Some (Some (i, r))" "eobj r = p" "unat i < length (eslots t)" "eslots t ! unat i = RecSlot r"
    | "fgoEscFind (Some t) p = Some None" "p \<notin> eobj ` recs (eslots t)"
    using find_exact [OF ok, of p] by blast
  then show thesis
  proof cases
    case (1 r i)
    have r: "r \<in> recsOf st" using 1(3,4) by (auto simp: recsOf_def Some recs_def in_set_conv_nth)
    have "r = \<lparr>eobj = p, emark = emark r\<rparr>" using 1(2) by (cases r) simp
    then have "escMap st p = Some (emark r)" using escMap_Some [OF assms, of p "emark r"] r by simp
    then show thesis using found 1 r stamp_ok [OF assms Some 1(3,4)] Some by simp
  next
    case 2
    then show thesis using missing escMap_None [OF assms, of p] by (simp add: Some recsOf_def)
  qed
qed

lemma lookupMark_abs: "escOk st \<Longrightarrow> lookupMark st p = Some (escMap st p)"
  by (erule find_cases [of st p]) (simp_all add: lookupMark_def)

lemma insert_abs:
  assumes "escOk st" and "escMap st p = None" and "card (dom (escMap st)) < 2 ^ 28"
  shows "\<exists>st'. fgoEscInsert p c st = Some st' \<and> escOk st' \<and> escMap st' = (escMap st)(p \<mapsto> c)"
proof -
  obtain st' where st': "fgoEscInsert p c st = Some st'" "escOk st'" "recsOf st' = insert \<lparr>eobj = p, emark = c\<rparr> (recsOf st)"
    using insert_ok [OF assms(1), of p c] assms(2,3) by (auto simp: escMap_None [OF assms(1)] card_escMap [OF assms(1)])
  have "escMap st' = (escMap st)(p \<mapsto> c)"
  proof (rule escMap_eqI [OF st'(2)])
    show "\<lparr>eobj = q, emark = d\<rparr> \<in> recsOf st' \<longleftrightarrow> ((escMap st)(p \<mapsto> c)) q = Some d" for q d
      using assms(2) escMap_Some [OF assms(1), of q d] by (auto simp: st'(3))
  qed
  then show ?thesis using st' by blast
qed

lemma mark_abs:
  assumes "escOk st"
  shows "\<exists>st'. escMark p c st = Some st' \<and> escOk st' \<and> escMap st' = (if escMap st p = None then escMap st else (escMap st)(p \<mapsto> c))"
  using assms
proof (cases rule: find_cases [of st p])
  case (found i r)
  let ?st = "if emark r = c then st else escStamp i c st"
  have ok: "escOk ?st" using assms found(5) by simp
  have stamped: "r\<lparr>emark := d\<rparr> = \<lparr>eobj = p, emark = d\<rparr>" for d using found(3) by (cases r) simp
  have "escMap ?st = (escMap st)(p \<mapsto> c)"
  proof (rule escMap_eqI [OF ok])
    have same: "\<lparr>eobj = q, emark = d\<rparr> \<noteq> r" if "q \<noteq> p" for q d using found(3) that by auto
    show "\<lparr>eobj = q, emark = d\<rparr> \<in> recsOf ?st \<longleftrightarrow> ((escMap st)(p \<mapsto> c)) q = Some d" for q d
    proof (cases "q = p")
      case False
      then show ?thesis using found(6) escMap_Some [OF assms, of q d] same [OF False] by (auto simp: stamped)
    next
      case True
      have "\<lparr>eobj = p, emark = d\<rparr> \<in> recsOf st - {r} \<longleftrightarrow> False" using recsOf_unique [OF assms _ found(2)] found(3) by fastforce
      moreover have "r = \<lparr>eobj = p, emark = emark r\<rparr>" using found(3) by (cases r) simp
      ultimately show ?thesis using True found(4,6) escMap_Some [OF assms, of p d] by (cases "emark r = c") (auto simp: stamped)
    qed
  qed
  then show ?thesis using found(1,4) ok by (simp add: escMark_def)
next
  case missing
  then show ?thesis using assms by (simp add: escMark_def)
qed

lemma drop_abs:
  assumes "escOk st"
  shows "\<exists>st'. escDrop ps st = Some st' \<and> escOk st' \<and> escMap st' = escMap st |` (- set ps)"
proof -
  obtain st' ds where st': "escSweep (\<lambda>r. eobj r \<in> set ps) st = Some (st', ds)" "escOk st'" "recsOf st' = {r \<in> recsOf st. eobj r \<notin> set ps}"
    using sweep_ok [OF assms, of "\<lambda>r. eobj r \<in> set ps"] by auto
  have "escMap st' = escMap st |` (- set ps)"
  proof (rule escMap_eqI [OF st'(2)])
    show "\<lparr>eobj = q, emark = d\<rparr> \<in> recsOf st' \<longleftrightarrow> (escMap st |` (- set ps)) q = Some d" for q d
      using escMap_Some [OF assms, of q d] by (auto simp: st'(3) restrict_map_def)
  qed
  then show ?thesis using st' by (simp add: escDrop_def)
qed

interpretation escTable: record_table escOk escMap "2 ^ 28" fgoEscInsert escMark escDrop lookupMark
proof
  show "finite (dom (escMap t))" if "escOk t" for t by (simp add: dom_escMap [OF that] finite_recsOf)
qed (simp_all add: lookupMark_abs insert_abs mark_abs drop_abs)

lemma emptyEsc_ok: "escOk emptyEsc" "escMap emptyEsc = Map.empty"
  by (simp_all add: escOk_def emptyEsc_def recsOf_def escMap_def)

text \<open>
  C10: the table of handed-off objects is a map: whatever objects are handed off, stamped and swept,
  every walk over the table ends and a lookup gives the last mark of the object, or none.
\<close>

theorem record_table_is_map:
  assumes "mapRun (2 ^ 28) ops Map.empty = Some m"
  shows "\<exists>st. recordRun fgoEscInsert escMark escDrop ops emptyEsc = Some st \<and> (\<forall>p. lookupMark st p = Some (m p))"
  using escTable.run_lookup [OF emptyEsc_ok(1), of "2 ^ 28" ops m] assms by (simp add: emptyEsc_ok(2))

theorem record_table_is_map_witness:
  "\<exists>st. recordRun fgoEscInsert escMark escDrop [HandOp 32 1, HandOp 64 1, MarkOp 32 2, DropOp [64]] emptyEsc = Some st \<and>
     (\<forall>p. lookupMark st p = Some ([32 \<mapsto> 2] p))"
  by (rule record_table_is_map) (auto simp: restrict_map_def split: nat.split)

end
