(* ===== verification/RcSweep.thy ===== *)
theory RcSweep
  imports RcRun RcState RcEsc
begin

text \<open>
  \<^verbatim>\<open>src/src/runtime/forgo_rc.go\<close>: how the garbage collector marks the objects handed off to it and
  frees the others. What the collector itself does is a parameter: the words it scans in a node (a
  handed-off object, a buffer or an object of its own heap) and the heap object a word points into.
\<close>

unbundle bit_operations_syntax

section \<open>Marking\<close>

record gcEnv =
  gcWords :: "uintptr \<Rightarrow> uintptr list"
  heapObj :: "uintptr \<Rightarrow> uintptr"

text \<open>\<open>grey\<close> holds the nodes whose words are still to be scanned.\<close>

record gcSt =
  gesc :: escSt
  gheap :: "uintptr list"
  grey :: "uintptr list"

text \<open>\<open>fgoEscReach\<close>, without the scan, which takes the object from \<open>grey\<close>.\<close>

definition fgoEscReach :: "32 word \<Rightarrow> uintptr \<times> escRec \<Rightarrow> gcSt \<Rightarrow> gcSt" where
  "fgoEscReach cyc ir gs =
     (if emark (snd ir) = cyc then gs
      else gs\<lparr>gesc := escStamp (fst ir) cyc (gesc gs), grey := eobj (snd ir) # grey gs\<rparr>)"

definition fgoEscMark :: "fgoArena \<Rightarrow> 32 word \<Rightarrow> uintptr \<Rightarrow> gcSt \<Rightarrow> gcSt option" where
  "fgoEscMark a cyc p gs =
     (if off a p \<ge> unat (aSize a) then Some gs
      else let obj = fgoHandedObj a p in
        if obj = 0 then Some gs
        else Option.bind (fgoEscFind (etab (gesc gs)) obj) (\<lambda>f.
          Some (case f of None \<Rightarrow> gs | Some ir \<Rightarrow> fgoEscReach cyc ir gs)))"

text \<open>What the collector does with a word it finds.\<close>

definition gcWord :: "fgoArena \<Rightarrow> gcEnv \<Rightarrow> 32 word \<Rightarrow> uintptr \<Rightarrow> gcSt \<Rightarrow> gcSt option" where
  "gcWord a env cyc w gs =
     (if heapObj env w \<noteq> 0 then
        Some (if heapObj env w \<in> set (gheap gs) then gs
              else gs\<lparr>gheap := heapObj env w # gheap gs, grey := heapObj env w # grey gs\<rparr>)
      else fgoEscMark a cyc w gs)"

partial_function (option) gcDrain :: "fgoArena \<Rightarrow> gcEnv \<Rightarrow> 32 word \<Rightarrow> gcSt \<Rightarrow> gcSt option" where
  [code]: "gcDrain a env cyc gs =
     (case grey gs of
        [] \<Rightarrow> Some gs
      | n # ns \<Rightarrow> Option.bind (forAll (gcWord a env cyc) (gcWords env n) (gs\<lparr>grey := ns\<rparr>)) (gcDrain a env cyc))"

text \<open>The handed-off objects that are still counted are roots.\<close>

definition markIfCounted :: "fgoArena \<Rightarrow> rcMem \<Rightarrow> 32 word \<Rightarrow> escRec \<Rightarrow> gcSt \<Rightarrow> gcSt option" where
  "markIfCounted a m cyc r gs =
     (if fgoKindOf a (eobj r) = fgoHanded \<and> hdrRC m (eobj r) \<noteq> fgoHeld
      then Option.bind (fgoEscFind (etab (gesc gs)) (eobj r)) (\<lambda>f.
        Some (case f of None \<Rightarrow> gs | Some ir \<Rightarrow> fgoEscReach cyc ir gs))
      else Some gs)"

definition fgoMarkCounted :: "fgoArena \<Rightarrow> rcMem \<Rightarrow> 32 word \<Rightarrow> gcSt \<Rightarrow> gcSt option" where
  "fgoMarkCounted a m cyc gs =
     (case etab (gesc gs) of
        None \<Rightarrow> Some gs
      | Some t \<Rightarrow> forAll (markIfCounted a m cyc) (recList (eslots t)) gs)"

definition gcMark :: "fgoArena \<Rightarrow> gcEnv \<Rightarrow> rcMem \<Rightarrow> 32 word \<Rightarrow> uintptr list \<Rightarrow> escSt \<Rightarrow> escSt option" where
  "gcMark a env m cyc roots st =
     Option.bind (fgoMarkCounted a m cyc \<lparr>gesc = st, gheap = [], grey = []\<rparr>) (\<lambda>gs.
     Option.bind (forAll (gcWord a env cyc) roots gs) (\<lambda>gs.
     map_option gesc (gcDrain a env cyc gs)))"

section \<open>Sweeping\<close>

definition escDead :: "fgoArena \<Rightarrow> rcMem \<Rightarrow> 32 word \<Rightarrow> escRec \<Rightarrow> bool" where
  "escDead a m cyc r \<longleftrightarrow> \<not> sint (cyc - emark r) \<le> 0 \<and> \<not> (fgoKindOf a (eobj r) = fgoHanded \<and> hdrRC m (eobj r) \<noteq> fgoHeld)"

fun sweepFree :: "escRec list \<Rightarrow> fgoArena \<times> rcMem \<Rightarrow> fgoArena \<times> rcMem" where
  "sweepFree [] am = am"
| "sweepFree (r # rs) (a, m) =
     (let p = eobj r; k = fgoKindOf a p in
      sweepFree rs (fgoMarkHanded p fgoNone a, if k \<noteq> fgoHanded then m else freeObj p True m))"

definition fgoEscSweeper :: "32 word \<Rightarrow> fgoArena \<times> rcMem \<times> escSt \<Rightarrow> (fgoArena \<times> rcMem \<times> escSt) option" where
  "fgoEscSweeper cyc s =
     (case s of (a, m, st) \<Rightarrow>
      Option.bind (escSweep (escDead a m cyc) st) (\<lambda>(st, dropped).
        case sweepFree dropped (a, m) of (a, m) \<Rightarrow> Some (a, m, st)))"

definition gcCycle :: "gcEnv \<Rightarrow> 32 word \<Rightarrow> uintptr list \<Rightarrow> fgoArena \<times> rcMem \<times> escSt \<Rightarrow> (fgoArena \<times> rcMem \<times> escSt) option" where
  "gcCycle env cyc roots s =
     (case s of (a, m, st) \<Rightarrow>
      Option.bind (gcMark a env m cyc roots st) (\<lambda>st. fgoEscSweeper cyc (a, m, st)))"

section \<open>What is reached\<close>

definition nodeOf :: "fgoArena \<Rightarrow> gcEnv \<Rightarrow> uintptr \<Rightarrow> uintptr option" where
  "nodeOf a env w =
     (if heapObj env w \<noteq> 0 then Some (heapObj env w)
      else if off a w < unat (aSize a) \<and> fgoHandedObj a w \<noteq> 0 then Some (fgoHandedObj a w) else None)"

text \<open>\<open>old\<close> are the objects handed off since the cycle began, which are not scanned.\<close>

inductive gcReach :: "fgoArena \<Rightarrow> gcEnv \<Rightarrow> uintptr set \<Rightarrow> uintptr set \<Rightarrow> uintptr set \<Rightarrow> uintptr \<Rightarrow> bool" for a env old counted roots where
  root: "w \<in> roots \<Longrightarrow> nodeOf a env w = Some n \<Longrightarrow> gcReach a env old counted roots n"
| counted: "n \<in> counted \<Longrightarrow> gcReach a env old counted roots n"
| word: "gcReach a env old counted roots n \<Longrightarrow> n \<notin> old \<Longrightarrow> w \<in> set (gcWords env n) \<Longrightarrow> nodeOf a env w = Some n' \<Longrightarrow>
    gcReach a env old counted roots n'"

definition blackSet :: "32 word \<Rightarrow> gcSt \<Rightarrow> uintptr set" where
  "blackSet cyc gs = {p. escMap (gesc gs) p = Some cyc} \<union> set (gheap gs)"

text \<open>Heap objects and handed-off objects are different.\<close>

definition nodesOk :: "fgoArena \<Rightarrow> gcEnv \<Rightarrow> uintptr set \<Rightarrow> bool" where
  "nodesOk a env H \<longleftrightarrow> (\<forall>w. heapObj env w \<notin> H) \<and> (\<forall>w. fgoHandedObj a w \<noteq> 0 \<longrightarrow> fgoHandedObj a w \<in> H)"

definition gcInv :: "(uintptr \<Rightarrow> 32 word option) \<Rightarrow> 32 word \<Rightarrow> uintptr set \<Rightarrow> (uintptr \<Rightarrow> bool) \<Rightarrow> gcSt \<Rightarrow> bool" where
  "gcInv M cyc old R gs \<longleftrightarrow> escOk (gesc gs) \<and> dom (escMap (gesc gs)) = dom M \<and>
     (\<forall>p. escMap (gesc gs) p = M p \<or> escMap (gesc gs) p = Some cyc) \<and> set (gheap gs) \<inter> dom M = {} \<and> old \<subseteq> dom M \<and>
     old \<subseteq> blackSet cyc gs \<and> (\<forall>n \<in> blackSet cyc gs. n \<in> old \<or> R n) \<and> set (grey gs) \<subseteq> blackSet cyc gs - old"

text \<open>What is scanned has all its words' nodes black.\<close>

definition scanned :: "fgoArena \<Rightarrow> gcEnv \<Rightarrow> 32 word \<Rightarrow> uintptr \<Rightarrow> gcSt \<Rightarrow> bool" where
  "scanned a env cyc n gs \<longleftrightarrow> (\<forall>w \<in> set (gcWords env n). \<forall>n'. nodeOf a env w = Some n' \<longrightarrow> n' \<in> blackSet cyc gs)"

definition allScanned :: "fgoArena \<Rightarrow> gcEnv \<Rightarrow> 32 word \<Rightarrow> uintptr set \<Rightarrow> gcSt \<Rightarrow> bool" where
  "allScanned a env cyc old gs \<longleftrightarrow> (\<forall>n \<in> blackSet cyc gs - old - set (grey gs). scanned a env cyc n gs)"

definition greyer :: "32 word \<Rightarrow> gcSt \<Rightarrow> gcSt \<Rightarrow> bool" where
  "greyer cyc gs gs' \<longleftrightarrow> blackSet cyc gs \<subseteq> blackSet cyc gs' \<and> set (grey gs) \<subseteq> set (grey gs') \<and>
     blackSet cyc gs' - set (grey gs') \<subseteq> blackSet cyc gs - set (grey gs) \<and>
     card (- blackSet cyc gs') + length (grey gs') = card (- blackSet cyc gs) + length (grey gs)"

lemma greyer_refl: "greyer cyc gs gs"
  by (simp add: greyer_def)

lemma greyer_trans: "greyer cyc gs gs1 \<Longrightarrow> greyer cyc gs1 gs2 \<Longrightarrow> greyer cyc gs gs2"
  by (auto simp: greyer_def)

lemma scanned_mono: "scanned a env cyc n gs \<Longrightarrow> blackSet cyc gs \<subseteq> blackSet cyc gs' \<Longrightarrow> scanned a env cyc n gs'"
  by (auto simp: scanned_def)

text \<open>A node that turns grey.\<close>

lemma card_insert_compl: "n \<notin> B \<Longrightarrow> Suc (card (- insert (n :: uintptr) B)) = card (- B)"
  using card_Suc_Diff1 [of "- B" n] by (simp add: Compl_insert)

lemma greyer_insert:
  assumes "blackSet cyc gs' = insert n (blackSet cyc gs)" and "n \<notin> blackSet cyc gs" and "grey gs' = n # grey gs"
  shows "greyer cyc gs gs'"
  using assms card_insert_compl [OF assms(2)] by (auto simp: greyer_def)

lemma gcInvD:
  assumes "gcInv M cyc old R gs"
  shows "escOk (gesc gs)" "dom (escMap (gesc gs)) = dom M" "escMap (gesc gs) p = M p \<or> escMap (gesc gs) p = Some cyc"
    "set (gheap gs) \<inter> dom M = {}" "old \<subseteq> dom M"
  using assms by (simp_all add: gcInv_def)

lemma gcInv_grey:
  assumes "gcInv M cyc old R gs" and "n \<in> set (grey gs)"
  shows "n \<in> blackSet cyc gs" "n \<notin> old" "R n"
proof -
  have "set (grey gs) \<subseteq> blackSet cyc gs - old" "\<forall>n \<in> blackSet cyc gs. n \<in> old \<or> R n" using assms(1) by (simp_all add: gcInv_def)
  with assms(2) show "n \<in> blackSet cyc gs" "n \<notin> old" "R n" by blast+
qed

lemma gcInv_pop:
  assumes "gcInv M cyc old R gs" and "set ns \<subseteq> set (grey gs)"
  shows "gcInv M cyc old R (gs\<lparr>grey := ns\<rparr>)"
proof -
  have "blackSet cyc (gs\<lparr>grey := ns\<rparr>) = blackSet cyc gs" by (simp add: blackSet_def)
  moreover have "set (grey gs) \<subseteq> blackSet cyc gs - old" using assms(1) by (simp add: gcInv_def)
  then have "set ns \<subseteq> blackSet cyc gs - old" using assms(2) by blast
  ultimately show ?thesis using assms(1) by (simp add: gcInv_def)
qed

lemma gcInv_insert:
  assumes "gcInv M cyc old R gs" and "escOk (gesc gs')" and "dom (escMap (gesc gs')) = dom M" and "\<And>p. escMap (gesc gs') p = M p \<or> escMap (gesc gs') p = Some cyc" and "set (gheap gs') \<inter> dom M = {}"
    and "blackSet cyc gs' = insert n (blackSet cyc gs)" and "n \<notin> blackSet cyc gs" and "grey gs' = n # grey gs" and "R n"
  shows "gcInv M cyc old R gs' \<and> greyer cyc gs gs' \<and> n \<in> blackSet cyc gs'"
  using assms greyer_insert [OF assms(6-8)] by (auto simp: gcInv_def)

lemma reach_step:
  assumes inv: "gcInv M cyc old R gs" and f: "fgoEscFind (etab (gesc gs)) p = Some f" and R: "R p" and p: "p \<in> dom M"
  shows "\<exists>ir. f = Some ir \<and> gcInv M cyc old R (fgoEscReach cyc ir gs) \<and> greyer cyc gs (fgoEscReach cyc ir gs) \<and>
    p \<in> blackSet cyc (fgoEscReach cyc ir gs)"
proof -
  have ok: "escOk (gesc gs)" and dom: "dom (escMap (gesc gs)) = dom M" using inv by (simp_all add: gcInv_def)
  show ?thesis
    using ok
  proof (cases rule: find_cases [of "gesc gs" p])
    case (found i r)
    let ?gs = "fgoEscReach cyc (i, r) gs"
    have fir: "f = Some (i, r)" using f found(1) by simp
    have "gcInv M cyc old R ?gs \<and> greyer cyc gs ?gs \<and> p \<in> blackSet cyc ?gs"
    proof (cases "emark r = cyc")
      case True
      then have "p \<in> blackSet cyc gs" using found(4) by (simp add: blackSet_def)
      then show ?thesis using True inv greyer_refl by (simp add: fgoEscReach_def)
    next
      case False
      obtain st' where st': "escMark p cyc (gesc gs) = Some st'" "escOk st'" "escMap st' = (escMap (gesc gs))(p \<mapsto> cyc)"
        using mark_abs [OF ok, of p cyc] found(4) by auto
      have "st' = escStamp i cyc (gesc gs)" using st'(1) False found(1) by (simp add: escMark_def)
      with st' have st: "escOk (escStamp i cyc (gesc gs))" "escMap (escStamp i cyc (gesc gs)) = (escMap (gesc gs))(p \<mapsto> cyc)" by simp_all
      have gs: "?gs = gs\<lparr>gesc := escStamp i cyc (gesc gs), grey := p # grey gs\<rparr>" using False found(3) by (simp add: fgoEscReach_def)
      have "p \<notin> set (gheap gs)" using inv p by (auto simp: gcInv_def)
      then have new: "p \<notin> blackSet cyc gs" using found(4) False by (simp add: blackSet_def)
      show ?thesis
      proof (rule gcInv_insert [OF inv])
        show "dom (escMap (gesc ?gs)) = dom M" using dom p by (simp add: gs st(2) insert_absorb)
        show "escMap (gesc ?gs) q = M q \<or> escMap (gesc ?gs) q = Some cyc" for q
          using gcInvD(3) [OF inv, of q] by (simp add: gs st(2))
        show "set (gheap ?gs) \<inter> dom M = {}" using gcInvD(4) [OF inv] by (simp add: gs)
        show "blackSet cyc ?gs = insert p (blackSet cyc gs)" by (auto simp: gs blackSet_def st(2))
      qed (simp_all add: new R gs st(1))
    qed
    then show ?thesis using fir by blast
  next
    case missing
    then show ?thesis using p dom by auto
  qed
qed

lemma find_some: "escOk st \<Longrightarrow> \<exists>f. fgoEscFind (etab st) p = Some f"
  by (erule find_cases [of st p]) auto

lemma word_step:
  assumes inv: "gcInv M cyc old R gs" and nodes: "nodesOk a env (dom M)" and R: "\<And>n. nodeOf a env w = Some n \<Longrightarrow> R n"
  shows "\<exists>gs'. gcWord a env cyc w gs = Some gs' \<and> gcInv M cyc old R gs' \<and> greyer cyc gs gs' \<and>
    (\<forall>n. nodeOf a env w = Some n \<longrightarrow> n \<in> blackSet cyc gs')"
proof (cases "heapObj env w = 0")
  case False
  let ?o = "heapObj env w"
  have node: "nodeOf a env w = Some ?o" using False by (simp add: nodeOf_def)
  show ?thesis
  proof (cases "?o \<in> set (gheap gs)")
    case True
    then show ?thesis using inv node greyer_refl False by (auto simp: gcWord_def blackSet_def)
  next
    case new: False
    let ?gs = "gs\<lparr>gheap := ?o # gheap gs, grey := ?o # grey gs\<rparr>"
    have "?o \<notin> dom M" using nodes by (simp add: nodesOk_def)
    then have "?o \<notin> blackSet cyc gs" using new inv by (auto simp: blackSet_def gcInv_def)
    moreover have "blackSet cyc ?gs = insert ?o (blackSet cyc gs)" by (auto simp: blackSet_def)
    ultimately have "gcInv M cyc old R ?gs \<and> greyer cyc gs ?gs \<and> ?o \<in> blackSet cyc ?gs"
    proof (intro gcInv_insert [OF inv])
      show "escMap (gesc ?gs) q = M q \<or> escMap (gesc ?gs) q = Some cyc" for q
        using gcInvD(3) [OF inv, of q] by simp
      show "set (gheap ?gs) \<inter> dom M = {}" using gcInvD(4) [OF inv] \<open>?o \<notin> dom M\<close> by simp
    qed (simp_all add: gcInvD(1,2) [OF inv] R [OF node])
    then show ?thesis using node new False by (simp add: gcWord_def)
  qed
next
  case True
  show ?thesis
  proof (cases "off a w < unat (aSize a) \<and> fgoHandedObj a w \<noteq> 0")
    case arena: True
    then have node: "nodeOf a env w = Some (fgoHandedObj a w)" using True by (simp add: nodeOf_def)
    obtain f where f: "fgoEscFind (etab (gesc gs)) (fgoHandedObj a w) = Some f"
      using find_some [OF gcInvD(1) [OF inv], of "fgoHandedObj a w"] by blast
    have "fgoHandedObj a w \<in> dom M" using nodes arena by (simp add: nodesOk_def)
    from reach_step [OF inv f R [OF node] this] obtain ir where ir: "f = Some ir" "gcInv M cyc old R (fgoEscReach cyc ir gs)"
      "greyer cyc gs (fgoEscReach cyc ir gs)" "fgoHandedObj a w \<in> blackSet cyc (fgoEscReach cyc ir gs)" by blast
    then show ?thesis using node True arena f by (simp add: gcWord_def fgoEscMark_def Let_def)
  next
    case False
    then have "nodeOf a env w = None" using True by (auto simp: nodeOf_def)
    moreover have "gcWord a env cyc w gs = Some gs" using True False by (auto simp: gcWord_def fgoEscMark_def Let_def)
    ultimately show ?thesis using inv greyer_refl by simp
  qed
qed

lemma words_step:
  assumes "gcInv M cyc old R gs" and nodes: "nodesOk a env (dom M)" and "\<And>w n. w \<in> set ws \<Longrightarrow> nodeOf a env w = Some n \<Longrightarrow> R n"
  shows "\<exists>gs'. forAll (gcWord a env cyc) ws gs = Some gs' \<and> gcInv M cyc old R gs' \<and> greyer cyc gs gs' \<and>
    (\<forall>w \<in> set ws. \<forall>n. nodeOf a env w = Some n \<longrightarrow> n \<in> blackSet cyc gs')"
  using assms(1,3)
proof (induction ws arbitrary: gs)
  case Nil
  then show ?case using greyer_refl by simp
next
  case (Cons w ws)
  obtain gs1 where gs1: "gcWord a env cyc w gs = Some gs1" "gcInv M cyc old R gs1" "greyer cyc gs gs1"
      "\<forall>n. nodeOf a env w = Some n \<longrightarrow> n \<in> blackSet cyc gs1"
    using word_step [OF Cons.prems(1) nodes, of w] Cons.prems(2) by auto
  obtain gs2 where gs2: "forAll (gcWord a env cyc) ws gs1 = Some gs2" "gcInv M cyc old R gs2" "greyer cyc gs1 gs2"
      "\<forall>w \<in> set ws. \<forall>n. nodeOf a env w = Some n \<longrightarrow> n \<in> blackSet cyc gs2"
    using Cons.IH [OF gs1(2)] Cons.prems(2) by (meson list.set_intros(2))
  moreover have "blackSet cyc gs1 \<subseteq> blackSet cyc gs2" using gs2(3) by (simp add: greyer_def)
  ultimately show ?case using gs1 greyer_trans [OF gs1(3) gs2(3)] by (auto simp: gs1(1))
qed

section \<open>Marking finds what is reached\<close>

lemma drain_ok:
  assumes "gcInv M cyc old R gs" and "allScanned a env cyc old gs" and nodes: "nodesOk a env (dom M)"
    and R: "\<And>n w n'. R n \<Longrightarrow> n \<notin> old \<Longrightarrow> w \<in> set (gcWords env n) \<Longrightarrow> nodeOf a env w = Some n' \<Longrightarrow> R n'"
  shows "\<exists>gs'. gcDrain a env cyc gs = Some gs' \<and> gcInv M cyc old R gs' \<and> allScanned a env cyc old gs' \<and> grey gs' = [] \<and>
    blackSet cyc gs \<subseteq> blackSet cyc gs'"
  using assms(1,2)
proof (induction "card (- blackSet cyc gs) + length (grey gs)" arbitrary: gs rule: less_induct)
  case less
  show ?case
  proof (cases "grey gs")
    case Nil
    then have "gcDrain a env cyc gs = Some gs" by (subst gcDrain.simps) simp
    then show ?thesis using less.prems Nil by blast
  next
    case (Cons n ns)
    let ?gs = "gs\<lparr>grey := ns\<rparr>"
    have black: "blackSet cyc ?gs = blackSet cyc gs" by (simp add: blackSet_def)
    note n = gcInv_grey [OF less.prems(1), of n, unfolded Cons, OF list.set_intros(1)]
    have inv: "gcInv M cyc old R ?gs" by (rule gcInv_pop [OF less.prems(1)]) (auto simp: Cons)
    obtain gs1 where gs1: "forAll (gcWord a env cyc) (gcWords env n) ?gs = Some gs1" "gcInv M cyc old R gs1" "greyer cyc ?gs gs1"
        "\<forall>w \<in> set (gcWords env n). \<forall>n'. nodeOf a env w = Some n' \<longrightarrow> n' \<in> blackSet cyc gs1"
      using words_step [OF inv nodes, of "gcWords env n"] R [OF n(3,2)] by blast
    have mono: "blackSet cyc gs \<subseteq> blackSet cyc gs1" using gs1(3) by (simp add: greyer_def black)
    have "allScanned a env cyc old gs1"
      unfolding allScanned_def
    proof
      fix x assume x: "x \<in> blackSet cyc gs1 - old - set (grey gs1)"
      then have "x \<in> blackSet cyc gs" "x \<notin> set ns" "x \<notin> old" using gs1(3) by (auto simp: greyer_def black)
      then have "x \<noteq> n \<Longrightarrow> scanned a env cyc x gs" using less.prems(2) unfolding allScanned_def Cons by simp
      then show "scanned a env cyc x gs1"
        using gs1(4) scanned_mono [OF _ mono, of a env x] by (cases "x = n") (simp_all add: scanned_def [of a env cyc n])
    qed
    moreover have "card (- blackSet cyc gs1) + length (grey gs1) < card (- blackSet cyc gs) + length (grey gs)"
      using gs1(3) Cons by (simp add: greyer_def black)
    ultimately obtain gs' where gs': "gcDrain a env cyc gs1 = Some gs'" "gcInv M cyc old R gs'" "allScanned a env cyc old gs'" "grey gs' = []"
        "blackSet cyc gs1 \<subseteq> blackSet cyc gs'"
      using less.hyps [OF _ gs1(2)] by blast
    have "gcDrain a env cyc gs = gcDrain a env cyc gs1" by (subst gcDrain.simps) (simp add: Cons gs1(1))
    then show ?thesis using gs' subset_trans [OF mono gs'(5)] by auto
  qed
qed

definition stillCounted :: "fgoArena \<Rightarrow> rcMem \<Rightarrow> uintptr \<Rightarrow> bool" where
  "stillCounted a m p \<longleftrightarrow> fgoKindOf a p = fgoHanded \<and> hdrRC m p \<noteq> fgoHeld"

lemma counted_step:
  assumes "gcInv M cyc old R gs" and "\<forall>r \<in> set rs. eobj r \<in> dom M" and "\<And>r. r \<in> set rs \<Longrightarrow> stillCounted a m (eobj r) \<Longrightarrow> R (eobj r)"
  shows "\<exists>gs'. forAll (markIfCounted a m cyc) rs gs = Some gs' \<and> gcInv M cyc old R gs' \<and> greyer cyc gs gs' \<and>
    (\<forall>r \<in> set rs. stillCounted a m (eobj r) \<longrightarrow> eobj r \<in> blackSet cyc gs')"
  using assms
proof (induction rs arbitrary: gs)
  case Nil
  then show ?case using greyer_refl by simp
next
  case (Cons r rs)
  have rest: "\<exists>gs'. forAll (markIfCounted a m cyc) rs gs = Some gs' \<and> gcInv M cyc old R gs' \<and> greyer cyc gs gs' \<and>
    (\<forall>r \<in> set rs. stillCounted a m (eobj r) \<longrightarrow> eobj r \<in> blackSet cyc gs')" if "gcInv M cyc old R gs" for gs
    by (rule Cons.IH [OF that]) (use Cons.prems(2,3) in simp_all)
  show ?case
  proof (cases "stillCounted a m (eobj r)")
    case True
    obtain f where f: "fgoEscFind (etab (gesc gs)) (eobj r) = Some f"
      using find_some [OF gcInvD(1) [OF Cons.prems(1)], of "eobj r"] by blast
    obtain ir where ir: "f = Some ir" "gcInv M cyc old R (fgoEscReach cyc ir gs)" "greyer cyc gs (fgoEscReach cyc ir gs)"
        "eobj r \<in> blackSet cyc (fgoEscReach cyc ir gs)"
      using reach_step [OF Cons.prems(1) f] Cons.prems(2,3) True by auto
    obtain gs' where gs': "forAll (markIfCounted a m cyc) rs (fgoEscReach cyc ir gs) = Some gs'" "gcInv M cyc old R gs'" "greyer cyc (fgoEscReach cyc ir gs) gs'"
        "\<forall>r \<in> set rs. stillCounted a m (eobj r) \<longrightarrow> eobj r \<in> blackSet cyc gs'"
      using rest [OF ir(2)] by blast
    have step: "markIfCounted a m cyc r gs = Some (fgoEscReach cyc ir gs)"
      using True f ir(1) by (simp add: markIfCounted_def stillCounted_def)
    have "eobj r \<in> blackSet cyc gs'" using ir(4) gs'(3) by (auto simp: greyer_def)
    then show ?thesis
      using gs' greyer_trans [OF ir(3) gs'(3)] step by auto
  next
    case False
    then have "markIfCounted a m cyc r gs = Some gs" by (auto simp: markIfCounted_def stillCounted_def)
    then show ?thesis using rest [OF Cons.prems(1)] False by simp
  qed
qed

definition reached :: "fgoArena \<Rightarrow> gcEnv \<Rightarrow> rcMem \<Rightarrow> 32 word \<Rightarrow> uintptr list \<Rightarrow> escSt \<Rightarrow> uintptr \<Rightarrow> bool" where
  "reached a env m cyc roots st =
     gcReach a env {p. escMap st p = Some cyc} {p. p \<in> dom (escMap st) \<and> stillCounted a m p} (set roots)"

lemma gcMark_exact:
  assumes ok: "escOk st" and nodes: "nodesOk a env (dom (escMap st))"
  shows "\<exists>st'. gcMark a env m cyc roots st = Some st' \<and> escOk st' \<and> dom (escMap st') = dom (escMap st) \<and>
    (\<forall>p. escMap st' p = escMap st p \<or> escMap st' p = Some cyc) \<and>
    (\<forall>p. escMap st' p = Some cyc \<longleftrightarrow> p \<in> dom (escMap st) \<and> (escMap st p = Some cyc \<or> reached a env m cyc roots st p))"
proof -
  define old where "old = {p. escMap st p = Some cyc}"
  define R where "R = reached a env m cyc roots st"
  let ?gs0 = "\<lparr>gesc = st, gheap = [], grey = []\<rparr>"
  note Rdef = R_def reached_def old_def [symmetric]
  have start: "gcInv (escMap st) cyc old R ?gs0" "blackSet cyc ?gs0 = old"
    using ok by (auto simp: gcInv_def old_def blackSet_def)
  have "\<exists>gs1. fgoMarkCounted a m cyc ?gs0 = Some gs1 \<and> gcInv (escMap st) cyc old R gs1 \<and> greyer cyc ?gs0 gs1 \<and>
    (\<forall>p \<in> dom (escMap st). stillCounted a m p \<longrightarrow> p \<in> blackSet cyc gs1)"
  proof (cases "etab st")
    case None
    then show ?thesis using start(1) greyer_refl by (simp add: fgoMarkCounted_def escMap_def)
  next
    case (Some t)
    have recs: "dom (escMap st) = eobj ` set (recList (eslots t))"
      unfolding dom_escMap [OF ok] by (simp add: recsOf_def Some set_recList)
    have "R (eobj r)" if "r \<in> set (recList (eslots t))" "stillCounted a m (eobj r)" for r
      unfolding Rdef by (rule gcReach.counted) (use that recs in auto)
    with counted_step [OF start(1), of "recList (eslots t)" a m] show ?thesis
      unfolding recs by (simp add: fgoMarkCounted_def Some)
  qed
  then obtain gs1 where gs1: "fgoMarkCounted a m cyc ?gs0 = Some gs1" "gcInv (escMap st) cyc old R gs1" "greyer cyc ?gs0 gs1"
      "\<And>p. p \<in> dom (escMap st) \<Longrightarrow> stillCounted a m p \<Longrightarrow> p \<in> blackSet cyc gs1" by blast
  have "R n" if "w \<in> set roots" "nodeOf a env w = Some n" for w n
    unfolding Rdef by (rule gcReach.root [OF that])
  then obtain gs2 where gs2: "forAll (gcWord a env cyc) roots gs1 = Some gs2" "gcInv (escMap st) cyc old R gs2" "greyer cyc gs1 gs2"
      "\<forall>w \<in> set roots. \<forall>n. nodeOf a env w = Some n \<longrightarrow> n \<in> blackSet cyc gs2"
    using words_step [OF gs1(2) nodes] by blast
  have "blackSet cyc gs2 - set (grey gs2) \<subseteq> old" using gs1(3) gs2(3) start(2) by (auto simp: greyer_def)
  then have "allScanned a env cyc old gs2" by (auto simp: allScanned_def)
  moreover have "R n'" if "R n" "n \<notin> old" "w \<in> set (gcWords env n)" "nodeOf a env w = Some n'" for n w n'
    using that unfolding Rdef by (rule gcReach.word)
  ultimately obtain gs3 where gs3: "gcDrain a env cyc gs2 = Some gs3" "gcInv (escMap st) cyc old R gs3" "allScanned a env cyc old gs3" "grey gs3 = []"
      "blackSet cyc gs2 \<subseteq> blackSet cyc gs3"
    using drain_ok [OF gs2(2) _ nodes] by blast
  have mono: "blackSet cyc gs1 \<subseteq> blackSet cyc gs3" using gs2(3) gs3(5) by (auto simp: greyer_def)
  have "n \<in> blackSet cyc gs3" if "R n" for n
    using that unfolding Rdef
  proof (induction rule: gcReach.induct)
    case (root w n)
    then show ?case using gs2(4) gs3(5) by blast
  next
    case (counted n)
    then show ?case using gs1(4) mono by blast
  next
    case (word n w n')
    then show ?case using gs3(3,4) by (auto simp: allScanned_def scanned_def)
  qed
  moreover have "old \<subseteq> blackSet cyc gs3" "\<forall>n \<in> blackSet cyc gs3. n \<in> old \<or> R n" using gs3(2) by (simp_all add: gcInv_def)
  ultimately have black: "n \<in> blackSet cyc gs3 \<longleftrightarrow> n \<in> old \<or> R n" for n by blast
  have inv: "escOk (gesc gs3)" "dom (escMap (gesc gs3)) = dom (escMap st)" "set (gheap gs3) \<inter> dom (escMap st) = {}"
    "\<forall>p. escMap (gesc gs3) p = escMap st p \<or> escMap (gesc gs3) p = Some cyc"
    using gs3(2) by (simp_all add: gcInv_def)
  have "escMap (gesc gs3) p = Some cyc \<longleftrightarrow> p \<in> dom (escMap st) \<and> (p \<in> old \<or> R p)" for p
  proof
    assume "escMap (gesc gs3) p = Some cyc"
    then show "p \<in> dom (escMap st) \<and> (p \<in> old \<or> R p)" using inv(2) black [of p] by (auto simp: blackSet_def)
  next
    assume "p \<in> dom (escMap st) \<and> (p \<in> old \<or> R p)"
    then show "escMap (gesc gs3) p = Some cyc" using inv(3) black [of p] by (auto simp: blackSet_def)
  qed
  then show ?thesis
    using gs1(1) gs2(1) gs3(1) inv by (intro exI [of _ "gesc gs3"]) (simp add: gcMark_def old_def R_def)
qed

section \<open>Sweeping frees the rest\<close>

text \<open>Every handed-off object or buffer has a record.\<close>

definition gcOk :: "fgoArena \<Rightarrow> (uintptr \<Rightarrow> nat option) \<Rightarrow> (uintptr \<Rightarrow> 8 word) \<Rightarrow> rcMem \<Rightarrow> escSt \<Rightarrow> uintptr multiset \<Rightarrow> bool" where
  "gcOk a ext mk m st R \<longleftrightarrow> represents a ext mk m \<and> rcSafe m R \<and> escOk st \<and> dom (escMap st) = {p. handed mk p} \<and>
     (\<forall>p. mk p = fgoHanded \<longrightarrow> objs m p \<noteq> None)"

lemma gcOkD:
  assumes "gcOk a ext mk m st R"
  shows "represents a ext mk m" "rcSafe m R" "escOk st" "dom (escMap st) = {p. handed mk p}"
    "mk p = fgoHanded \<Longrightarrow> objs m p \<noteq> None"
  using assms by (simp_all add: gcOk_def)

lemma mark_of_object:
  assumes "represents a ext mk m" and "objs m p = Some x"
  shows "mk p = fgoHanded \<longleftrightarrow> rcMark x = SHanded" "\<not> handed mk p \<longleftrightarrow> rcMark x \<noteq> SHanded"
  using representsD(3) [OF assms] by (cases "rcMark x"; simp add: handed_def)+

lemma kind_exact:
  assumes "represents a ext mk m" and "mk p \<noteq> fgoNone"
  shows "fgoKindOf a p = mk p"
proof -
  obtain n where "ext p = Some n" using marksOkD(1) [OF representsD(2) [OF assms(1)] assms(2)] by blast
  then show ?thesis using state_start [OF representsD(1,2) [OF assms(1)]] by (simp add: fgoKindOf_def)
qed

lemma freeMarks_represents:
  assumes rep: "represents a ext mk m" and p: "handed mk p" and m': "objs m' = (objs m)(p := None)"
  shows "represents (fgoMarkHanded p fgoNone a) (ext(p := None)) (mk(p := fgoNone)) m'"
proof -
  note r = representsD [OF rep]
  have mk: "mk p \<noteq> fgoNone" using p by (auto simp: handed_def)
  then obtain n where n: "ext p = Some n" using marksOkD(1) [OF r(2)] by blast
  have "marksOk (fgoMarkHanded p fgoNone a) ext (mk(p := fgoNone))" by (rule marksOk_unmark [OF r(1,2) n mk])
  then have "marksOk (fgoMarkHanded p fgoNone a) (ext(p := None)) (mk(p := fgoNone))" by (rule marksOk_remove) simp
  moreover have "rcMark y \<noteq> SNone \<and> (mk(p := fgoNone)) q = markByte (rcMark y) \<and>
      (\<exists>n. (ext(p := None)) q = Some n \<and> typSize (fgoMarkHanded p fgoNone a) q = Some (of_nat n))"
    if "objs m' q = Some y" for q y
  proof -
    have "q \<noteq> p" "objs m q = Some y" using that by (auto simp: m' split: if_splits)
    then show ?thesis using r(3) [of q y] by simp
  qed
  ultimately show ?thesis unfolding represents_def fgoMarkHanded_arena using fits_remove [OF r(1)] by blast
qed

text \<open>The records dropped are of handed-off objects nothing counts, and of buffers.\<close>

definition droppable :: "(uintptr \<Rightarrow> 8 word) \<Rightarrow> rcMem \<Rightarrow> uintptr \<Rightarrow> bool" where
  "droppable mk m p \<longleftrightarrow> handed mk p \<and> (\<forall>x. objs m p = Some x \<longrightarrow> rcMark x = SHanded \<and> rc x = fgoHeld)"

lemma sweepFree_ok:
  assumes "represents a ext mk m" and "rcSafe m R" and "\<forall>p. mk p = fgoHanded \<longrightarrow> objs m p \<noteq> None"
    and "\<forall>r \<in> set rs. droppable mk m (eobj r)" and "distinct (map eobj rs)" and "sweepFree rs (a, m) = (a', m')"
  shows "\<exists>ext' mk'. represents a' ext' mk' m' \<and> rcSafe m' R \<and> mk' = (\<lambda>p. if p \<in> eobj ` set rs then fgoNone else mk p) \<and>
    objs m' = objs m |` (- (eobj ` set rs))"
  using assms
proof (induction rs arbitrary: a ext mk m)
  case (Cons r rs)
  let ?p = "eobj r"
  let ?m = "if fgoKindOf a ?p \<noteq> fgoHanded then m else freeObj ?p True m" and ?a = "fgoMarkHanded ?p fgoNone a" and ?mk = "mk(?p := fgoNone)"
  have drop: "handed mk ?p" "\<And>x. objs m ?p = Some x \<Longrightarrow> rcMark x = SHanded \<and> rc x = fgoHeld"
    using Cons.prems(4) by (simp_all add: droppable_def)
  have kind: "fgoKindOf a ?p = mk ?p" using drop(1) by (intro kind_exact [OF Cons.prems(1)]) (auto simp: handed_def)
  have buffer: "objs m ?p = None" if "mk ?p \<noteq> fgoHanded"
    using that drop(2) mark_of_object(1) [OF Cons.prems(1), of ?p] by (cases "objs m ?p") auto
  have objs: "objs ?m = (objs m)(?p := None)" using kind buffer by (auto simp: freeObj_def)
  have rep: "represents ?a (ext(?p := None)) ?mk ?m" by (rule freeMarks_represents [OF Cons.prems(1) drop(1) objs])
  have safe: "rcSafe ?m R"
  proof (cases "mk ?p = fgoHanded")
    case True
    then obtain x where x: "objs m ?p = Some x" using Cons.prems(3) by blast
    with drop(2) have "rcSafe (freeObj ?p True m) R" by (intro sweep_safe [OF Cons.prems(2) x]) auto
    then show ?thesis using kind True by simp
  qed (use kind Cons.prems(2) in simp)
  have rest: "\<exists>ext' mk'. represents a' ext' mk' m' \<and> rcSafe m' R \<and> mk' = (\<lambda>p. if p \<in> eobj ` set rs then fgoNone else ?mk p) \<and>
    objs m' = objs ?m |` (- (eobj ` set rs))"
  proof (rule Cons.IH [OF rep safe])
    show "\<forall>p. ?mk p = fgoHanded \<longrightarrow> objs ?m p \<noteq> None" using Cons.prems(3) unfolding objs by simp
    have "?p \<notin> eobj ` set rs" using Cons.prems(5) by simp
    then have "eobj s \<noteq> ?p" if "s \<in> set rs" for s by (metis that imageI)
    then show "\<forall>r \<in> set rs. droppable ?mk ?m (eobj r)"
      using Cons.prems(4) unfolding droppable_def objs by (simp add: handed_def)
    show "sweepFree rs (?a, ?m) = (a', m')" using Cons.prems(6) by (simp add: Let_def)
  qed (use Cons.prems(5) in simp)
  moreover have "(\<lambda>p. if p \<in> eobj ` set rs then fgoNone else ?mk p) = (\<lambda>p. if p \<in> eobj ` set (r # rs) then fgoNone else mk p)" by auto
  moreover have "objs ?m |` (- (eobj ` set rs)) = objs m |` (- (eobj ` set (r # rs)))" unfolding objs by (auto simp: restrict_map_def)
  ultimately show ?case by simp
qed (auto simp: restrict_map_def)

text \<open>A record of an earlier cycle.\<close>

definition earlier :: "32 word \<Rightarrow> 32 word \<Rightarrow> bool" where
  "earlier cyc c \<longleftrightarrow> c = cyc \<or> 0 < sint (cyc - c)"

definition swept :: "fgoArena \<Rightarrow> gcEnv \<Rightarrow> rcMem \<Rightarrow> 32 word \<Rightarrow> uintptr list \<Rightarrow> escSt \<Rightarrow> uintptr set" where
  "swept a env m cyc roots st = {p. \<exists>c. escMap st p = Some c \<and> c \<noteq> cyc \<and> \<not> reached a env m cyc roots st p}"

lemma sweeper_ok:
  assumes ok: "gcOk a ext mk m st R" and olds: "\<forall>p c. escMap st p = Some c \<longrightarrow> earlier cyc c"
    and counteds: "\<forall>p \<in> dom (escMap st). stillCounted a m p \<longrightarrow> escMap st p = Some cyc"
  shows "\<exists>a' m' st' ext' mk'. fgoEscSweeper cyc (a, m, st) = Some (a', m', st') \<and> gcOk a' ext' mk' m' st' R \<and>
    (\<forall>p. escMap st' p = (if escMap st p = Some cyc then Some cyc else None)) \<and>
    (\<forall>p. objs m' p = (if p \<in> dom (escMap st) \<and> escMap st p \<noteq> Some cyc then None else objs m p))"
proof -
  note rep = gcOkD(1) [OF ok] and esc = gcOkD(3) [OF ok]
  have old: "earlier cyc c" if "escMap st p = Some c" for p c using olds that by blast
  have counted: "escMap st p = Some cyc" if "p \<in> dom (escMap st)" "stillCounted a m p" for p using counteds that by blast
  let ?dead = "escDead a m cyc"
  obtain st' ds where sw: "escSweep ?dead st = Some (st', ds)" "escOk st'" "recsOf st' = {r \<in> recsOf st. \<not> ?dead r}"
      "set ds = {r \<in> recsOf st. ?dead r}" "distinct (map eobj ds)"
    using sweep_ok [OF esc] by blast
  have rec: "escMap st (eobj r) = Some (emark r)" if "r \<in> recsOf st" for r
  proof -
    have "\<lparr>eobj = eobj r, emark = emark r\<rparr> = r" by (cases r) simp
    then show ?thesis using escMap_Some [OF esc, of "eobj r" "emark r"] that by (simp only:)
  qed
  have dead: "?dead r \<longleftrightarrow> emark r \<noteq> cyc" if r: "r \<in> recsOf st" for r
  proof -
    have "emark r = cyc \<or> 0 < sint (cyc - emark r)" using old [OF rec [OF r]] by (simp add: earlier_def)
    moreover have "\<not> stillCounted a m (eobj r)" if "emark r \<noteq> cyc"
      using counted [of "eobj r"] rec [OF r] that by auto
    ultimately show ?thesis by (auto simp: escDead_def stillCounted_def)
  qed
  have ds: "eobj ` set ds = {p \<in> dom (escMap st). escMap st p \<noteq> Some cyc}"
  proof (intro set_eqI iffI)
    fix p assume "p \<in> eobj ` set ds"
    then show "p \<in> {p \<in> dom (escMap st). escMap st p \<noteq> Some cyc}" using rec dead by (auto simp: sw(4))
  next
    fix p assume p: "p \<in> {p \<in> dom (escMap st). escMap st p \<noteq> Some cyc}"
    then obtain c where c: "escMap st p = Some c" "c \<noteq> cyc" by auto
    then have "\<lparr>eobj = p, emark = c\<rparr> \<in> recsOf st" using escMap_Some [OF esc] by simp
    moreover from dead [OF this] have "?dead \<lparr>eobj = p, emark = c\<rparr>" using c(2) by simp
    ultimately show "p \<in> eobj ` set ds" unfolding sw(4) by force
  qed
  obtain a' m' where free: "sweepFree ds (a, m) = (a', m')" by (cases "sweepFree ds (a, m)")
  have "droppable mk m p" if p: "p \<in> eobj ` set ds" for p
  proof -
    have h: "handed mk p" using p gcOkD(4) [OF ok] unfolding ds by auto
    have "\<not> stillCounted a m p" using counted [of p] p unfolding ds by auto
    moreover have "fgoKindOf a p = mk p" using h by (intro kind_exact [OF rep]) (auto simp: handed_def)
    ultimately have "rcMark x = SHanded \<and> rc x = fgoHeld" if "objs m p = Some x" for x
      using mark_of_object [OF rep that] h that by (auto simp: stillCounted_def hdrRC_def)
    then show ?thesis using h by (simp add: droppable_def)
  qed
  then obtain ext' mk' where res: "represents a' ext' mk' m'" "rcSafe m' R" "mk' = (\<lambda>p. if p \<in> eobj ` set ds then fgoNone else mk p)"
      "objs m' = objs m |` (- (eobj ` set ds))"
    using sweepFree_ok [OF rep gcOkD(2) [OF ok] _ _ sw(5) free] gcOkD(5) [OF ok] by blast
  have map: "escMap st' p = (if escMap st p = Some cyc then Some cyc else None)" for p
  proof -
    have "escMap st' p = Some c \<longleftrightarrow> escMap st p = Some c \<and> c = cyc" for c
      using escMap_Some [OF esc, of p c] escMap_Some [OF sw(2), of p c] dead [of "\<lparr>eobj = p, emark = c\<rparr>"] by (auto simp: sw(3))
    then show ?thesis by (cases "escMap st' p") auto
  qed
  have dom: "dom (escMap st') = {p. handed mk' p}"
    using gcOkD(4) [OF ok] unfolding res(3) ds by (auto simp: map handed_def domIff split: if_splits)
  have objs: "objs m' p = (if p \<in> dom (escMap st) \<and> escMap st p \<noteq> Some cyc then None else objs m p)" for p
    unfolding res(4) ds by (simp add: restrict_map_def)
  have "mk' p = fgoHanded \<longrightarrow> objs m' p \<noteq> None" for p
    using gcOkD(5) [OF ok, of p] unfolding res(3) res(4) by (auto simp: restrict_map_def)
  then have "gcOk a' ext' mk' m' st' R" using res(1,2) sw(2) dom by (simp add: gcOk_def)
  moreover have "fgoEscSweeper cyc (a, m, st) = Some (a', m', st')" using sw(1) free by (simp add: fgoEscSweeper_def)
  ultimately show ?thesis using map objs by blast
qed

lemma cycle_ok:
  assumes ok: "gcOk a ext mk m st R" and nodes: "nodesOk a env (dom (escMap st))"
    and old: "\<forall>p c. escMap st p = Some c \<longrightarrow> earlier cyc c"
  shows "\<exists>a' m' st' ext' mk'. gcCycle env cyc roots (a, m, st) = Some (a', m', st') \<and> gcOk a' ext' mk' m' st' R \<and>
    (\<forall>p. objs m' p = (if p \<in> swept a env m cyc roots st then None else objs m p)) \<and>
    dom (escMap st') = dom (escMap st) - swept a env m cyc roots st"
proof -
  obtain st1 where mark: "gcMark a env m cyc roots st = Some st1" "escOk st1" "dom (escMap st1) = dom (escMap st)"
      "\<And>p. escMap st1 p = escMap st p \<or> escMap st1 p = Some cyc"
      "\<And>p. escMap st1 p = Some cyc \<longleftrightarrow> p \<in> dom (escMap st) \<and> (escMap st p = Some cyc \<or> reached a env m cyc roots st p)"
    using gcMark_exact [OF gcOkD(3) [OF ok] nodes] by blast
  have ok1: "gcOk a ext mk m st1 R" using ok mark(2,3) by (simp add: gcOk_def)
  have old1: "earlier cyc c" if "escMap st1 p = Some c" for p c
  proof (cases "escMap st1 p = Some cyc")
    case False
    then have "escMap st p = Some c" using mark(4) [of p] that by simp
    then show ?thesis using old by blast
  qed (use that in \<open>simp add: earlier_def\<close>)
  have counted: "escMap st1 p = Some cyc" if "p \<in> dom (escMap st1)" "stillCounted a m p" for p
    using that mark(3) mark(5) [of p] unfolding reached_def by (auto intro: gcReach.counted)
  have swept: "p \<in> dom (escMap st1) \<and> escMap st1 p \<noteq> Some cyc \<longleftrightarrow> p \<in> swept a env m cyc roots st" for p
    unfolding mark(3,5) swept_def by auto
  obtain a' m' st' ext' mk' where res: "fgoEscSweeper cyc (a, m, st1) = Some (a', m', st')" "gcOk a' ext' mk' m' st' R"
      "\<And>p. escMap st' p = (if escMap st1 p = Some cyc then Some cyc else None)"
      "\<And>p. objs m' p = (if p \<in> dom (escMap st1) \<and> escMap st1 p \<noteq> Some cyc then None else objs m p)"
    using sweeper_ok [OF ok1, of cyc] old1 counted by blast
  have "dom (escMap st') = dom (escMap st) - swept a env m cyc roots st"
  proof (rule set_eqI)
    fix p
    have "p \<in> dom (escMap st') \<longleftrightarrow> escMap st1 p = Some cyc" by (simp add: domIff res(3))
    then show "p \<in> dom (escMap st') \<longleftrightarrow> p \<in> dom (escMap st) - swept a env m cyc roots st"
      using swept [of p] unfolding mark(3) [symmetric] by blast
  qed
  then show ?thesis
    using mark(1) res(1,2,4) unfolding swept by (intro exI conjI) (auto simp: gcCycle_def)
qed

section \<open>What a cycle of the collector keeps and frees\<close>

text \<open>A handed-off object that is counted does not have the count \<^verbatim>\<open>fgoHeld\<close>.\<close>

lemma counted_held:
  assumes ok: "rcOk m R" and x: "objs m p = Some x" "rcMark x = SHanded" and pos: "count (refsOf m (dom (objs m))) p > 0"
  shows "rc x \<noteq> fgoHeld"
proof
  assume held: "rc x = fgoHeld"
  let ?T = "refsOf m (dom (objs m)) + R"
  have "size ?T < 2 ^ 62" "exact ?T p x" using ok x(1) by (simp_all add: rcOk_def)
  moreover from this(1) have "count ?T p < 2 ^ 62" using count_le_size [of ?T p] by linarith
  ultimately have "of_nat (2 ^ 63 + count ?T p) = (of_nat (2 ^ 63 + 0) :: uintptr)"
    using x(2) held by (simp add: exact_def fgo_flags)
  then have "2 ^ 63 + count ?T p = 2 ^ 63 + 0"
    using of_nat_inj [of "2 ^ 63 + count ?T p" "2 ^ 63 + 0"] \<open>count ?T p < 2 ^ 62\<close> by simp
  then show False using pos by simp
qed

lemma nodes_handed:
  assumes ok: "gcOk a ext mk m st R" and "\<forall>w. heapObj env w \<notin> dom (escMap st)"
  shows "nodesOk a env (dom (escMap st))"
  unfolding nodesOk_def
proof (intro conjI allI impI)
  fix w assume w: "fgoHandedObj a w \<noteq> 0"
  note r = representsD [OF gcOkD(1) [OF ok]]
  obtain q where "handed mk q" "holds a ext q w" using fgoHandedObj_exact(2) [OF r(1,2), of w] w by blast
  with fgoHandedObj_exact(1) [OF r(1,2)] have "handed mk (fgoHandedObj a w)" by simp
  then show "fgoHandedObj a w \<in> dom (escMap st)" using gcOkD(4) [OF ok] by simp
qed (use assms(2) in blast)

text \<open>
  C9: a cycle of the collector frees, of the objects that were handed off, exactly those that were
  handed off before the cycle, that no nogc code counts and that it does not reach from its roots,
  each with its record; every count stays exact.
\<close>

theorem gc_cycle_exact:
  assumes "gcOk a ext mk m st R" and "\<forall>w. heapObj env w \<notin> dom (escMap st)"
    and "\<forall>p c. escMap st p = Some c \<longrightarrow> earlier cyc c"
  shows "\<exists>a' m' st' ext' mk'. gcCycle env cyc roots (a, m, st) = Some (a', m', st') \<and> gcOk a' ext' mk' m' st' R \<and>
    (\<forall>p. objs m' p = (if p \<in> swept a env m cyc roots st then None else objs m p)) \<and>
    dom (escMap st') = dom (escMap st) - swept a env m cyc roots st"
  by (rule cycle_ok [OF assms(1) nodes_handed [OF assms(1,2)] assms(3)])

text \<open>The collector scans the pointer fields of the objects it was handed, and the arena is not its
  heap.\<close>

definition scansFields :: "gcEnv \<Rightarrow> rcMem \<Rightarrow> bool" where
  "scansFields env m \<longleftrightarrow> (\<forall>p x. objs m p = Some x \<longrightarrow> heapObj env p = 0 \<and>
     (rcMark x = SHanded \<longrightarrow> set (slots x) - {0} \<subseteq> set (gcWords env p)))"

lemma node_start:
  assumes ok: "gcOk a ext mk m st R" and x: "objs m p = Some x" "rcMark x = SHanded" and "heapObj env p = 0"
  shows "nodeOf a env p = Some p" and "p \<in> dom (escMap st)"
proof -
  note r = representsD [OF gcOkD(1) [OF ok]]
  obtain n where n: "ext p = Some n" using r(3) [OF x(1)] by blast
  have h: "handed mk p" using mark_of_object(2) [OF gcOkD(1) [OF ok] x(1)] x(2) by blast
  have "fgoHandedObj a p = p" by (rule fgoHandedObj_exact(1) [OF r(1,2) h]) (rule holds_start [of ext p n a, OF n])
  then show "nodeOf a env p = Some p" using fitsD(4,6) [OF r(1) n] assms(4) by (simp add: nodeOf_def)
  show "p \<in> dom (escMap st)" using h gcOkD(4) [OF ok] by simp
qed

text \<open>
  C38: when nothing was handed off since the cycle began, no object the collector keeps has a field
  that points to memory the cycle freed.
\<close>

theorem gc_cycle_no_dangling:
  assumes ok: "gcOk a ext mk m st R" and heap: "\<forall>w. heapObj env w \<notin> dom (escMap st)"
    and old: "\<forall>p c. escMap st p = Some c \<longrightarrow> earlier cyc c \<and> c \<noteq> cyc" and scan: "scansFields env m"
    and cycle: "gcCycle env cyc roots (a, m, st) = Some (a', m', st')"
    and q: "objs m' q = Some x" and c: "c \<in> set (slots x)" "objs m c \<noteq> None"
  shows "objs m' c \<noteq> None"
proof -
  let ?swept = "swept a env m cyc roots st"
  obtain a1 m1 st1 ext1 mk1 where "gcCycle env cyc roots (a, m, st) = Some (a1, m1, st1)"
      "\<forall>p. objs m1 p = (if p \<in> ?swept then None else objs m p)"
    using cycle_ok [OF ok nodes_handed [OF ok heap], of cyc roots] old by blast
  then have objs: "objs m' p = (if p \<in> ?swept then None else objs m p)" for p using cycle by simp
  have q': "objs m q = Some x" "q \<notin> ?swept" using q objs [of q] by (auto split: if_splits)
  obtain y where y: "objs m c = Some y" using c(2) by blast
  have "c \<notin> ?swept"
  proof (cases "rcMark y = SHanded")
    case False
    then have "c \<notin> dom (escMap st)" using mark_of_object(2) [OF gcOkD(1) [OF ok] y] gcOkD(4) [OF ok] by simp
    then show ?thesis by (auto simp: swept_def)
  next
    case True
    note node = node_start [OF ok y True, of env]
    have c0: "c \<noteq> 0" using y rcSafeD(1) [OF gcOkD(2) [OF ok]] by (auto simp: rcOk_def)
    have "reached a env m cyc roots st c"
    proof (cases "rcMark x = SHanded")
      case x: True
      have "q \<in> dom (escMap st)" using node_start(2) [OF ok q'(1) x, of env] scan q'(1) by (simp add: scansFields_def)
      then have "reached a env m cyc roots st q" using q'(2) old by (auto simp: swept_def)
      moreover have "c \<in> set (gcWords env q)" using scan q'(1) x c(1) c0 by (auto simp: scansFields_def)
      moreover have "heapObj env c = 0" using scan y by (simp add: scansFields_def)
      moreover have "q \<notin> {p. escMap st p = Some cyc}" using old by blast
      ultimately show ?thesis unfolding reached_def using node(1) by (auto intro: gcReach.word)
    next
      case x: False
      then have "c \<in># kids x" using c(1) c0 by (simp add: kids_def live_def)
      then have "count (refsOf m (dom (objs m))) c > 0"
        using kids_refsOf [OF _ q'(1)] rcSafeD(1) [OF gcOkD(2) [OF ok]] unfolding rcOk_def by (meson count_greater_zero_iff subsetD)
      then have "rc y \<noteq> fgoHeld" using counted_held [OF rcSafeD(1) [OF gcOkD(2) [OF ok]] y True] by simp
      moreover have "fgoKindOf a c = fgoHanded"
        using kind_exact [OF gcOkD(1) [OF ok], of c] mark_of_object(1) [OF gcOkD(1) [OF ok] y] True by simp
      ultimately have "stillCounted a m c" by (simp add: stillCounted_def hdrRC_def y)
      moreover have "c \<in> dom (escMap st)" using node(2) scan y by (simp add: scansFields_def)
      ultimately show ?thesis unfolding reached_def by (auto intro: gcReach.counted)
    qed
    then show ?thesis by (simp add: swept_def)
  qed
  then show ?thesis using objs [of c] y by simp
qed

text \<open>
  An object handed off while a cycle is marking bears its mark, so the collector does not scan
  it: an object handed off earlier, whose last counted reference was a field of the new one, is
  freed by the cycle although the new one is kept and still points to it.
\<close>

theorem handed_in_cycle_loses:
  assumes ok: "gcOk a ext mk m st R" and heap: "\<forall>w. heapObj env w \<notin> dom (escMap st)"
    and old: "\<forall>p c. escMap st p = Some c \<longrightarrow> earlier cyc c"
    and x: "escMap st x = Some cyc" "nodeOf a env x = Some x" and roots: "set roots = {x}"
    and h: "h \<in> dom (escMap st)" "h \<noteq> x" "escMap st h \<noteq> Some cyc" and none: "\<forall>p \<in> dom (escMap st). \<not> stillCounted a m p"
  shows "\<exists>a' m' st'. gcCycle env cyc roots (a, m, st) = Some (a', m', st') \<and> objs m' x = objs m x \<and> objs m' h = None"
proof -
  have only: "p = x" if "reached a env m cyc roots st p" for p
    using that unfolding reached_def
  proof (induction rule: gcReach.induct)
    case (word n w n')
    then show ?case using x(1) by simp
  qed (use roots x(2) none in auto)
  have "h \<in> swept a env m cyc roots st" "x \<notin> swept a env m cyc roots st"
    using only h x(1) by (auto simp: swept_def)
  with cycle_ok [OF ok nodes_handed [OF ok heap] old, of roots] show ?thesis by fastforce
qed

section \<open>An example cycle\<close>

text \<open>Two objects handed to the collector, the first with a field that points to the second.\<close>

abbreviation "exX \<equiv> 2 ^ 40 + 16 :: uintptr"
abbreviation "exH \<equiv> 2 ^ 40 + 64 :: uintptr"

definition gcMem :: rcMem where
  "gcMem = \<lparr>objs = [exX \<mapsto> \<lparr>rc = fgoHeld, rcMark = SHanded, rcFields = [(0, PtrF exH)], rcMixed = False\<rparr>,
                     exH \<mapsto> \<lparr>rc = fgoHeld, rcMark = SHanded, rcFields = [], rcMixed = False\<rparr>], freedMem = []\<rparr>"

definition gcMarks :: "uintptr \<Rightarrow> 8 word" where
  "gcMarks = (\<lambda>_. fgoNone)(exX := fgoHanded, exH := fgoHanded)"

definition gcArena :: fgoArena where
  "gcArena = fgoMarkHanded exH fgoHanded twoArena"

definition gcScan :: gcEnv where
  "gcScan = \<lparr>gcWords = (\<lambda>p. if p = exX then [exH] else []), heapObj = (\<lambda>_. 0)\<rparr>"

lemma gcArena_fits: "fits gcArena twoExt"
  unfolding gcArena_def fgoMarkHanded_arena by (rule twoArena_fits)

lemma gcArena_marks: "marksOk gcArena twoExt gcMarks"
  unfolding gcArena_def gcMarks_def
proof (rule marksOk_mark [OF twoArena_fits two_marks])
  show "twoExt exH = Some 8" by (simp add: twoExt_def)
  show "fgoHandedSize twoArena exH fgoHanded = of_nat 8" by (simp add: fgoHandedSize_def twoArena_def)
qed simp_all

lemma gcArena_represents: "represents gcArena twoExt gcMarks gcMem"
  unfolding represents_def
  by (intro conjI gcArena_fits gcArena_marks)
    (auto simp: gcMem_def gcArena_def twoArena_def twoExt_def gcMarks_def split: if_splits)

lemma gcMem_at:
  "objs gcMem p = Some x \<Longrightarrow> rcMark x = SHanded \<and> rc x = fgoHeld \<and> (p = exX \<and> rcFields x = [(0, PtrF exH)] \<or> p = exH \<and> rcFields x = [])"
  by (auto simp: gcMem_def split: if_splits)

lemma gcMem_safe: "rcSafe gcMem {#}"
proof -
  have dom: "dom (objs gcMem) = {exX, exH}" by (auto simp: gcMem_def)
  have refs: "refsOf gcMem {exX, exH} = {#}" by (simp add: refsOf_def) (simp add: gcMem_def kids_def)
  have "rcOk gcMem {#}"
    unfolding rcOk_def dom refs by (auto simp: exact_def fgo_flags dest!: gcMem_at)
  moreover have "fgoState gcMem exH = SHanded" by (simp add: fgoState_def gcMem_def)
  ultimately show ?thesis
    by (auto simp: rcSafe_def handedClosed_def sharedClosed_def settled_def slots_def dest!: gcMem_at)
qed

text \<open>The table after both were handed off, in the cycles \<open>c\<close> and \<open>c'\<close>.\<close>

lemma gc_table:
  obtains st where "gcOk gcArena twoExt gcMarks gcMem st {#}" and "escMap st = [exH \<mapsto> c, exX \<mapsto> c']"
proof -
  obtain st1 where st1: "fgoEscInsert exH c emptyEsc = Some st1" "escOk st1" "escMap st1 = [exH \<mapsto> c]"
    using insert_abs [OF emptyEsc_ok(1), of exH c] emptyEsc_ok(2) by auto
  obtain st where st: "fgoEscInsert exX c' st1 = Some st" "escOk st" "escMap st = [exH \<mapsto> c, exX \<mapsto> c']"
    using insert_abs [OF st1(2), of exX c'] st1(3) by auto
  have "{p. handed gcMarks p} = {exX, exH}" by (auto simp: handed_def gcMarks_def)
  moreover have "objs gcMem p \<noteq> None" if "gcMarks p = fgoHanded" for p
    using that by (auto simp: gcMem_def gcMarks_def split: if_splits)
  ultimately have "gcOk gcArena twoExt gcMarks gcMem st {#}"
    using gcArena_represents gcMem_safe st(2,3) by (auto simp: gcOk_def)
  then show thesis using st(3) by (rule that)
qed

lemma gc_none_counted: "dom (escMap st) = {exX, exH} \<Longrightarrow> \<forall>p \<in> dom (escMap st). \<not> stillCounted gcArena gcMem p"
  by (simp add: stillCounted_def hdrRC_def gcMem_def)

lemma gc_hyps:
  assumes "escMap st = [exH \<mapsto> c, exX \<mapsto> c']" and "earlier 2 c" and "earlier 2 c'"
  shows "\<forall>w. heapObj gcScan w \<notin> dom (escMap st)" and "\<forall>p d. escMap st p = Some d \<longrightarrow> earlier 2 d"
    and "scansFields gcScan gcMem"
  using assms by (auto simp: gcScan_def scansFields_def slots_def split: if_splits dest!: gcMem_at)

lemma earlier_1 [simp]: "earlier 2 1" and earlier_2 [simp]: "earlier 2 2"
  by (simp_all add: earlier_def)

lemma exX_object: "objs gcMem exX = Some \<lparr>rc = fgoHeld, rcMark = SHanded, rcFields = [(0, PtrF exH)], rcMixed = False\<rparr>"
  by (simp add: gcMem_def)

lemma exX_node: "gcOk gcArena twoExt gcMarks gcMem st {#} \<Longrightarrow> nodeOf gcArena gcScan exX = Some exX"
  by (rule node_start(1) [OF _ exX_object]) (simp_all add: gcScan_def)

theorem gc_cycle_exact_witness:
  "\<exists>st a' m' st' ext' mk'. gcCycle gcScan 2 [exX] (gcArena, gcMem, st) = Some (a', m', st') \<and> gcOk a' ext' mk' m' st' {#}"
proof -
  obtain st where st: "gcOk gcArena twoExt gcMarks gcMem st {#}" "escMap st = [exH \<mapsto> 1, exX \<mapsto> 1]" by (rule gc_table)
  from gc_cycle_exact [OF st(1) gc_hyps(1,2) [OF st(2) earlier_1 earlier_1], of "[exX]"] show ?thesis by blast
qed

theorem gc_cycle_no_dangling_witness:
  "\<exists>st a' m' st'. gcCycle gcScan 2 [exX] (gcArena, gcMem, st) = Some (a', m', st') \<and> objs m' exH \<noteq> None"
proof -
  obtain st where st: "gcOk gcArena twoExt gcMarks gcMem st {#}" "escMap st = [exH \<mapsto> 1, exX \<mapsto> 1]" by (rule gc_table)
  note hyps = gc_hyps [OF st(2) earlier_1 earlier_1]
  obtain a' m' st' where res: "gcCycle gcScan 2 [exX] (gcArena, gcMem, st) = Some (a', m', st')"
      "\<forall>p. objs m' p = (if p \<in> swept gcArena gcScan gcMem 2 [exX] st then None else objs gcMem p)"
    using cycle_ok [OF st(1) nodes_handed [OF st(1) hyps(1)] hyps(2), of "[exX]"] by blast
  have "reached gcArena gcScan gcMem 2 [exX] st exX"
    unfolding reached_def by (rule gcReach.root [OF _ exX_node [OF st(1)]]) simp
  then have "exX \<notin> swept gcArena gcScan gcMem 2 [exX] st" by (simp add: swept_def)
  then have kept: "objs m' exX = objs gcMem exX" using res(2) by simp
  have "objs m' exH \<noteq> None"
  proof (rule gc_cycle_no_dangling [OF st(1) hyps(1) _ hyps(3) res(1) kept [unfolded exX_object]])
    show "\<forall>p c. escMap st p = Some c \<longrightarrow> earlier 2 c \<and> c \<noteq> 2" by (simp add: st(2))
    show "objs gcMem exH \<noteq> None" by (simp add: gcMem_def)
  qed (simp add: slots_def)
  then show ?thesis using res(1) by blast
qed

theorem handed_in_cycle_loses_witness:
  "\<exists>st a' m' st'. gcCycle gcScan 2 [exX] (gcArena, gcMem, st) = Some (a', m', st') \<and> objs m' exX = objs gcMem exX \<and> objs m' exH = None"
proof -
  obtain st where st: "gcOk gcArena twoExt gcMarks gcMem st {#}" "escMap st = [exH \<mapsto> 1, exX \<mapsto> 2]" by (rule gc_table)
  note hyps = gc_hyps [OF st(2) earlier_1 earlier_2]
  have "\<exists>a' m' st'. gcCycle gcScan 2 [exX] (gcArena, gcMem, st) = Some (a', m', st') \<and> objs m' exX = objs gcMem exX \<and> objs m' exH = None"
    by (rule handed_in_cycle_loses [OF st(1) hyps(1,2)]) (use exX_node [OF st(1)] gc_none_counted [of st] in \<open>auto simp: st(2)\<close>)
  then show ?thesis by blast
qed

end
