(* ===== verification/RcDesc.thy ===== *)
theory RcDesc
  imports RcCount
begin

text \<open>
  \<^verbatim>\<open>src/src/runtime/forgo_rc.go\<close> and \<^verbatim>\<open>forgo_rc_tag.go\<close>: the descriptors that list what the release of an
  object must drop. A type is what these functions read of a \<^verbatim>\<open>_type\<close>: its size, its pointer bytes and
  its kind. Types are recursive through pointers and slices, so of their elements only what is read
  is kept.
\<close>

unbundle bit_operations_syntax

section \<open>Types\<close>

text \<open>\<open>PointerK b\<close>: whether the element is a struct type. \<open>SliceK b n\<close>: whether the element is a nogc
  pointer type, and its pointer bytes.\<close>

datatype rtype = RType (rsize: uintptr) (rptr: uintptr) (rkind: rtKind)
  and rtKind = StructK "(uintptr \<times> string \<times> rtype) list" | ArrayK nat rtype | PointerK bool | StringK | SliceK bool uintptr | OtherK

definition fgoIsRCPtrType :: "rtype \<Rightarrow> bool" where
  "fgoIsRCPtrType t = (case rkind t of PointerK b \<Rightarrow> b | _ \<Rightarrow> False)"

section \<open>Tagged fields\<close>

definition wantTag :: string where
  "wantTag = ''fgo:'' @ [CHR 0x22] @ ''nogc'' @ [CHR 0x22]"

text \<open>The loop, from \<open>i\<close>.\<close>

function tagNogcFrom :: "string \<Rightarrow> nat \<Rightarrow> bool" where
  "tagNogcFrom tag i =
     (if i + length wantTag \<le> length tag then
        if (i = 0 \<or> tag ! (i - 1) = CHR '' '') \<and> take (length wantTag) (drop i tag) = wantTag then True
        else tagNogcFrom tag (i + 1)
      else False)"
  by auto
termination by (relation "measure (\<lambda>(tag, i). length tag - i)") (auto simp: wantTag_def)

definition fgoTagNogc :: "string \<Rightarrow> bool" where
  "fgoTagNogc tag = tagNogcFrom tag 0"

fun fgoTagCount :: "rtype \<Rightarrow> nat" and tagCountFields :: "(uintptr \<times> string \<times> rtype) list \<Rightarrow> nat" where
  "fgoTagCount (RType s p k) =
     (case k of
        StructK fs \<Rightarrow> tagCountFields fs
      | ArrayK n e \<Rightarrow> if rptr e \<noteq> 0 then n * fgoTagCount e else 0
      | _ \<Rightarrow> 0)"
| "tagCountFields [] = 0"
| "tagCountFields (f # fs) =
     (case f of (off, tag, t) \<Rightarrow>
        (if fgoIsRCPtrType t \<and> fgoTagNogc tag then 1 else fgoTagCount t) + tagCountFields fs)"

fun fgoTagFill :: "rtype \<Rightarrow> uintptr \<Rightarrow> uintptr list" and tagFillFields :: "(uintptr \<times> string \<times> rtype) list \<Rightarrow> uintptr \<Rightarrow> uintptr list" where
  "fgoTagFill (RType s p k) off =
     (case k of
        StructK fs \<Rightarrow> tagFillFields fs off
      | ArrayK n e \<Rightarrow>
          if rptr e \<noteq> 0 \<and> fgoTagCount e \<noteq> 0
          then concat (map (\<lambda>i. fgoTagFill e (off + of_nat i * rsize e)) [0..<n]) else []
      | _ \<Rightarrow> [])"
| "tagFillFields [] off = []"
| "tagFillFields (f # fs) off =
     (case f of (o', tag, t) \<Rightarrow>
        (if fgoIsRCPtrType t \<and> fgoTagNogc tag then [off + o'] else fgoTagFill t (off + o')) @ tagFillFields fs off)"

section \<open>Descriptors\<close>

definition fieldOffs :: "uintptr \<times> string \<times> rtype \<Rightarrow> uintptr list" where
  "fieldOffs f =
     (case f of (off, tag, t) \<Rightarrow>
      (case rkind t of
         StructK fs \<Rightarrow> fgoTagFill t off
       | ArrayK n e \<Rightarrow> fgoTagFill t off
       | PointerK b \<Rightarrow> if fgoIsRCPtrType t then [off] else []
       | StringK \<Rightarrow> [off OR 1]
       | SliceK rcptr ptrBytes \<Rightarrow> if rcptr then [off OR 2] else if ptrBytes = 0 then [off OR 1] else []
       | OtherK \<Rightarrow> []))"

text \<open>The room of the new descriptor and the offsets put there.\<close>

definition descRoom :: "(uintptr \<times> string \<times> rtype) list \<Rightarrow> nat" where
  "descRoom fs = length fs + sum_list (map (\<lambda>(off, tag, t). fgoTagCount t) fs)"

definition descOffs :: "(uintptr \<times> string \<times> rtype) list \<Rightarrow> uintptr list" where
  "descOffs fs = concat (map fieldOffs fs)"

text \<open>The cache of an M, indexed by the type's address, before the list of all descriptors.\<close>

record descSt =
  mDescs :: "nat \<Rightarrow> (uintptr \<times> uintptr list) option"
  descList :: "(uintptr \<times> uintptr list) list"

definition descSlot :: "uintptr \<Rightarrow> nat" where
  "descSlot typ = unat (typ div 8) mod 64"

text \<open>The list all Ms share, which gets a new descriptor at its head.\<close>

definition descLookup :: "(uintptr \<Rightarrow> (uintptr \<times> string \<times> rtype) list) \<Rightarrow> uintptr \<Rightarrow> descSt \<Rightarrow> uintptr list \<times> descSt" where
  "descLookup flds typ st =
     (case find (\<lambda>d. fst d = typ) (descList st) of
        Some d \<Rightarrow> (snd d, st\<lparr>mDescs := (mDescs st)(descSlot typ \<mapsto> d)\<rparr>)
      | None \<Rightarrow>
          let d = (typ, descOffs (flds typ)) in
          (snd d, st\<lparr>mDescs := (mDescs st)(descSlot typ \<mapsto> d), descList := d # descList st\<rparr>))"

definition fgoRCDescOf :: "(uintptr \<Rightarrow> (uintptr \<times> string \<times> rtype) list) \<Rightarrow> uintptr \<Rightarrow> descSt \<Rightarrow> uintptr list \<times> descSt" where
  "fgoRCDescOf flds typ st =
     (let i = descSlot typ in
      case mDescs st i of
        Some (t, d) \<Rightarrow> if t = typ then (d, st) else descLookup flds typ st
      | None \<Rightarrow> descLookup flds typ st)"

section \<open>What the descriptors hold\<close>

lemma tagFill_length:
  "length (fgoTagFill t off) = fgoTagCount t"
  "length (tagFillFields fs off) = tagCountFields fs"
proof (induction t and fs arbitrary: off and off rule: fgoTagCount_tagCountFields.induct)
  case (1 s p k)
  show ?case
  proof (cases k)
    case (ArrayK n e)
    have "length (fgoTagFill e o') = fgoTagCount e" if "rptr e \<noteq> 0" for o' using 1(2) ArrayK that by blast
    then show ?thesis by (simp add: ArrayK length_concat o_def sum_list_triv)
  qed (use 1(1) in simp_all)
next
  case (3 f fs)
  obtain o' tag t where f: "f = (o', tag, t)" by (cases f)
  show ?case using 3(1) [OF f [symmetric] refl] 3(2) [OF f [symmetric] refl] by (simp add: f)
qed simp_all

lemma fieldOffs_length: "length (fieldOffs (off, tag, t)) \<le> 1 + fgoTagCount t"
  by (cases t; cases "rkind t") (simp_all add: fieldOffs_def tagFill_length del: fgoTagFill.simps fgoTagCount.simps)

text \<open>
  C39: the offsets a new descriptor is given fit in the room allocated for it.
\<close>

theorem descriptor_fits: "length (descOffs fs) \<le> descRoom fs"
proof (induction fs)
  case (Cons f fs)
  obtain off tag t where f: "f = (off, tag, t)" by (cases f)
  show ?case using Cons fieldOffs_length [of off tag t] by (simp add: f descOffs_def descRoom_def)
qed (simp add: descOffs_def descRoom_def)

text \<open>Every descriptor kept is that of its type.\<close>

definition descsOk :: "(uintptr \<Rightarrow> (uintptr \<times> string \<times> rtype) list) \<Rightarrow> descSt \<Rightarrow> bool" where
  "descsOk flds st \<longleftrightarrow> (\<forall>d \<in> set (descList st). snd d = descOffs (flds (fst d))) \<and>
     (\<forall>i d. mDescs st i = Some d \<longrightarrow> snd d = descOffs (flds (fst d)))"

lemma descOf_ok:
  assumes "descsOk flds st"
  shows "fst (fgoRCDescOf flds typ st) = descOffs (flds typ)" and "descsOk flds (snd (fgoRCDescOf flds typ st))"
  using assms
proof -
  have find: "snd d = descOffs (flds typ) \<and> fst d = typ" if "find (\<lambda>d. fst d = typ) (descList st) = Some d" for d
    using that assms by (auto simp: find_Some_iff descsOk_def)
  have "fst (descLookup flds typ st) = descOffs (flds typ) \<and> descsOk flds (snd (descLookup flds typ st))"
    using assms find by (auto simp: descLookup_def descsOk_def Let_def split: option.splits)
  then show "fst (fgoRCDescOf flds typ st) = descOffs (flds typ)" "descsOk flds (snd (fgoRCDescOf flds typ st))"
    using assms by (auto simp: fgoRCDescOf_def descsOk_def Let_def split: option.splits)
qed

definition tagAt :: "string \<Rightarrow> nat \<Rightarrow> bool" where
  "tagAt tag j \<longleftrightarrow> j + length wantTag \<le> length tag \<and> (j = 0 \<or> tag ! (j - 1) = CHR '' '') \<and>
     take (length wantTag) (drop j tag) = wantTag"

lemma tagNogcFrom_step: "tagNogcFrom tag i \<longleftrightarrow> tagAt tag i \<or> i + length wantTag \<le> length tag \<and> tagNogcFrom tag (i + 1)"
  by (subst tagNogcFrom.simps) (simp add: tagAt_def)

declare tagNogcFrom.simps [simp del]

lemma tagNogcFrom_iff: "tagNogcFrom tag i \<longleftrightarrow> (\<exists>j \<ge> i. tagAt tag j)"
proof (induction "length tag - i" arbitrary: i)
  case 0
  have "j + length wantTag > length tag" if "j \<ge> i" for j using 0 that by (simp add: wantTag_def)
  then have "\<not> tagAt tag j" if "j \<ge> i" for j using that by (meson not_le tagAt_def)
  moreover have "\<not> i + length wantTag \<le> length tag" using 0 by (simp add: wantTag_def)
  ultimately show ?case using tagNogcFrom_step [of tag i] by blast
next
  case (Suc n)
  have IH: "tagNogcFrom tag (i + 1) \<longleftrightarrow> (\<exists>j \<ge> i + 1. tagAt tag j)" using Suc by simp
  have "j + length wantTag \<le> length tag" if "tagAt tag j" for j using that by (simp add: tagAt_def)
  then have fits: "i + length wantTag \<le> length tag" if "\<exists>j \<ge> i + 1. tagAt tag j" using that by fastforce
  have "(\<exists>j \<ge> i. tagAt tag j) \<longleftrightarrow> tagAt tag i \<or> (\<exists>j \<ge> i + 1. tagAt tag j)"
    by (metis Suc_eq_plus1 le_eq_less_or_eq less_eq_Suc_le)
  then show ?case using IH fits tagNogcFrom_step [of tag i] by blast
qed

text \<open>
  C40: a field is tagged exactly if its struct tag has \<open>fgo:"nogc"\<close> at its start or after a space.
\<close>

theorem fgoTagNogc_exact:
  "fgoTagNogc tag \<longleftrightarrow> (\<exists>pre post. tag = pre @ wantTag @ post \<and> (pre = [] \<or> last pre = CHR '' ''))"
proof
  assume "fgoTagNogc tag"
  then obtain j where j: "tagAt tag j" by (auto simp: fgoTagNogc_def tagNogcFrom_iff)
  let ?pre = "take j tag" and ?post = "drop (length wantTag) (drop j tag)"
  have "tag = ?pre @ take (length wantTag) (drop j tag) @ ?post" unfolding append_take_drop_id by simp
  then have "tag = ?pre @ wantTag @ ?post" using j by (simp only: tagAt_def)
  moreover have "?pre = [] \<or> last ?pre = CHR '' ''"
  proof (cases j)
    case (Suc k)
    then have "last ?pre = tag ! k" using j by (simp add: tagAt_def take_Suc_conv_app_nth)
    then show ?thesis using j Suc by (simp add: tagAt_def)
  qed simp
  ultimately show "\<exists>pre post. tag = pre @ wantTag @ post \<and> (pre = [] \<or> last pre = CHR '' '')" by blast
next
  assume "\<exists>pre post. tag = pre @ wantTag @ post \<and> (pre = [] \<or> last pre = CHR '' '')"
  then obtain pre post where tag: "tag = pre @ wantTag @ post" "pre = [] \<or> last pre = CHR '' ''" by blast
  then have "tagAt tag (length pre)" by (cases pre rule: rev_cases) (auto simp: tagAt_def)
  then show "fgoTagNogc tag" by (auto simp: fgoTagNogc_def tagNogcFrom_iff)
qed

end
