(* ===== verification/Spec2Isabelle.thy ===== *)
theory Spec2Isabelle
  imports PostfixIf Throw TryOp WithRuns Fgoeval Gotos RcAlloc RcSweep RcDesc
begin

text \<open>
  Forgo is a fork of the Go tree with statements of its own (\<^verbatim>\<open>throw\<close>, \<^verbatim>\<open>STMT if COND\<close>, \<^verbatim>\<open>f()?\<close>,
  \<^verbatim>\<open>with\<close>), evaluation at compile time, and reference counted memory for code under \<^verbatim>\<open>//fgo:nogc\<close>.
  This library models the parts the fork adds and the parts of the tree they lean on, and proves
  what makes them correct.

  \<^bold>\<open>The compiler front end.\<close> The parser builds a syntax tree and checks its labels and branches;
  the noder then lowers the new statements one pass after the other, each rewriting the tree in
  place, and the type checker decides which bodies end in a terminating statement.

  \<^item> \<open>Prelude\<close>: traversals that thread a state, and the locale \<open>lowering_pass\<close>, the contract of a
    pass (what is lowered, what stays, that running it twice is running it once). \<open>PostfixIf\<close>,
    \<open>Throw\<close>, \<open>TryOp\<close> and \<open>With\<close> interpret it.
  \<^item> \<open>Syntax\<close>, \<open>Walk\<close>: the nodes of \<^verbatim>\<open>syntax/nodes.go\<close> and \<^verbatim>\<open>syntax.Walk\<close> (\<^verbatim>\<open>syntax/walk.go\<close>).
  \<^item> \<open>PostfixIf\<close>, \<open>Throw\<close>, \<open>TryOp\<close>, \<open>With\<close>: \<^verbatim>\<open>noder/forgo_postfixif.go\<close>, \<^verbatim>\<open>forgo_throw.go\<close>,
    \<^verbatim>\<open>forgo_try.go\<close> and \<^verbatim>\<open>forgo_with.go\<close>, one definition per function. The lemmas say which
    statements are left (none, except below nodes a pass skips), what one statement becomes, that
    temporaries are fresh, that every \<^verbatim>\<open>continue\<close> of a rewritten loop is redirected.
  \<^item> \<open>Return\<close>: \<^verbatim>\<open>types2/return.go\<close>. \<open>Control\<close>: the runs of statements, an inductive relation, and the
    soundness of that analysis for it. \<open>WithRuns\<close>: the exit of a with statement is performed on
    every way out of its body, once, as a refinement between the runs before and after lowering.
  \<^item> \<open>Branches\<close>, \<open>Gotos\<close>: \<^verbatim>\<open>syntax/branches.go\<close> on blocks known by number. The locale
    \<open>branch_steps\<close> is what each step of the check keeps; its interpretations give the invariants
    behind the properties on targets and on gotos.

  \<^bold>\<open>Evaluation at compile time.\<close> The interpreters of the compiler and of \<^verbatim>\<open>go/types\<close> share
  \<^verbatim>\<open>internal/fgoeval\<close>; the package \<^verbatim>\<open>comptime/embed\<close> does at run time what the interpreters fold.

  \<^item> \<open>GoStrings\<close>: \<^verbatim>\<open>utf8.ValidString\<close> and \<^verbatim>\<open>fs.ValidPath\<close>. \<open>GoConstant\<close>: the constants of
    \<^verbatim>\<open>go/constant/value.go\<close>, with the machine arithmetic and its guards.
  \<^item> \<open>EmbedFS\<close>, \<open>EmbedLoad\<close>: \<^verbatim>\<open>comptime/embed/embed.go\<close>. The locale \<open>sorted_index\<close> is binary search in
    a list sorted by key; the interpretation \<open>srt\<close> is the sorted file list. Searches, paging,
    cursors and loading from a disk are exact, and a loaded tree is read back.
  \<^item> \<open>Fgoeval\<close>: \<^verbatim>\<open>internal/fgoeval/fgoeval.go\<close>. Operators and conversions are Go's on machine integers,
    and the folded file system is the one \<open>Load\<close> builds.

  \<^bold>\<open>Counted memory.\<close> The compiler inserts calls of \<^verbatim>\<open>runtime/forgo_rc.go\<close> and \<^verbatim>\<open>forgo_rc_tag.go\<close>.

  \<^item> \<open>RcCount\<close>: objects with a header word and fields, increments, decrements, the release loop
    with its list linked through the count words. The invariant \<open>rcOk\<close> says each count is the
    number of references to the object; \<open>RcOps\<close> (drops for reuse, kept fields), \<open>RcHandoff\<close>
    (objects given to the garbage collector), \<open>RcStore\<close> (sharing between goroutines, stores) and
    \<open>RcSlices\<close> (slices of nogc pointers) show each operation keeps it, and that it returns.
    \<open>RcRun\<close> composes them: in every run nothing dangles and nothing leaks.
  \<^item> \<open>RcState\<close>: the state byte of the above is really found from the pointer, through one byte per 16
    bytes and one counter per chunk of the arena; the bytes represent the states.
  \<^item> \<open>RcEsc\<close>: the open addressing table of handed-off objects. The locale \<open>record_table\<close> is a map
    with insertion, stamping and deletion; \<open>escTable\<close> interprets it. \<open>RcSweep\<close>: marking from the
    collector's roots and sweeping of handed-off objects, over \<open>RcState\<close> and \<open>RcEsc\<close>.
  \<^item> \<open>RcAlloc\<close>: size classes, caches of the Ms, spare batches, carving from the arena. The locale
    \<open>block_allocator\<close> is what clients rely on; \<open>nogcHeap\<close> interprets it.
  \<^item> \<open>RcDesc\<close>: the lists of what the release of a type drops.

  \<^bold>\<open>Bounds and fuel.\<close> Counts stay below \<open>2 ^ 62\<close>, the number of references an address space can
  hold; the table of handed-off objects holds fewer than \<open>2 ^ 28\<close> (its slot array has a fixed bound);
  the arena has 64 GB. Walks over the table, the release loop and the work lists are partial
  functions: that they return is part of each theorem. \<open>Load\<close> takes fuel for the depth of the disk and
  \<open>Load_terminates\<close> says how much is enough. Offsets of files and the integers of constants are words
  where the source's are.

  \<^bold>\<open>Parameters.\<close> What the type checker knows (\<open>withInfo\<close>, recorded calls of panic, \<^verbatim>\<open>checkCopies\<close>); the
  disk; \<^verbatim>\<open>filepath.Join\<close>, \<^verbatim>\<open>sort.Slice\<close>, \<^verbatim>\<open>fmt\<close>, JSON of scalars; floating-point constants; what
  \<^verbatim>\<open>spanOfHeap\<close> finds; which words the collector scans and which of its objects they point into.

  \<^bold>\<open>Abstractions.\<close> Positions and comments are left out of the tree, and diagnostics are in the order of
  the tree. A goroutine's atomic operations are single steps. A string or slice buffer is part of the
  field that owns it. Freed objects go to a list that stands for the allocator, which gives fresh
  addresses. The arena is reserved already. A record of a handed-off object is a value in its slot,
  so the list of records to use again is not there. A cycle of the collector is one step; cycle numbers
  are compared as the source does, as a signed difference.

  \<^bold>\<open>Not modelled.\<close> The parser's grammar (\<^verbatim>\<open>syntax/parser.go\<close>) and scanner; the interpreter and macros
  (\<^verbatim>\<open>compile/internal/forgo\<close>), which need the whole language and the type checker's objects;
  \<^verbatim>\<open>forgo_pin.go\<close> and \<^verbatim>\<open>forgo_nogc.go\<close>, passes over typed nodes; the counting pass
  \<^verbatim>\<open>ssa/forgo_rc.go\<close>, which rests on SSA, dominators and liveness of the back end; copying of string and
  slice buffers, objects with both counted and collected fields, weak handles, and the release of
  frames by stack maps in \<^verbatim>\<open>forgo_rc.go\<close>; the editor support, hot reload and the linker; and the
  rest of the Go tree, which the fork shares with upstream.
\<close>

end
